(* ===== verification/Js_Prelude.thy ===== *)
theory Js_Prelude
  imports Complex_Main "HOL-Library.Word"
begin

text \<open>
  What the components share: the collections of rewrite rules the proofs are stated over, the
  result type of code that may throw, and generic facts on lists, options and powers.
\<close>

unbundle bit_operations_syntax

subsection \<open>Collections\<close>

named_theorems js_num \<open>evaluation of JavaScript number operations\<close>
named_theorems bytes_simps \<open>reading little-endian fields out of a byte buffer\<close>
named_theorems view_simps \<open>unfolding of the fields of the live view\<close>

subsection \<open>Code that may throw\<close>

text \<open>
  A function of the source that can throw returns \<open>'e + 'a\<close>: \<open>Inl e\<close> for the
  exception, \<open>Inr v\<close> for the value.
\<close>

datatype js_error =
    Range_error            \<comment> \<open>a \<^verbatim>\<open>DataView\<close> or array access out of bounds\<close>
  | Type_error             \<comment> \<open>a property of \<^verbatim>\<open>undefined\<close>\<close>
  | Etag_mismatch          \<comment> \<open>the class \<^verbatim>\<open>EtagMismatch\<close>\<close>
  | Fetch_failed           \<comment> \<open>the network or an \<^verbatim>\<open>AbortSignal\<close> rejected the request\<close>
  | Error string           \<comment> \<open>\<^verbatim>\<open>new Error(message)\<close>\<close>

definition bind_sum :: "'e + 'a \<Rightarrow> ('a \<Rightarrow> 'e + 'b) \<Rightarrow> 'e + 'b" where
  "bind_sum r f = (case r of Inl e \<Rightarrow> Inl e | Inr v \<Rightarrow> f v)"

lemma bind_sum_simps [simp]:
  "bind_sum (Inl e) f = Inl e"
  "bind_sum (Inr v) f = f v"
  by (simp_all add: bind_sum_def)

lemma bind_sum_Inr_iff:
  "bind_sum r f = Inr w \<longleftrightarrow> (\<exists>v. r = Inr v \<and> f v = Inr w)"
  by (cases r) simp_all

lemma bind_sum_Inl_iff: "bind_sum r f = Inl e \<longleftrightarrow> r = Inl e \<or> (\<exists>v. r = Inr v \<and> f v = Inl e)"
  by (cases r) simp_all

lemma bind_sum_cong [fundef_cong]:
  "r = r' \<Longrightarrow> (\<And>v. r' = Inr v \<Longrightarrow> f v = g v) \<Longrightarrow> bind_sum r f = bind_sum r' g"
  by (cases r') simp_all

subsection \<open>Powers of two\<close>

lemma powi_two_pos [simp]: "0 < (2::rat) powi e"
  by simp

lemma powi_two_neq_0 [simp]: "(2::rat) powi e \<noteq> 0"
  by simp

lemma powi_two_le_iff [simp]: "(2::rat) powi a \<le> 2 powi b \<longleftrightarrow> a \<le> b"
  by (meson linorder_not_le one_less_numeral_iff power_int_increasing power_int_strict_increasing
      one_le_numeral semiring_norm(76))

lemma powi_two_less_iff [simp]: "(2::rat) powi a < 2 powi b \<longleftrightarrow> a < b"
  by (meson linorder_not_le powi_two_le_iff)

lemma powi_two_div: "(2::rat) powi a / 2 powi b = 2 powi (a - b)"
  by (simp add: power_int_diff)

lemma powi_two_mult: "(2::rat) powi a * 2 powi b = 2 powi (a + b)"
  by (simp add: power_int_add)

lemma powi_two_nonneg: "0 \<le> e \<Longrightarrow> (2::rat) powi e = of_int (2 ^ nat e)"
  by (simp add: power_int_def)

end
