(* ===== verification/Js_Number.thy ===== *)
theory Js_Number
  imports Js_Prelude "HOL-Library.Log_Nat"
begin

text \<open>
  JavaScript's \<^verbatim>\<open>Number\<close>: the value of every finite number is a rational, and every arithmetic
  operation rounds its exact result to 53 significant bits (round half to even, subnormals at
  \<open>2^-1074\<close>), which is \<open>fl\<close>. Code whose numbers stay finite (the tile reader) computes with
  \<open>rat\<close> or \<open>int\<close> and \<open>fl\<close>; code that meets NaN, the infinities or \<^verbatim>\<open>-0\<close> (the live
  view, which parses whatever the payload holds) uses the type \<open>jsnum\<close>. The bit operators
  convert with \<^verbatim>\<open>ToInt32\<close>.
\<close>

section \<open>Rounding to double precision\<close>

definition ilog2 :: "rat \<Rightarrow> int" where
  "ilog2 q =
     (let e = bitlen (fst (quotient_of q)) - bitlen (snd (quotient_of q))
      in if q < 2 powi e then e - 1 else e)"

definition rhe :: "rat \<Rightarrow> int" where
  "rhe q =
     (let f = \<lfloor>q\<rfloor>; r = q - of_int f
      in if r < 1/2 then f else if 1/2 < r then f + 1 else if even f then f else f + 1)"

definition fl_exp :: "rat \<Rightarrow> int" where
  "fl_exp q = max (ilog2 \<bar>q\<bar> - 52) (- 1074)"

definition fl :: "rat \<Rightarrow> rat" where
  "fl q = (if q = 0 then 0 else of_int (rhe (q / 2 powi fl_exp q)) * 2 powi fl_exp q)"

subsection \<open>The binary logarithm\<close>

lemma bitlen_bounds_rat:
  assumes "0 < (x::int)"
  shows "(2::rat) powi (bitlen x - 1) \<le> of_int x" and "of_int x < (2::rat) powi bitlen x"
proof -
  have b: "2 ^ nat (bitlen x - 1) \<le> x \<and> x < 2 ^ nat (bitlen x)"
    using assms by (rule bitlen_bounds)
  have p: "0 < bitlen x"
    using assms bitlen_bounds[OF assms] by (cases "bitlen x \<le> 0") auto
  from b have "of_int (2 ^ nat (bitlen x - 1)) \<le> (of_int x :: rat)"
    by (simp only: of_int_le_iff)
  with p show "(2::rat) powi (bitlen x - 1) \<le> of_int x"
    by (simp add: powi_two_nonneg)
  from b have "(of_int x :: rat) < of_int (2 ^ nat (bitlen x))"
    by (simp only: of_int_less_iff)
  with p show "of_int x < (2::rat) powi bitlen x"
    by (simp add: powi_two_nonneg)
qed

lemma ilog2_bounds:
  assumes "0 < q"
  shows "2 powi ilog2 q \<le> q" and "q < 2 powi (ilog2 q + 1)"
proof -
  obtain a b where ab: "quotient_of q = (a, b)" by fastforce
  have q: "q = of_int a / of_int b" and b: "0 < b"
    using ab by (auto simp: quotient_of_div dest: quotient_of_denom_pos)
  with assms have a: "0 < a" by (simp add: zero_less_divide_iff)
  define e where "e = bitlen a - bitlen b"
  have "q < 2 powi bitlen a / 2 powi (bitlen b - 1)"
    unfolding q using a b bitlen_bounds_rat[OF a] bitlen_bounds_rat[OF b]
    by (intro frac_less) auto
  then have hi: "q < 2 powi (e + 1)"
    by (simp add: powi_two_div e_def algebra_simps)
  have "2 powi (bitlen a - 1) / 2 powi bitlen b \<le> q"
    unfolding q using a b bitlen_bounds_rat[OF a] bitlen_bounds_rat[OF b]
    by (intro frac_le) auto
  then have lo: "2 powi (e - 1) \<le> q"
    by (simp add: powi_two_div e_def algebra_simps)
  have il: "ilog2 q = (if q < 2 powi e then e - 1 else e)"
    by (simp add: ilog2_def ab e_def Let_def)
  show "2 powi ilog2 q \<le> q" and "q < 2 powi (ilog2 q + 1)"
    using hi lo by (auto simp: il)
qed

lemma ilog2_unique:
  assumes "2 powi e \<le> q" and "q < 2 powi (e + 1)"
  shows "ilog2 q = e"
proof -
  have q: "0 < q" using assms(1) by (rule less_le_trans [OF powi_two_pos])
  have "(2::rat) powi ilog2 q < 2 powi (e + 1)" "(2::rat) powi e < 2 powi (ilog2 q + 1)"
    using ilog2_bounds[OF q] assms by linarith+
  then show ?thesis by simp
qed

lemma ilog2_mono: "0 < p \<Longrightarrow> p \<le> q \<Longrightarrow> ilog2 p \<le> ilog2 q"
proof -
  assume "0 < p" "p \<le> q"
  then have "(2::rat) powi ilog2 p < 2 powi (ilog2 q + 1)"
    using ilog2_bounds[of p] ilog2_bounds[of q] by linarith
  then show ?thesis by simp
qed

lemma fl_exp_minus [simp]: "fl_exp (- q) = fl_exp q"
  by (simp add: fl_exp_def)

lemma fl_exp_mono: "0 < p \<Longrightarrow> p \<le> q \<Longrightarrow> fl_exp p \<le> fl_exp q"
  using ilog2_mono[of p q] by (simp add: fl_exp_def)

subsection \<open>Rounding to an integer\<close>

lemma rhe_of_int [simp]: "rhe (of_int k) = k"
  by (simp add: rhe_def)

lemma rhe_0 [simp]: "rhe 0 = 0"
  using rhe_of_int[of 0] by simp

lemma rhe_error: "\<bar>of_int (rhe q) - q\<bar> \<le> 1/2"
proof -
  have "of_int \<lfloor>q\<rfloor> \<le> q" "q < of_int \<lfloor>q\<rfloor> + 1"
    by linarith+
  then show ?thesis by (auto simp: rhe_def Let_def)
qed

lemma rhe_mono: "p \<le> q \<Longrightarrow> rhe p \<le> rhe q"
proof -
  assume pq: "p \<le> q"
  show ?thesis
  proof (cases "\<lfloor>p\<rfloor> = \<lfloor>q\<rfloor>")
    case True
    with pq show ?thesis by (auto simp: rhe_def Let_def)
  next
    case False
    with pq have "\<lfloor>p\<rfloor> + 1 \<le> \<lfloor>q\<rfloor>"
      using floor_mono[OF pq] by linarith
    moreover have "rhe p \<le> \<lfloor>p\<rfloor> + 1" and "\<lfloor>q\<rfloor> \<le> rhe q"
      by (auto simp: rhe_def Let_def)
    ultimately show ?thesis by linarith
  qed
qed

lemma rhe_minus: "rhe (- q) = - rhe q"
proof (cases "q \<in> \<int>")
  case True
  then obtain k where "q = of_int k" by (auto elim: Ints_cases)
  then show ?thesis using rhe_of_int[of k] rhe_of_int[of "- k"] by simp
next
  case False
  then have "\<lfloor>- q\<rfloor> = - \<lfloor>q\<rfloor> - 1"
    using floor_minus[of q] ceiling_altdef[of q] by (auto simp: Ints_def)
  then show ?thesis by (auto simp: rhe_def Let_def)
qed

lemma rhe_half: "0 \<le> q \<Longrightarrow> q \<le> 1/2 \<Longrightarrow> rhe q = 0"
proof -
  assume "0 \<le> q" "q \<le> 1/2"
  then have "\<lfloor>q\<rfloor> = 0" by linarith
  with \<open>q \<le> 1/2\<close> show ?thesis by (auto simp: rhe_def Let_def)
qed

subsection \<open>What rounding does to a number\<close>

lemma fl_0 [simp, js_num]: "fl 0 = 0"
  by (simp add: fl_def)

lemma fl_eq: "fl q = of_int (rhe (q / 2 powi fl_exp q)) * 2 powi fl_exp q"
  by (cases "q = 0") (simp_all add: fl_def)

lemma fl_minus [simp]: "fl (- q) = - fl q"
proof -
  have "rhe (- q / 2 powi fl_exp q) = - rhe (q / 2 powi fl_exp q)"
    using rhe_minus[of "q / 2 powi fl_exp q"] by simp
  then show ?thesis by (simp add: fl_eq)
qed

lemma fl_exact:
  assumes "q = of_int k * 2 powi fl_exp q"
  shows "fl q = q"
proof -
  have "q / 2 powi fl_exp q = of_int k"
    using assms by (metis nonzero_mult_div_cancel_right powi_two_neq_0)
  then show ?thesis using assms by (simp add: fl_eq)
qed

text \<open>A multiple of \<open>2^e\<close> with an exponent no smaller than the unit in the last place is exact.\<close>

lemma fl_multiple:
  assumes "q = of_int m * 2 powi e" and "fl_exp q \<le> e"
  shows "fl q = q"
proof (rule fl_exact)
  have "of_int (m * 2 ^ nat (e - fl_exp q)) * (2::rat) powi fl_exp q
      = of_int m * (2 powi (e - fl_exp q) * 2 powi fl_exp q)"
    using assms(2) by (simp add: powi_two_nonneg)
  also have "\<dots> = q"
    using assms(1) by (simp add: powi_two_mult)
  finally show "q = of_int (m * 2 ^ nat (e - fl_exp q)) * 2 powi fl_exp q" ..
qed

lemma ilog2_less:
  assumes "0 < q" and "q < 2 powi e"
  shows "ilog2 q < e"
  using ilog2_bounds(1)[OF assms(1)] assms(2) by (meson le_less_trans powi_two_less_iff)

lemma ilog2_ge:
  assumes "2 powi e \<le> q"
  shows "e \<le> ilog2 q"
proof -
  have "0 < q" using assms by (rule less_le_trans [OF powi_two_pos])
  then have "2 powi e < (2::rat) powi (ilog2 q + 1)"
    using ilog2_bounds(2) assms by (meson le_less_trans)
  then show ?thesis by simp
qed

lemma fl_representable:
  assumes q: "q = of_int m * 2 powi e" and m: "\<bar>m\<bar> < 2 ^ 53" and e: "- 1074 \<le> e"
  shows "fl q = q"
proof (cases "m = 0")
  case True
  with q show ?thesis by simp
next
  case False
  have "(of_int \<bar>m\<bar> :: rat) < of_int (2 ^ 53)"
    using m by (simp only: of_int_less_iff)
  then have "\<bar>of_int m :: rat\<bar> < 2 powi 53"
    by simp
  then have "\<bar>q\<bar> < 2 powi 53 * 2 powi e"
    unfolding q abs_mult by simp
  then have "\<bar>q\<bar> < 2 powi (53 + e)"
    by (simp only: powi_two_mult)
  then have "ilog2 \<bar>q\<bar> < 53 + e"
    using False q by (intro ilog2_less) simp_all
  then have "fl_exp q \<le> e"
    using e by (simp add: fl_exp_def)
  with q show ?thesis by (rule fl_multiple)
qed

lemma fl_of_int [js_num]:
  assumes "\<bar>k\<bar> \<le> 2 ^ 53"
  shows "fl (of_int k) = of_int k"
proof (cases "\<bar>k\<bar> = 2 ^ 53")
  case True
  then have "(of_int k :: rat) = of_int (sgn k) * 2 powi 53"
    by (cases "0 \<le> k") auto
  then show ?thesis
    by (rule fl_representable) (simp_all add: sgn_if)
next
  case False
  with assms have "\<bar>k\<bar> < 2 ^ 53" by simp
  then show ?thesis by (intro fl_representable[where m = k and e = 0]) simp_all
qed

lemma fl_numeral [simp, js_num]:
  "numeral n \<le> (9007199254740992::int) \<Longrightarrow> fl (numeral n) = numeral n"
  using fl_of_int[of "numeral n"] by simp

lemma fl_1 [simp, js_num]: "fl 1 = 1"
  using fl_of_int[of 1] by simp

lemma fl_powi [js_num]: "- 1074 \<le> e \<Longrightarrow> fl (2 powi e) = 2 powi e"
  by (rule fl_representable[where m = 1 and e = e]) simp_all

lemma fl_power2 [simp, js_num]: "fl (2 ^ k) = 2 ^ k"
  using fl_powi[of "int k"] by simp

lemma fl_nonneg: "0 \<le> q \<Longrightarrow> 0 \<le> fl q"
proof -
  assume "0 \<le> q"
  then have "rhe 0 \<le> rhe (q / 2 powi fl_exp q)"
    by (intro rhe_mono) simp
  then show ?thesis by (simp add: fl_eq)
qed

lemma fl_nonpos: "q \<le> 0 \<Longrightarrow> fl q \<le> 0"
  using fl_nonneg[of "- q"] by simp

text \<open>\<open>2^e\<close> bounds the rounding of everything below it, when it is a multiple of the unit.\<close>

lemma fl_le_powi:
  assumes "q \<le> 2 powi e" and "fl_exp q \<le> e"
  shows "fl q \<le> 2 powi e"
proof -
  have p: "(2::rat) powi (e - fl_exp q) = of_int (2 ^ nat (e - fl_exp q))"
    using assms(2) by (intro powi_two_nonneg) simp
  have "q / 2 powi fl_exp q \<le> 2 powi e / 2 powi fl_exp q"
    using assms(1) by (intro divide_right_mono) simp_all
  then have "rhe (q / 2 powi fl_exp q) \<le> 2 ^ nat (e - fl_exp q)"
    using rhe_mono[of "q / 2 powi fl_exp q" "of_int (2 ^ nat (e - fl_exp q))"]
    by (simp only: powi_two_div p rhe_of_int)
  then have "of_int (rhe (q / 2 powi fl_exp q)) \<le> (2::rat) powi (e - fl_exp q)"
    by (simp only: p of_int_le_iff)
  then have "fl q \<le> 2 powi (e - fl_exp q) * 2 powi fl_exp q"
    unfolding fl_eq by (intro mult_right_mono) simp_all
  then show ?thesis by (simp add: powi_two_mult)
qed

lemma fl_ge_powi:
  assumes "2 powi e \<le> q" and "fl_exp q \<le> e"
  shows "2 powi e \<le> fl q"
proof -
  have p: "(2::rat) powi (e - fl_exp q) = of_int (2 ^ nat (e - fl_exp q))"
    using assms(2) by (intro powi_two_nonneg) simp
  have "2 powi e / 2 powi fl_exp q \<le> q / 2 powi fl_exp q"
    using assms(1) by (intro divide_right_mono) simp_all
  then have "2 ^ nat (e - fl_exp q) \<le> rhe (q / 2 powi fl_exp q)"
    using rhe_mono[of "of_int (2 ^ nat (e - fl_exp q))" "q / 2 powi fl_exp q"]
    by (simp only: powi_two_div p rhe_of_int)
  then have "(2::rat) powi (e - fl_exp q) \<le> of_int (rhe (q / 2 powi fl_exp q))"
    by (simp only: p of_int_le_iff)
  then have "2 powi (e - fl_exp q) * 2 powi fl_exp q \<le> fl q"
    unfolding fl_eq by (intro mult_right_mono) simp_all
  then show ?thesis by (simp add: powi_two_mult)
qed

lemma fl_mono_pos:
  assumes p: "0 < p" and pq: "p \<le> q"
  shows "fl p \<le> fl q"
proof (cases "fl_exp p = fl_exp q")
  case True
  have "rhe (p / 2 powi fl_exp q) \<le> rhe (q / 2 powi fl_exp q)"
    using pq by (intro rhe_mono divide_right_mono) simp_all
  then show ?thesis unfolding fl_eq True by (intro mult_right_mono) simp_all
next
  case False
  have q: "0 < q" using p pq by simp
  have lt: "fl_exp p < fl_exp q"
    using False fl_exp_mono[OF p pq] by simp
  then have e: "fl_exp q = ilog2 q - 52" and l: "ilog2 p < ilog2 q"
    using p q by (auto simp: fl_exp_def max_def split: if_splits)
  have "p < 2 powi (ilog2 p + 1)" by (rule ilog2_bounds(2)[OF p])
  also have "\<dots> \<le> 2 powi ilog2 q" using l by simp
  finally have "fl p \<le> 2 powi ilog2 q"
    using lt e by (intro fl_le_powi) simp_all
  also have "\<dots> \<le> fl q"
    using ilog2_bounds(1)[OF q] e by (intro fl_ge_powi) simp_all
  finally show ?thesis .
qed

theorem fl_mono: "p \<le> q \<Longrightarrow> fl p \<le> fl q"
proof -
  assume pq: "p \<le> q"
  consider "0 < p" | "p \<le> 0" "0 \<le> q" | "q < 0" by linarith
  then show ?thesis
  proof cases
    case 1
    then show ?thesis using pq by (rule fl_mono_pos)
  next
    case 2
    then show ?thesis using fl_nonpos fl_nonneg order_trans by blast
  next
    case 3
    then have "fl (- q) \<le> fl (- p)" using pq by (intro fl_mono_pos) simp_all
    then show ?thesis by simp
  qed
qed

lemma fl_le_int: "\<bar>k\<bar> \<le> 2 ^ 53 \<Longrightarrow> q \<le> of_int k \<Longrightarrow> fl q \<le> of_int k"
  using fl_mono[of q "of_int k"] by (simp add: fl_of_int)

lemma fl_ge_int: "\<bar>k\<bar> \<le> 2 ^ 53 \<Longrightarrow> of_int k \<le> q \<Longrightarrow> of_int k \<le> fl q"
  using fl_mono[of "of_int k" q] by (simp add: fl_of_int)

text \<open>Halving a positive number gets closer to 0, and reaches it: \<open>2^-1074 / 2\<close> is 0.\<close>

lemma fl_less_double:
  assumes "0 < q"
  shows "fl q < 2 * q"
proof -
  define r where "r = q / 2 powi fl_exp q"
  have r: "0 < r" and q: "q = r * 2 powi fl_exp q"
    using assms by (simp_all add: r_def)
  have "of_int (rhe r) < 2 * r"
  proof (cases "r \<le> 1/2")
    case True
    with r show ?thesis using rhe_half[of r] by simp
  next
    case False
    then show ?thesis using rhe_error[of r] by linarith
  qed
  then have "of_int (rhe r) * 2 powi fl_exp q < (2 * r) * 2 powi fl_exp q"
    by (rule mult_strict_right_mono) (rule powi_two_pos)
  moreover have "fl q = of_int (rhe r) * 2 powi fl_exp q"
    unfolding r_def by (rule fl_eq)
  ultimately show ?thesis
    by (metis q mult.assoc)
qed

lemma fl_ulp_multiple: "\<exists>m. fl q = of_int m * 2 powi (- 1074)"
proof -
  have "0 \<le> fl_exp q + 1074"
    by (simp add: fl_exp_def)
  then have "fl_exp q = nat (fl_exp q + 1074) + (- 1074)"
    by simp
  then have "(2::rat) powi fl_exp q = of_int (2 ^ nat (fl_exp q + 1074)) * 2 powi (- 1074)"
    by (metis powi_two_mult power_int_of_nat of_int_numeral of_int_power)
  then have "fl q = of_int (rhe (q / 2 powi fl_exp q) * 2 ^ nat (fl_exp q + 1074)) * 2 powi (- 1074)"
    by (simp add: fl_eq)
  then show ?thesis by blast
qed

lemma fl_half_decreases:
  assumes "0 < s"
  shows "nat \<lceil>fl (s / 2) * 2 powi 1074\<rceil> < nat \<lceil>s * 2 powi 1074\<rceil>"
proof -
  obtain m where m: "fl (s / 2) = of_int m * 2 powi (- 1074)"
    using fl_ulp_multiple by blast
  have "fl (s / 2) < s"
    using fl_less_double[of "s / 2"] assms by simp
  then have "fl (s / 2) * 2 powi 1074 < s * 2 powi 1074"
    by (intro mult_strict_right_mono) simp_all
  moreover have fm: "fl (s / 2) * 2 powi 1074 = of_int m"
    by (simp add: m mult.assoc powi_two_mult)
  ultimately have "of_int m < s * 2 powi 1074" by (simp only:)
  then have "m < \<lceil>s * 2 powi 1074\<rceil>"
    by (simp only: less_ceiling_iff)
  moreover have "0 < \<lceil>s * 2 powi 1074\<rceil>"
    using assms by (simp only: zero_less_ceiling) (rule mult_pos_pos, simp_all)
  ultimately show ?thesis by (simp only: fm ceiling_of_int nat_mono_iff)
qed

subsection \<open>Idempotence, integers and the size of the error\<close>

lemma fl_exp_fl:
  assumes "fl q \<noteq> 0"
  shows "fl_exp q \<le> fl_exp (fl q)"
proof -
  have q: "q \<noteq> 0" using assms by auto
  have a: "\<bar>fl q\<bar> = fl \<bar>q\<bar>"
    using fl_nonneg[of q] fl_nonpos[of q] by (cases "0 \<le> q") (auto simp: abs_if)
  show ?thesis
  proof (cases "fl_exp q = - 1074")
    case True
    then show ?thesis by (simp add: fl_exp_def)
  next
    case False
    then have e: "fl_exp q = ilog2 \<bar>q\<bar> - 52"
      by (auto simp: fl_exp_def max_def split: if_splits)
    have "2 powi ilog2 \<bar>q\<bar> \<le> fl \<bar>q\<bar>"
      using ilog2_bounds(1)[of "\<bar>q\<bar>"] q e by (intro fl_ge_powi) (simp_all add: fl_exp_def)
    then have "ilog2 \<bar>q\<bar> \<le> ilog2 \<bar>fl q\<bar>"
      unfolding a by (rule ilog2_ge)
    then show ?thesis using e by (simp add: fl_exp_def)
  qed
qed

theorem fl_idem [simp, js_num]: "fl (fl q) = fl q"
proof (cases "fl q = 0")
  case True
  then show ?thesis by simp
next
  case False
  show ?thesis
  proof (cases "fl_exp q = fl_exp (fl q)")
    case True
    have "fl q = of_int (rhe (q / 2 powi fl_exp q)) * 2 powi fl_exp (fl q)"
      unfolding True[symmetric] by (rule fl_eq)
    then show ?thesis by (rule fl_exact)
  next
    case lt: False
    have "- 1074 < fl_exp (fl q)"
      using lt fl_exp_fl[OF False] by (simp add: fl_exp_def)
    then have ee: "fl_exp (fl q) = ilog2 \<bar>fl q\<bar> - 52"
      by (auto simp: fl_exp_def max_def split: if_splits)
    have a: "\<bar>fl q\<bar> = fl \<bar>q\<bar>" and q: "q \<noteq> 0"
      using False fl_nonneg[of q] fl_nonpos[of q] by (cases "0 \<le> q"; auto simp: abs_if)+
    have "ilog2 \<bar>q\<bar> - 52 \<le> fl_exp q"
      by (simp add: fl_exp_def)
    then have l: "ilog2 \<bar>q\<bar> < ilog2 \<bar>fl q\<bar>"
      using ee lt fl_exp_fl[OF False] by linarith
    define E where "E = max (ilog2 \<bar>q\<bar> + 1) (fl_exp q)"
    have "\<bar>q\<bar> < 2 powi (ilog2 \<bar>q\<bar> + 1)"
      using q by (intro ilog2_bounds(2)) simp
    also have "\<dots> \<le> 2 powi E" by (simp add: E_def)
    finally have "fl \<bar>q\<bar> \<le> 2 powi E"
      by (intro fl_le_powi) (simp_all add: E_def fl_exp_def)
    moreover have "2 powi ilog2 \<bar>fl q\<bar> \<le> \<bar>fl q\<bar>"
      using False by (intro ilog2_bounds(1)) simp
    moreover have "(2::rat) powi E \<le> 2 powi ilog2 \<bar>fl q\<bar>"
      using l ee lt fl_exp_fl[OF False] by (simp only: powi_two_le_iff E_def)
    ultimately have eq: "\<bar>fl q\<bar> = 2 powi ilog2 \<bar>fl q\<bar>"
      unfolding a by linarith
    then have "fl q = of_int (if fl q < 0 then - 1 else 1) * 2 powi ilog2 \<bar>fl q\<bar>"
      by (simp add: abs_if split: if_splits)
    then show ?thesis
      by (rule fl_multiple) (simp add: ee)
  qed
qed

definition fli :: "int \<Rightarrow> int" where
  "fli k = \<lfloor>fl (of_int k)\<rfloor>"

lemma fli_exact [simp, js_num]: "\<bar>k\<bar> \<le> 2 ^ 53 \<Longrightarrow> fli k = k"
  by (simp add: fli_def fl_of_int)

lemma of_int_fli: "of_int (fli k) = fl (of_int k)"
proof (cases "\<bar>k\<bar> \<le> 2 ^ 53")
  case True
  then show ?thesis by (simp add: fl_of_int)
next
  case False
  then have "(of_int (2 ^ 53) :: rat) \<le> of_int \<bar>k\<bar>"
    by (simp only: of_int_le_iff)
  then have "2 powi 53 \<le> \<bar>of_int k :: rat\<bar>" by simp
  then have "53 \<le> ilog2 \<bar>of_int k\<bar>" by (rule ilog2_ge)
  then have "0 \<le> fl_exp (of_int k)" by (simp add: fl_exp_def)
  then have "fl (of_int k)
      = of_int (rhe (of_int k / 2 powi fl_exp (of_int k)) * 2 ^ nat (fl_exp (of_int k)))"
    by (subst fl_eq) (simp add: powi_two_nonneg)
  then show ?thesis
    by (metis fli_def floor_of_int)
qed

lemma fli_mono: "a \<le> b \<Longrightarrow> fli a \<le> fli b"
  by (simp add: fli_def floor_mono fl_mono)

lemma fli_idem [simp]: "fli (fli k) = fli k"
  by (metis fli_def of_int_fli fl_idem)

text \<open>The sign of a difference survives rounding.\<close>

lemma fli_sign: "0 < fli x \<longleftrightarrow> 0 < x" "fli x < 0 \<longleftrightarrow> x < 0"
proof -
  have f: "fli 0 = 0" "fli 1 = 1" "fli (- 1) = - 1" by simp_all
  have "x \<le> 0 \<Longrightarrow> fli x \<le> fli 0" "1 \<le> x \<Longrightarrow> fli 1 \<le> fli x" "0 \<le> x \<Longrightarrow> fli 0 \<le> fli x"
    "x \<le> - 1 \<Longrightarrow> fli x \<le> fli (- 1)"
    by (rule fli_mono, assumption)+
  with f show "0 < fli x \<longleftrightarrow> 0 < x" "fli x < 0 \<longleftrightarrow> x < 0" by linarith+
qed

lemma fl_diff: "fl (of_int a - of_int b) = of_int (fli (a - b))"
  by (simp add: of_int_fli)

lemma fl_diff_sign: "0 < fl (of_int a - of_int b) \<longleftrightarrow> b < a" "fl (of_int a - of_int b) < 0 \<longleftrightarrow> a < b"
  by (simp_all add: fl_diff fli_sign)

section \<open>Bit operations\<close>

text \<open>
  \<^verbatim>\<open>ToInt32\<close> truncates towards zero and keeps 32 bits, read in two's complement. The results
  of \<open>&\<close>, \<open>|\<close>, \<open>^\<close>, \<open><<\<close> and \<open>>>\<close> are again 32-bit signed numbers; \<open>>>> 0\<close> reads
  the same bits as an unsigned number.
\<close>

definition trunc_rat :: "rat \<Rightarrow> int" where
  "trunc_rat q = (if 0 \<le> q then \<lfloor>q\<rfloor> else \<lceil>q\<rceil>)"

definition to_i32 :: "int \<Rightarrow> int" where
  "to_i32 k = signed_take_bit 31 k"

definition to_u32 :: "int \<Rightarrow> int" where
  "to_u32 k = take_bit 32 k"

definition to_int32 :: "rat \<Rightarrow> int" where
  "to_int32 q = to_i32 (trunc_rat q)"

definition i32_shl :: "int \<Rightarrow> nat \<Rightarrow> int" where
  "i32_shl a n = to_i32 (push_bit n (to_i32 a))"

definition i32_shr :: "int \<Rightarrow> nat \<Rightarrow> int" where
  "i32_shr a n = drop_bit n (to_i32 a)"

definition i32_and :: "int \<Rightarrow> int \<Rightarrow> int" where
  "i32_and a b = to_i32 a AND to_i32 b"

definition i32_or :: "int \<Rightarrow> int \<Rightarrow> int" where
  "i32_or a b = to_i32 a OR to_i32 b"

definition i32_xor :: "int \<Rightarrow> int \<Rightarrow> int" where
  "i32_xor a b = to_i32 a XOR to_i32 b"

lemma to_i32_range: "- (2 ^ 31) \<le> to_i32 k" "to_i32 k < 2 ^ 31"
  unfolding to_i32_def
  by (rule signed_take_bit_int_greater_eq_minus_exp) (rule signed_take_bit_int_less_exp)

lemma to_i32_exact [simp, js_num]: "- (2 ^ 31) \<le> k \<Longrightarrow> k < 2 ^ 31 \<Longrightarrow> to_i32 k = k"
  by (simp add: to_i32_def signed_take_bit_int_eq_self)

lemma to_i32_power2 [simp]: "k < 31 \<Longrightarrow> to_i32 (2 ^ k) = 2 ^ k"
proof -
  assume "k < 31"
  then have "(2::int) ^ k < 2 ^ 31" by (intro power_strict_increasing) simp_all
  moreover have "- (2 ^ 31) \<le> (0::int)" "0 \<le> (2::int) ^ k" by simp_all
  ultimately show ?thesis by (intro to_i32_exact) linarith+
qed

lemma to_u32_exact [simp, js_num]: "0 \<le> k \<Longrightarrow> k < 2 ^ 32 \<Longrightarrow> to_u32 k = k"
  by (simp add: to_u32_def take_bit_int_eq_self)

lemma to_u32_range: "0 \<le> to_u32 k" "to_u32 k < 2 ^ 32"
  unfolding to_u32_def by (rule take_bit_nonnegative) (rule take_bit_int_less_exp)

lemma to_u32_to_i32 [simp]: "to_u32 (to_i32 k) = to_u32 k"
  by (simp add: to_u32_def to_i32_def take_bit_signed_take_bit)

lemma trunc_rat_of_int [simp, js_num]: "trunc_rat (of_int k) = k"
  by (simp add: trunc_rat_def)

lemma to_int32_of_int [simp, js_num]: "to_int32 (of_int k) = to_i32 k"
  by (simp add: to_int32_def)

lemma to_int32_power2 [simp]: "k < 31 \<Longrightarrow> to_int32 (2 ^ k) = 2 ^ k"
  using to_int32_of_int[of "2 ^ k"] by simp

lemma to_int32_fraction: "0 \<le> q \<Longrightarrow> q < 1 \<Longrightarrow> to_int32 q = 0"
proof -
  assume "0 \<le> q" "q < 1"
  then have "\<lfloor>q\<rfloor> = 0" by linarith
  with \<open>0 \<le> q\<close> show ?thesis by (simp add: to_int32_def trunc_rat_def)
qed

text \<open>Masking a single bit.\<close>

lemma and_power2_pos:
  fixes x :: int
  assumes "k < 31"
  shows "0 < to_i32 x AND 2 ^ k \<longleftrightarrow> x div 2 ^ k mod 2 = 1"
proof -
  have "0 \<le> to_i32 x AND 2 ^ k" by simp
  then have "0 < to_i32 x AND 2 ^ k \<longleftrightarrow> to_i32 x AND 2 ^ k \<noteq> 0" by linarith
  also have "\<dots> \<longleftrightarrow> bit x k"
    using assms by (simp add: and_exp_eq_0_iff_not_bit to_i32_def bit_signed_take_bit_iff)
  also have "\<dots> \<longleftrightarrow> x div 2 ^ k mod 2 = 1"
    by (simp add: bit_iff_odd odd_iff_mod_2_eq_one)
  finally show ?thesis .
qed

lemma even_to_i32 [simp]: "even (to_i32 x) \<longleftrightarrow> even x"
  by (simp add: to_i32_def even_signed_take_bit_iff)

lemma one_and_i32: "1 AND to_i32 x = x mod 2"
  by (simp add: one_and_eq mod_2_eq_odd)

lemma one_and_xor_i32:
  assumes "b = 0 \<or> b = 1"
  shows "1 AND (to_i32 x XOR b) = (x + b) mod 2"
  using assms by (auto simp: one_and_eq mod_2_eq_odd even_xor_iff)

end
