(* ===== verification/Js_Text.thy ===== *)
theory Js_Text
  imports Js_Number
begin

text \<open>
  JavaScript's numbers as text: \<^verbatim>\<open>Number::toString\<close> with the shortest digits that round to the
  number. A string is the list of its UTF-8 bytes as characters.
\<close>

section \<open>Decimal digits\<close>

function dec_digits :: "int \<Rightarrow> string" where
  "dec_digits n = (if n < 10 then [char_of (48 + n)] else dec_digits (n div 10) @ [char_of (48 + n mod 10)])"
  by auto
termination by (relation "measure nat") auto

declare dec_digits.simps [simp del]

definition digit_value :: "char \<Rightarrow> int" where
  "digit_value c = of_char c - 48"

definition is_digit :: "char \<Rightarrow> bool" where
  "is_digit c \<longleftrightarrow> 0 \<le> digit_value c \<and> digit_value c \<le> 9"

definition digits_value :: "string \<Rightarrow> int" where
  "digits_value s = foldl (\<lambda>a c. 10 * a + digit_value c) 0 s"

lemma digits_value_append: "digits_value (s @ [c]) = 10 * digits_value s + digit_value c"
  by (simp add: digits_value_def)

lemma digit_char: "0 \<le> d \<Longrightarrow> d < 10 \<Longrightarrow> digit_value (char_of (48 + d)) = d \<and> is_digit (char_of (48 + d))"
  by (simp add: digit_value_def is_digit_def take_bit_eq_mod)

lemma dec_digits_value:
  "0 \<le> n \<Longrightarrow> digits_value (dec_digits n) = n \<and> list_all is_digit (dec_digits n) \<and> dec_digits n \<noteq> []"
proof (induction n rule: dec_digits.induct)
  case (1 n)
  show ?case
  proof (cases "n < 10")
    case True
    with 1(2) show ?thesis by (simp add: dec_digits.simps[of n] digits_value_def digit_char)
  next
    case False
    with 1 have "digits_value (dec_digits (n div 10)) = n div 10 \<and> list_all is_digit (dec_digits (n div 10))"
      by simp
    with False show ?thesis
      by (simp add: dec_digits.simps[of n] digits_value_append digit_char)
  qed
qed

lemma digits_value_zeros: "digits_value (s @ replicate k (CHR ''0'')) = digits_value s * 10 ^ k"
proof (induction k)
  case (Suc k)
  have "digits_value (s @ replicate (Suc k) (CHR ''0'')) = digits_value ((s @ replicate k (CHR ''0'')) @ [CHR ''0''])"
    by (simp add: replicate_append_same)
  also have "\<dots> = digits_value s * 10 ^ Suc k"
    unfolding digits_value_append Suc by (simp add: digit_value_def)
  finally show ?case .
qed simp

lemma length_dec_digits:
  assumes "10 ^ k \<le> n" "n < 10 ^ Suc k"
  shows "length (dec_digits n) = Suc k"
  using assms
proof (induction k arbitrary: n)
  case 0
  then show ?case by (simp add: dec_digits.simps)
next
  case (Suc k)
  have "10 ^ k \<le> n div 10" "n div 10 < 10 ^ Suc k"
    using Suc.prems zdiv_mono1[of "10 * 10 ^ k" n 10] zdiv_mono1[of n "10 * 10 ^ Suc k - 1" 10]
    by simp_all
  note len = Suc.IH[OF this]
  have "(1::int) \<le> 10 ^ k" by simp
  with Suc.prems(1) have "\<not> n < 10" unfolding power_Suc by linarith
  with len show ?case by (subst dec_digits.simps) simp
qed

section \<open>Number::toString\<close>

text \<open>The number of decimal digits of a positive integer.\<close>

function digit_count :: "int \<Rightarrow> int" where
  "digit_count n = (if n \<le> 0 then 0 else digit_count (n div 10) + 1)"
  by auto
termination by (relation "measure nat") auto

declare digit_count.simps [simp del]

text \<open>The exponent \<open>n\<close> with \<open>10 ^ (n - 1) \<le> x < 10 ^ n\<close>.\<close>

definition dec_exp :: "rat \<Rightarrow> int" where
  "dec_exp x = (if 1 \<le> x then digit_count \<lfloor>x\<rfloor> else 1 - digit_count (\<lceil>1 / x\<rceil> - 1))"

text \<open>
  The digits \<open>s\<close> with \<open>k\<close> places and their exponent \<open>e\<close>, when \<open>s * 10 ^ e\<close> rounds to the
  number; the closest of the two candidates, the even one of two equally close.
\<close>

definition candidate :: "int \<Rightarrow> rat \<Rightarrow> (int \<times> int) option" where
  "candidate k x =
     (let e = dec_exp x - k; q = x / 10 powi e; lo = \<lfloor>q\<rfloor>; hi = \<lceil>q\<rceil>;
          lo_ok = (fl (of_int lo * 10 powi e) = x); hi_ok = (fl (of_int hi * 10 powi e) = x)
      in if lo_ok \<and> hi_ok then
           Some (if q - of_int lo < of_int hi - q then lo
                 else if of_int hi - q < q - of_int lo then hi
                 else if even lo then lo else hi, e)
         else if lo_ok then Some (lo, e)
         else if hi_ok then Some (hi, e)
         else None)"

text \<open>
  The first number of places that gives the number back. A double needs at most 17; the limit
  (enough places for every double to be written exactly) is only there to end the recursion.
\<close>

function shortest_from :: "int \<Rightarrow> rat \<Rightarrow> int \<times> int" where
  "shortest_from k x =
     (case candidate k x of
        Some r \<Rightarrow> r
      | None \<Rightarrow> if k < 3000 then shortest_from (k + 1) x else (\<lfloor>x / 10 powi (dec_exp x - k)\<rfloor>, dec_exp x - k))"
  by auto
termination by (relation "measure (\<lambda>(k, x). nat (3000 - k))") auto

declare shortest_from.simps [simp del]

text \<open>A candidate rounded up to the next power of ten is written with one digit.\<close>

definition shortest :: "rat \<Rightarrow> int \<times> int" where
  "shortest x = (case shortest_from 1 x of (s, e) \<Rightarrow> if s = 10 then (1, e + 1) else (s, e))"

definition exponent_text :: "int \<Rightarrow> string" where
  "exponent_text e = ''e'' @ (if e < 0 then ''-'' else ''+'') @ dec_digits \<bar>e\<bar>"

definition num_layout :: "string \<Rightarrow> int \<Rightarrow> string" where
  "num_layout ds e =
     (let k = int (length ds); n = e + k in
      if k \<le> n \<and> n \<le> 21 then ds @ replicate (nat (n - k)) (CHR ''0'')
      else if 0 < n \<and> n \<le> 21 then take (nat n) ds @ ''.'' @ drop (nat n) ds
      else if - 6 < n \<and> n \<le> 0 then ''0.'' @ replicate (nat (- n)) (CHR ''0'') @ ds
      else if k = 1 then ds @ exponent_text (n - 1)
      else take 1 ds @ ''.'' @ drop 1 ds @ exponent_text (n - 1))"

definition num_text :: "rat \<Rightarrow> string" where
  "num_text x =
     (if x = 0 then ''0''
      else if x < 0 then ''-'' @ (case shortest (- x) of (s, e) \<Rightarrow> num_layout (dec_digits s) e)
      else (case shortest x of (s, e) \<Rightarrow> num_layout (dec_digits s) e))"

text \<open>Some texts that every engine prints.\<close>

lemma num_text_examples:
  "num_text 12 = ''12''" "num_text 1000 = ''1000''" "num_text (- 5 / 2) = ''-2.5''"
  "num_text (fl (1 / 10)) = ''0.1''" "num_text (fl (10 ^ 23)) = ''1e+23''" "num_text (fl (3 / 10 ^ 8)) = ''3e-8''"
  by code_simp+

section \<open>Integers below \<open>10^21\<close>\<close>

text \<open>They are written without exponent, and read back as decimal digits they round to the number.\<close>

lemma digit_count_pos: "0 < n \<Longrightarrow> digit_count n = digit_count (n div 10) + 1"
  by (subst digit_count.simps) simp

lemma digit_count_nonneg: "0 \<le> digit_count n"
proof (induction n rule: digit_count.induct)
  case (1 n)
  then show ?case by (subst digit_count.simps) simp
qed

lemma digit_count_bounds:
  "0 < n \<Longrightarrow> 1 \<le> digit_count n \<and> 10 ^ nat (digit_count n - 1) \<le> n \<and> n < 10 ^ nat (digit_count n)"
proof (induction n rule: digit_count.induct)
  case (1 n)
  show ?case
  proof (cases "n < 10")
    case True
    with 1(2) have "n div 10 = 0" by simp
    with 1(2) True show ?thesis by (simp add: digit_count_pos digit_count.simps[of 0])
  next
    case False
    define d where "d = digit_count (n div 10)"
    have ih: "1 \<le> d" "10 ^ nat (d - 1) \<le> n div 10" "n div 10 < 10 ^ nat d"
      using 1 False by (simp_all add: d_def pos_imp_zdiv_pos_iff)
    have d: "nat (d + 1 - 1) = Suc (nat (d - 1))" "nat (d + 1) = Suc (nat d)" using ih(1) by simp_all
    have n: "n = 10 * (n div 10) + n mod 10" "0 \<le> n mod 10" "n mod 10 < 10" by simp_all
    have "10 ^ Suc (nat (d - 1)) \<le> n" using ih(2) n unfolding power_Suc by linarith
    moreover have "n < 10 ^ Suc (nat d)" using ih(3) n unfolding power_Suc by linarith
    ultimately show ?thesis
      using 1(2) ih(1) unfolding digit_count_pos[OF 1(2)] d_def[symmetric] d by simp
  qed
qed

lemma dec_exp_int:
  assumes "0 < i"
  shows "dec_exp (of_int i) = digit_count i"
  using assms by (simp add: dec_exp_def)

lemma candidate_value:
  assumes "candidate k x = Some (s, e)"
  shows "fl (of_int s * 10 powi e) = x \<and> e = dec_exp x - k \<and> (s = \<lfloor>x / 10 powi e\<rfloor> \<or> s = \<lceil>x / 10 powi e\<rceil>)"
  using assms unfolding candidate_def Let_def by (auto split: if_splits)

lemma candidate_exact:
  assumes "fl (of_int i) = of_int i" "dec_exp (of_int i) = k"
  shows "candidate k (of_int i) = Some (i, 0)"
  using assms by (simp add: candidate_def)

lemma shortest_from_int:
  assumes "fl (of_int i) = of_int i" "k \<le> dec_exp (of_int i)" "dec_exp (of_int i) \<le> 1000"
  shows "\<exists>k' s. k \<le> k' \<and> k' \<le> dec_exp (of_int i) \<and> shortest_from k (of_int i) = (s, dec_exp (of_int i) - k')
    \<and> candidate k' (of_int i) = Some (s, dec_exp (of_int i) - k')"
  using assms(2)
proof (induction "nat (dec_exp (of_int i) - k)" arbitrary: k)
  case 0
  then have "k = dec_exp (of_int i)" by simp
  with candidate_exact[OF assms(1), of k] show ?case
    by (subst shortest_from.simps) simp
next
  case (Suc d)
  show ?case
  proof (cases "candidate k (of_int i)")
    case None
    have "k + 1 \<le> dec_exp (of_int i)" "d = nat (dec_exp (of_int i) - (k + 1))" using Suc(2) by simp_all
    from Suc(1)[OF this(2,1)] None assms(3) Suc(3) show ?thesis
      by (subst shortest_from.simps) force
  next
    case (Some r)
    then show ?thesis
      using candidate_value[of k "of_int i"] Suc(3) by (cases r) (subst shortest_from.simps, auto)
  qed
qed

lemma fl_power10: "k \<le> 22 \<Longrightarrow> fl (10 ^ k) = 10 ^ k"
proof -
  assume k: "k \<le> 22"
  have "(5::int) ^ k \<le> 5 ^ 22" using k by (intro power_increasing) simp_all
  then have "(5::int) ^ k < 2 ^ 53" by simp
  moreover have "(10::rat) ^ k = of_int (5 ^ k) * 2 powi int k"
    by (simp add: power_mult_distrib [symmetric])
  ultimately show ?thesis
    by (intro fl_representable[where m = "5 ^ k" and e = "int k"]) simp_all
qed

text \<open>The digits a shortest form of \<open>k\<close> digits can have.\<close>

lemma candidate_digits:
  assumes "candidate k (of_int i) = Some (s, int e)" and "10 ^ e \<le> i" and "i < 10 ^ (k' + e)" and "k' + e \<le> 22"
  shows "1 \<le> s" and "s < 10 ^ k'"
proof -
  note v = candidate_value[OF assms(1), simplified]
  define q where "q = (of_int i / 10 ^ e :: rat)"
  have p: "(10::rat) ^ e > 0" by simp
  have "(of_int (10 ^ e) :: rat) \<le> of_int i" using assms(2) by (simp only: of_int_le_iff)
  then have q1: "1 \<le> q" using p by (simp add: q_def)
  have "(of_int i :: rat) \<le> of_int (10 ^ (k' + e))" using assms(3) by (simp only: of_int_le_iff less_imp_le)
  then have qk: "q \<le> of_int (10 ^ k')" using p by (simp add: q_def power_add field_simps)
  have "\<lfloor>q\<rfloor> \<le> \<lceil>q\<rceil>" "1 \<le> \<lfloor>q\<rfloor>" "\<lceil>q\<rceil> \<le> 10 ^ k'"
    using q1 qk by (simp_all add: floor_le_ceiling le_floor_iff ceiling_le_iff)
  moreover have "s = \<lfloor>q\<rfloor> \<or> s = \<lceil>q\<rceil>" using v by (simp add: q_def)
  ultimately have s: "1 \<le> s" "s \<le> 10 ^ k'" by linarith+
  have "s \<noteq> 10 ^ k'"
  proof
    assume s: "s = 10 ^ k'"
    have "fl (10 ^ (k' + e)) = of_int i" using v by (simp add: s power_add)
    then have "of_int (10 ^ (k' + e)) = (of_int i :: rat)" using assms(4) by (simp add: fl_power10)
    then have "10 ^ (k' + e) = i" by (simp only: of_int_eq_iff)
    with assms(3) show False by simp
  qed
  with s show "1 \<le> s" and "s < 10 ^ k'" by simp_all
qed

lemma shortest_int:
  assumes "fl (of_int i) = of_int i" "0 < i" "i < 10 ^ 21"
  obtains s e where "shortest (of_int i) = (s, int e)" "0 < s" "s * 10 ^ e < 10 ^ 21"
    "fl (of_int (s * 10 ^ e)) = of_int i"
proof -
  define n where "n = dec_exp (of_int i)"
  have n: "1 \<le> n" "10 ^ nat (n - 1) \<le> i" "i < 10 ^ nat n"
    using digit_count_bounds[OF assms(2)] by (simp_all add: n_def dec_exp_int assms(2))
  have "(10::int) ^ nat (n - 1) < 10 ^ 21" using n(2) assms(3) by linarith
  then have "nat (n - 1) < 21" by (rule power_less_imp_less_exp[rotated]) simp
  then have n21: "n \<le> 21" using n(1) by linarith
  from shortest_from_int[OF assms(1), of 1] n n21 obtain k s where
      k: "1 \<le> k" "k \<le> n" and r: "shortest_from 1 (of_int i) = (s, n - k)"
      and c: "candidate k (of_int i) = Some (s, n - k)"
    by (auto simp: n_def)
  define e where "e = nat (n - k)"
  have e: "n - k = int e" "nat n = nat k + e" using k by (simp_all add: e_def)
  have val: "fl (of_int (s * 10 ^ e)) = of_int i" using candidate_value[OF c, unfolded e(1), simplified] by simp
  have "(10::int) ^ e \<le> 10 ^ nat (n - 1)" using k by (intro power_increasing) (simp_all add: e_def)
  with n(2) have low: "10 ^ e \<le> i" by linarith
  have "nat k + e \<le> 22" using n21 e(2) by simp
  note s = candidate_digits[OF c[unfolded e(1)] low n(3)[unfolded e(2)] this]
  from s(2) have "s * 10 ^ e < 10 ^ nat k * 10 ^ e" by simp
  also have "\<dots> = 10 ^ nat n" by (simp add: e(2) power_add)
  also have "\<dots> \<le> (10::int) ^ 21" using n21 by (intro power_increasing) simp_all
  finally have small: "s * 10 ^ e < 10 ^ 21" .
  show thesis
  proof (cases "s = 10")
    case True
    with r e small val show thesis
      by (intro that[of 1 "e + 1"]) (simp_all add: shortest_def ac_simps)
  next
    case False
    with r e s(1) small val show thesis
      by (intro that[of s e]) (simp_all add: shortest_def)
  qed
qed

lemma num_text_int:
  assumes "fl (of_int i) = of_int i" "0 \<le> i" "i < 10 ^ 21"
  shows "list_all is_digit (num_text (of_int i)) \<and> fl (of_int (digits_value (num_text (of_int i)))) = of_int i"
proof (cases "i = 0")
  case True
  then show ?thesis by (simp add: num_text_def is_digit_def digit_value_def digits_value_def)
next
  case False
  with assms(2) have "0 < i" by simp
  from shortest_int[OF assms(1) this assms(3)] obtain s e where
    r: "shortest (of_int i) = (s, int e)" "0 < s" "s * 10 ^ e < 10 ^ 21" "fl (of_int (s * 10 ^ e)) = of_int i" .
  note d = dec_digits_value[of s]
  note c = digit_count_bounds[OF r(2)]
  have len: "length (dec_digits s) = nat (digit_count s)"
  proof -
    have "nat (digit_count s) = Suc (nat (digit_count s - 1))" using c by linarith
    with c length_dec_digits[of "nat (digit_count s - 1)" s] show ?thesis by (simp only:)
  qed
  have "(10::int) ^ (nat (digit_count s - 1) + e) \<le> s * 10 ^ e"
    using c by (simp add: power_add)
  with r(3) have "(10::int) ^ (nat (digit_count s - 1) + e) < 10 ^ 21" by linarith
  then have "nat (digit_count s - 1) + e < 21" by (rule power_less_imp_less_exp[rotated]) simp
  then have "int e + int (length (dec_digits s)) \<le> 21" using len c by simp
  then have t: "num_text (of_int i) = dec_digits s @ replicate e (CHR ''0'')"
    using \<open>0 < i\<close> by (simp add: num_text_def r(1) num_layout_def)
  have "is_digit (CHR ''0'')" by (simp add: is_digit_def digit_value_def)
  then have "list_all is_digit (replicate e (CHR ''0''))" by (induction e) simp_all
  moreover have "list_all is_digit (dec_digits s)" "digits_value (dec_digits s) = s" using d r(2) by simp_all
  ultimately show ?thesis
    by (simp only: t digits_value_zeros list_all_append r(4) simp_thms)
qed

lemma num_text_int_inj:
  assumes "fl (of_int i) = of_int i" "0 \<le> i" "i < 10 ^ 21" "fl (of_int j) = of_int j" "0 \<le> j" "j < 10 ^ 21"
    "num_text (of_int i) = num_text (of_int j)"
  shows "i = j"
proof -
  have "(of_int i :: rat) = of_int j"
    using num_text_int[OF assms(1-3), THEN conjunct2] num_text_int[OF assms(4-6), THEN conjunct2]
    unfolding assms(7) by (rule trans[OF sym])
  then show ?thesis by simp
qed

end
