(* ===== verification/Js_Value.thy ===== *)
theory Js_Value
  imports Js_Text
begin

text \<open>
  JavaScript values: numbers with NaN, the infinities and \<^verbatim>\<open>-0\<close>, their arithmetic and
  comparisons, and the values a JSON payload is made of. Conversions between numbers and strings are
  those of the language: \<^verbatim>\<open>String\<close>, \<^verbatim>\<open>Number\<close>, \<^verbatim>\<open>parseFloat\<close>,
  \<^verbatim>\<open>trim\<close>, and the case mappings, of which only the ASCII part is modelled.
\<close>

section \<open>Numbers\<close>

text \<open>\<open>Inf True\<close> is negative; \<open>Fin 0\<close> is \<^verbatim>\<open>+0\<close>.\<close>

datatype jsnum = NaN | Inf bool | Zero_neg | Fin rat

text \<open>The number closest to a value that is not 0: overflow gives an infinity, underflow a zero.\<close>

definition round_num :: "rat \<Rightarrow> jsnum" where
  "round_num q =
     (let r = fl q in
      if 2 ^ 1024 \<le> \<bar>r\<bar> then Inf (q < 0)
      else if r = 0 then (if q < 0 then Zero_neg else Fin 0)
      else Fin r)"

definition is_neg :: "jsnum \<Rightarrow> bool" where
  "is_neg a = (case a of NaN \<Rightarrow> False | Inf s \<Rightarrow> s | Zero_neg \<Rightarrow> True | Fin q \<Rightarrow> q < 0)"

definition finite_value :: "jsnum \<Rightarrow> rat option" where
  "finite_value a = (case a of Zero_neg \<Rightarrow> Some 0 | Fin q \<Rightarrow> Some q | _ \<Rightarrow> None)"

definition isFinite :: "jsnum \<Rightarrow> bool" where
  "isFinite a \<longleftrightarrow> finite_value a \<noteq> None"

definition signed_zero :: "bool \<Rightarrow> jsnum" where
  "signed_zero s = (if s then Zero_neg else Fin 0)"

definition jmul :: "jsnum \<Rightarrow> jsnum \<Rightarrow> jsnum" where
  "jmul a b =
     (if a = NaN \<or> b = NaN then NaN else
      let s = (is_neg a \<noteq> is_neg b) in
      case (finite_value a, finite_value b) of
        (Some p, Some q) \<Rightarrow> if p * q = 0 then signed_zero s else round_num (p * q)
      | (Some p, None) \<Rightarrow> if p = 0 then NaN else Inf s
      | (None, Some q) \<Rightarrow> if q = 0 then NaN else Inf s
      | (None, None) \<Rightarrow> Inf s)"

definition jdiv :: "jsnum \<Rightarrow> jsnum \<Rightarrow> jsnum" where
  "jdiv a b =
     (if a = NaN \<or> b = NaN then NaN else
      let s = (is_neg a \<noteq> is_neg b) in
      case (finite_value a, finite_value b) of
        (Some p, Some q) \<Rightarrow>
          if q = 0 then (if p = 0 then NaN else Inf s)
          else if p = 0 then signed_zero s else round_num (p / q)
      | (Some p, None) \<Rightarrow> signed_zero s
      | (None, Some q) \<Rightarrow> Inf s
      | (None, None) \<Rightarrow> NaN)"

definition jadd :: "jsnum \<Rightarrow> jsnum \<Rightarrow> jsnum" where
  "jadd a b =
     (if a = NaN \<or> b = NaN then NaN else
      case (finite_value a, finite_value b) of
        (Some p, Some q) \<Rightarrow>
          if p + q = 0 then signed_zero (a = Zero_neg \<and> b = Zero_neg) else round_num (p + q)
      | (Some p, None) \<Rightarrow> b
      | (None, Some q) \<Rightarrow> a
      | (None, None) \<Rightarrow> if a = b then a else NaN)"

definition jneg :: "jsnum \<Rightarrow> jsnum" where
  "jneg a = (case a of NaN \<Rightarrow> NaN | Inf s \<Rightarrow> Inf (\<not> s) | Zero_neg \<Rightarrow> Fin 0
     | Fin q \<Rightarrow> if q = 0 then Zero_neg else Fin (- q))"

definition jsub :: "jsnum \<Rightarrow> jsnum \<Rightarrow> jsnum" where
  "jsub a b = jadd a (jneg b)"

text \<open>Comparisons; every one that involves NaN is false.\<close>

definition jless :: "jsnum \<Rightarrow> jsnum \<Rightarrow> bool" where
  "jless a b =
     (if a = NaN \<or> b = NaN then False else
      case (finite_value a, finite_value b) of
        (Some p, Some q) \<Rightarrow> p < q
      | (Some p, None) \<Rightarrow> \<not> is_neg b
      | (None, Some q) \<Rightarrow> is_neg a
      | (None, None) \<Rightarrow> is_neg a \<and> \<not> is_neg b)"

definition jeq :: "jsnum \<Rightarrow> jsnum \<Rightarrow> bool" where
  "jeq a b \<longleftrightarrow> a \<noteq> NaN \<and> (a = b \<or> (finite_value a = Some 0 \<and> finite_value b = Some 0))"

definition jle :: "jsnum \<Rightarrow> jsnum \<Rightarrow> bool" where
  "jle a b \<longleftrightarrow> jless a b \<or> jeq a b"

text \<open>\<^verbatim>\<open>Math.floor\<close>, \<^verbatim>\<open>Math.round\<close>, \<^verbatim>\<open>Math.abs\<close>, \<^verbatim>\<open>Math.max\<close>, \<^verbatim>\<open>Math.min\<close> and \<open>%\<close>.\<close>

definition jfloor :: "jsnum \<Rightarrow> jsnum" where
  "jfloor a = (case a of Fin q \<Rightarrow> Fin (of_int \<lfloor>q\<rfloor>) | _ \<Rightarrow> a)"

definition jround :: "jsnum \<Rightarrow> jsnum" where
  "jround a = (case a of
     Fin q \<Rightarrow> if - 1 / 2 \<le> q \<and> q < 0 then Zero_neg else Fin (of_int \<lfloor>q + 1 / 2\<rfloor>)
   | _ \<Rightarrow> a)"

definition jabs :: "jsnum \<Rightarrow> jsnum" where
  "jabs a = (if is_neg a then jneg a else a)"

definition jmax :: "jsnum \<Rightarrow> jsnum \<Rightarrow> jsnum" where
  "jmax a b =
     (if a = NaN \<or> b = NaN then NaN
      else if a = Zero_neg \<and> b = Fin 0 then b
      else if jless a b then b else a)"

definition jmin :: "jsnum \<Rightarrow> jsnum \<Rightarrow> jsnum" where
  "jmin a b =
     (if a = NaN \<or> b = NaN then NaN
      else if a = Fin 0 \<and> b = Zero_neg then b
      else if jless b a then b else a)"

definition jmod :: "jsnum \<Rightarrow> jsnum \<Rightarrow> jsnum" where
  "jmod a b =
     (if a = NaN \<or> b = NaN then NaN else
      case (finite_value a, finite_value b) of
        (Some p, Some q) \<Rightarrow>
          if q = 0 then NaN
          else if p = 0 then a
          else let r = p - q * of_int (trunc_rat (p / q))
               in if r = 0 then signed_zero (is_neg a) else Fin r
      | (Some p, None) \<Rightarrow> a
      | _ \<Rightarrow> NaN)"

section \<open>Strings\<close>

text \<open>The length of the white space or line terminator a string starts with, in UTF-8.\<close>

definition code :: "char \<Rightarrow> int" where
  "code c = of_char c"

definition ws_len :: "string \<Rightarrow> nat" where
  "ws_len s = (case map code (take 3 s) of
     a # r \<Rightarrow>
       if a = 32 \<or> (9 \<le> a \<and> a \<le> 13) then 1
       else (case r of
         b # r' \<Rightarrow>
           if a = 194 \<and> b = 160 then 2
           else (case r' of
             [c] \<Rightarrow>
               if (a = 225 \<and> b = 154 \<and> c = 128)
                 \<or> (a = 226 \<and> b = 128 \<and> ((128 \<le> c \<and> c \<le> 138) \<or> c = 168 \<or> c = 169 \<or> c = 175))
                 \<or> (a = 226 \<and> b = 129 \<and> c = 159) \<or> (a = 227 \<and> b = 128 \<and> c = 128)
                 \<or> (a = 239 \<and> b = 187 \<and> c = 191)
               then 3 else 0
           | _ \<Rightarrow> 0)
       | [] \<Rightarrow> 0)
   | [] \<Rightarrow> 0)"

lemma ws_len_le: "ws_len s \<le> length s"
  by (cases s rule: remdups_adj.cases; cases "tl (tl s)")
    (auto simp: ws_len_def split: list.splits)

function trim_start :: "string \<Rightarrow> string" where
  "trim_start s = (if ws_len s = 0 then s else trim_start (drop (ws_len s) s))"
  by auto
termination
proof (relation "measure length")
  fix s assume "ws_len s \<noteq> 0"
  with ws_len_le[of s] show "(drop (ws_len s) s, s) \<in> measure length" by simp
qed simp

declare trim_start.simps [simp del]

text \<open>Whether the last 1, 2 or 3 bytes are one white space character.\<close>

definition ws_end :: "string \<Rightarrow> nat" where
  "ws_end s =
     (let n = length s in
      if n \<ge> 1 \<and> ws_len (drop (n - 1) s) = 1 then 1
      else if n \<ge> 2 \<and> ws_len (drop (n - 2) s) = 2 then 2
      else if n \<ge> 3 \<and> ws_len (drop (n - 3) s) = 3 then 3 else 0)"

function trim_end :: "string \<Rightarrow> string" where
  "trim_end s = (if ws_end s = 0 then s else trim_end (take (length s - ws_end s) s))"
  by auto
termination
proof (relation "measure length")
  fix s assume "ws_end s \<noteq> 0"
  then have "ws_end s \<le> length s" "0 < ws_end s" by (auto simp: ws_end_def Let_def split: if_splits)
  then show "(take (length s - ws_end s) s, s) \<in> measure length" by simp
qed simp

declare trim_end.simps [simp del]

definition trim_js :: "string \<Rightarrow> string" where
  "trim_js s = trim_end (trim_start s)"

text \<open>\<^verbatim>\<open>s.replace(/\\s+/g, '')\<close>.\<close>

function strip_ws :: "string \<Rightarrow> string" where
  "strip_ws [] = []"
| "strip_ws (c # s) = (if ws_len (c # s) = 0 then c # strip_ws s else strip_ws (drop (ws_len (c # s)) (c # s)))"
  by pat_completeness auto
termination
proof (relation "measure length")
  fix c s assume "ws_len (c # s) \<noteq> 0"
  with ws_len_le[of "c # s"] show "(drop (ws_len (c # s)) (c # s), c # s) \<in> measure length" by simp
qed simp_all

definition to_lower :: "string \<Rightarrow> string" where
  "to_lower = map (\<lambda>c. if 65 \<le> code c \<and> code c \<le> 90 then char_of (code c + 32) else c)"

definition to_upper :: "string \<Rightarrow> string" where
  "to_upper = map (\<lambda>c. if 97 \<le> code c \<and> code c \<le> 122 then char_of (code c - 32) else c)"

section \<open>Numbers from strings\<close>

definition starts_with :: "string \<Rightarrow> string \<Rightarrow> bool" where
  "starts_with p s \<longleftrightarrow> take (length p) s = p"

text \<open>An exponent, when there is one; \<^verbatim>\<open>e\<close> without digits is not part of the number.\<close>

definition parse_exponent :: "string \<Rightarrow> int \<times> string" where
  "parse_exponent s = (case s of
     c # t \<Rightarrow>
       if c = CHR ''e'' \<or> c = CHR ''E'' then
         let (sign, u) = (case t of
               d # v \<Rightarrow> if d = CHR ''+'' then (1, v) else if d = CHR ''-'' then (- 1, v) else (1, t)
             | [] \<Rightarrow> (1, t));
             ds = takeWhile is_digit u
         in if ds = [] then (0, s) else (sign * digits_value ds, dropWhile is_digit u)
       else (0, s)
   | [] \<Rightarrow> (0, s))"

text \<open>The longest unsigned decimal literal at the start of a string, and what follows it.\<close>

definition parse_unsigned :: "string \<Rightarrow> (rat \<times> string) option" where
  "parse_unsigned s =
     (let ip = takeWhile is_digit s; r = dropWhile is_digit s;
          dot = (r \<noteq> [] \<and> hd r = CHR ''.'');
          fp = (if dot then takeWhile is_digit (tl r) else [])
      in if ip = [] \<and> fp = [] then None
         else
           let (e, rest) = parse_exponent (if dot then dropWhile is_digit (tl r) else r)
           in Some (of_int (digits_value (ip @ fp)) * 10 powi (e - int (length fp)), rest))"

definition num_of_literal :: "bool \<Rightarrow> rat \<Rightarrow> jsnum" where
  "num_of_literal neg q = (if q = 0 then signed_zero neg else round_num (if neg then - q else q))"

definition take_sign :: "string \<Rightarrow> bool \<times> string" where
  "take_sign s = (case s of
     c # t \<Rightarrow> if c = CHR ''-'' then (True, t) else if c = CHR ''+'' then (False, t) else (False, s)
   | [] \<Rightarrow> (False, s))"

definition parseFloat :: "string \<Rightarrow> jsnum" where
  "parseFloat str =
     (case take_sign (trim_start str) of (neg, s) \<Rightarrow>
      if starts_with ''Infinity'' s then Inf neg
      else (case parse_unsigned s of
              None \<Rightarrow> NaN
            | Some (q, rest) \<Rightarrow> num_of_literal neg q))"

text \<open>\<^verbatim>\<open>Number(s)\<close>: the whole trimmed string has to be a literal, or empty.\<close>

definition radix_digit :: "int \<Rightarrow> char \<Rightarrow> int option" where
  "radix_digit b c =
     (let v = (if is_digit c then digit_value c
               else if 97 \<le> code c \<and> code c \<le> 122 then code c - 87
               else if 65 \<le> code c \<and> code c \<le> 90 then code c - 55 else b)
      in if v < b then Some v else None)"

definition radix_literal :: "int \<Rightarrow> string \<Rightarrow> jsnum" where
  "radix_literal b s =
     (let ds = map (radix_digit b) s in
      if ds = [] \<or> None \<in> set ds then NaN
      else num_of_literal False (of_int (foldl (\<lambda>a d. b * a + the d) 0 ds)))"

definition to_number :: "string \<Rightarrow> jsnum" where
  "to_number str =
     (let s = trim_js str; p = to_lower (take 2 s) in
      if s = [] then Fin 0
      else if p = ''0x'' then radix_literal 16 (drop 2 s)
      else if p = ''0o'' then radix_literal 8 (drop 2 s)
      else if p = ''0b'' then radix_literal 2 (drop 2 s)
      else (case take_sign s of (neg, t) \<Rightarrow>
        if t = ''Infinity'' then Inf neg
        else (case parse_unsigned t of
                Some (q, []) \<Rightarrow> num_of_literal neg q
              | _ \<Rightarrow> NaN)))"

section \<open>Values\<close>

text \<open>
  The values of a payload. An object is the list of its own properties; it is taken to inherit
  \<^verbatim>\<open>toString\<close> from \<^verbatim>\<open>Object.prototype\<close>.
\<close>

datatype jsval =
    Undef
  | Null
  | Bool bool
  | Num jsnum
  | Str string
  | Arr "jsval list"
  | Obj "(string \<times> jsval) list"

definition num_string :: "jsnum \<Rightarrow> string" where
  "num_string a = (case a of NaN \<Rightarrow> ''NaN'' | Inf s \<Rightarrow> if s then ''-Infinity'' else ''Infinity''
     | Zero_neg \<Rightarrow> ''0'' | Fin q \<Rightarrow> num_text q)"

definition join_comma :: "string list \<Rightarrow> string" where
  "join_comma ss = (case ss of [] \<Rightarrow> [] | t # ts \<Rightarrow> t @ concat (map (\<lambda>u. CHR '','' # u) ts))"

fun to_string :: "jsval \<Rightarrow> string" where
  "to_string Undef = ''undefined''"
| "to_string Null = ''null''"
| "to_string (Bool b) = (if b then ''true'' else ''false'')"
| "to_string (Num a) = num_string a"
| "to_string (Str s) = s"
| "to_string (Arr vs) =
     join_comma (map (\<lambda>v. if v = Undef \<or> v = Null then [] else to_string v) vs)"
| "to_string (Obj ps) = ''[object Object]''"

definition truthy :: "jsval \<Rightarrow> bool" where
  "truthy v = (case v of
     Undef \<Rightarrow> False
   | Null \<Rightarrow> False
   | Bool b \<Rightarrow> b
   | Num a \<Rightarrow> a \<noteq> NaN \<and> a \<noteq> Zero_neg \<and> a \<noteq> Fin 0
   | Str s \<Rightarrow> s \<noteq> []
   | Arr vs \<Rightarrow> True
   | Obj ps \<Rightarrow> True)"

text \<open>\<^verbatim>\<open>v.k\<close> on an object; the last of several properties with one name counts.\<close>

definition get_prop :: "jsval \<Rightarrow> string \<Rightarrow> jsval" where
  "get_prop v k = (case v of
     Obj ps \<Rightarrow> (case map_of (rev ps) k of Some w \<Rightarrow> w | None \<Rightarrow> Undef)
   | _ \<Rightarrow> Undef)"

section \<open>The text of a number is read back as the number\<close>

lemma takeWhile_digits:
  assumes "list_all is_digit ds"
  shows "takeWhile is_digit (ds @ r) = ds @ takeWhile is_digit r" "dropWhile is_digit (ds @ r) = dropWhile is_digit r"
  using assms by (induction ds) auto

lemma takeWhile_all_digits:
  assumes "list_all is_digit ds"
  shows "takeWhile is_digit ds = ds" "dropWhile is_digit ds = []"
  using takeWhile_digits[OF assms, of "[]"] by simp_all

lemma not_digits [simp]: "\<not> is_digit (CHR ''.'')" "\<not> is_digit (CHR ''e'')" "\<not> is_digit (CHR ''-'')"
  "\<not> is_digit (CHR ''+'')" "is_digit (CHR ''0'')"
  by (simp_all add: is_digit_def digit_value_def)

lemma digits_zeros [simp]: "list_all is_digit (replicate k (CHR ''0''))"
  by (induction k) simp_all

lemma digits_value_leading: "digits_value (replicate k (CHR ''0'') @ ds) = digits_value ds"
  unfolding digits_value_def by (induction k) (simp_all add: digit_value_def)

lemma parse_exponent_text: "parse_exponent (exponent_text e) = (e, [])"
proof -
  note d = dec_digits_value[of "\<bar>e\<bar>"]
  show ?thesis
    by (cases "e < 0")
      (use d in \<open>simp_all add: parse_exponent_def exponent_text_def Let_def takeWhile_all_digits\<close>)
qed

lemma parse_no_exponent: "parse_exponent [] = (0, [])"
  by (simp add: parse_exponent_def)

lemma parse_layout_plain:
  assumes "list_all is_digit ds" "ds \<noteq> []" "0 \<le> e" "e + int (length ds) \<le> 21"
  shows "parse_unsigned (num_layout ds e) = Some (of_int (digits_value ds) * 10 powi e, [])"
proof -
  have z: "list_all is_digit (ds @ replicate (nat e) (CHR ''0''))"
    using assms(1) by simp
  have l: "num_layout ds e = ds @ replicate (nat e) (CHR ''0'')"
    using assms(3,4) by (simp add: num_layout_def Let_def)
  show ?thesis
    unfolding l parse_unsigned_def takeWhile_all_digits[OF z] using assms(2,3)
    by (simp add: parse_no_exponent digits_value_zeros power_int_def)
qed

lemma parse_layout_point:
  assumes "list_all is_digit ds" "ds \<noteq> []" "e < 0" "0 < e + int (length ds)" "e + int (length ds) \<le> 21"
  shows "parse_unsigned (num_layout ds e) = Some (of_int (digits_value ds) * 10 powi e, [])"
proof -
  let ?n = "nat (e + int (length ds))"
  have t: "list_all is_digit (take ?n ds)" "list_all is_digit (drop ?n ds)"
    using assms(1) by (auto simp: list_all_iff dest: in_set_takeD in_set_dropD)
  have l: "num_layout ds e = take ?n ds @ CHR ''.'' # drop ?n ds"
    using assms(3-5) by (simp add: num_layout_def Let_def)
  have "- int (length (drop ?n ds)) = e" using assms(3,4) by simp
  moreover have "take ?n ds \<noteq> []" using assms(2,4) by simp
  ultimately show ?thesis
    unfolding l parse_unsigned_def
    by (simp add: takeWhile_digits[OF t(1)] takeWhile_all_digits[OF t(2)] parse_no_exponent)
qed

lemma parse_layout_small:
  assumes "list_all is_digit ds" "ds \<noteq> []" "- 6 < e + int (length ds)" "e + int (length ds) \<le> 0"
  shows "parse_unsigned (num_layout ds e) = Some (of_int (digits_value ds) * 10 powi e, [])"
proof -
  define n where "n = e + int (length ds)"
  have z: "list_all is_digit (replicate (nat (- n)) (CHR ''0'') @ ds)"
    using assms(1) by simp
  have "0 < int (length ds)" using assms(2) by simp
  then have "\<not> 0 \<le> e" using assms(4) by linarith
  then have l: "num_layout ds e = CHR ''0'' # CHR ''.'' # replicate (nat (- n)) (CHR ''0'') @ ds"
    using assms(2-4) by (simp add: num_layout_def Let_def n_def)
  have v: "digits_value (CHR ''0'' # replicate (nat (- n)) (CHR ''0'') @ ds) = digits_value ds"
    using digits_value_leading[of "Suc (nat (- n))" ds] by simp
  have "- int (length (replicate (nat (- n)) (CHR ''0'') @ ds)) = e" using assms(4) by (simp add: n_def)
  then show ?thesis
    unfolding l parse_unsigned_def using v
    by (simp add: takeWhile_all_digits[OF z] parse_no_exponent)
qed

lemma parse_layout_exponent:
  assumes "list_all is_digit ds" "ds \<noteq> []"
    and "\<not> (0 < e + int (length ds) \<and> e + int (length ds) \<le> 21)"
    and "\<not> (- 6 < e + int (length ds) \<and> e + int (length ds) \<le> 0)"
  shows "parse_unsigned (num_layout ds e) = Some (of_int (digits_value ds) * 10 powi e, [])"
proof -
  define n where "n = e + int (length ds)"
  have ne: "exponent_text (n - 1) \<noteq> []" "hd (exponent_text (n - 1)) = CHR ''e''"
    "takeWhile is_digit (exponent_text (n - 1)) = []"
    "dropWhile is_digit (exponent_text (n - 1)) = exponent_text (n - 1)"
    by (simp_all add: exponent_text_def)
  show ?thesis
  proof (cases "int (length ds) = 1")
    case True
    then have l: "num_layout ds e = ds @ exponent_text (n - 1)"
      using assms(3,4) by (auto simp: num_layout_def Let_def n_def)
    have "n - 1 = e" using True by (simp add: n_def)
    then show ?thesis
      unfolding l parse_unsigned_def takeWhile_digits[OF assms(1)] ne(3,4) using assms(1,2) ne(1,2)
      by (simp add: parse_exponent_text)
  next
    case False
    obtain c t where ds: "ds = c # t" using assms(2) by (cases ds) simp_all
    have t: "is_digit c" "list_all is_digit t" using assms(1) ds by simp_all
    have l: "num_layout ds e = c # CHR ''.'' # t @ exponent_text (n - 1)"
      using assms(3,4) False by (auto simp: num_layout_def Let_def n_def ds)
    have "n - 1 - int (length t) = e" by (simp add: n_def ds)
    then show ?thesis
      unfolding l parse_unsigned_def Let_def using t
      by (simp add: takeWhile_digits[OF t(2)] ne(3,4) parse_exponent_text ds)
  qed
qed

lemma parse_layout:
  assumes "list_all is_digit ds" "ds \<noteq> []"
  shows "parse_unsigned (num_layout ds e) = Some (of_int (digits_value ds) * 10 powi e, [])"
proof -
  consider "0 \<le> e \<and> e + int (length ds) \<le> 21" | "e < 0 \<and> 0 < e + int (length ds) \<and> e + int (length ds) \<le> 21"
    | "- 6 < e + int (length ds) \<and> e + int (length ds) \<le> 0"
    | "\<not> (0 < e + int (length ds) \<and> e + int (length ds) \<le> 21) \<and> \<not> (- 6 < e + int (length ds) \<and> e + int (length ds) \<le> 0)"
    by linarith
  then show ?thesis
    by cases (simp_all add: assms parse_layout_plain parse_layout_point parse_layout_small parse_layout_exponent)
qed

text \<open>The digits that \<^verbatim>\<open>toString\<close> finds round to the number.\<close>

lemma double_form:
  assumes "fl x = x"
  shows "\<exists>m E. x = of_int m * 2 powi E \<and> - 1074 \<le> E"
proof (cases "x = 0")
  case True
  then show ?thesis by (intro exI[of _ 0]) simp
next
  case False
  then have "x = of_int (rhe (x / 2 powi fl_exp x)) * 2 powi fl_exp x"
    using assms by (simp add: fl_def)
  moreover have "- 1074 \<le> fl_exp x" by (simp add: fl_exp_def)
  ultimately show ?thesis by blast
qed

lemma digit_count_less: "0 < n \<Longrightarrow> n < 2 ^ k \<Longrightarrow> digit_count n \<le> int k"
proof -
  assume n: "0 < n" "n < 2 ^ k"
  have "10 ^ nat (digit_count n - 1) \<le> n" "1 \<le> digit_count n" using digit_count_bounds[OF n(1)] by simp_all
  moreover have "(2::int) ^ nat (digit_count n - 1) \<le> 10 ^ nat (digit_count n - 1)" by (rule power_mono) simp_all
  ultimately have "(2::int) ^ nat (digit_count n - 1) < 2 ^ k" using n(2) by linarith
  then have "nat (digit_count n - 1) < k" by (rule power_less_imp_less_exp[rotated]) simp
  with \<open>1 \<le> digit_count n\<close> show ?thesis by linarith
qed

lemma dec_exp_le:
  assumes "0 < x" "x < 2 ^ 1024"
  shows "dec_exp x \<le> 1024"
proof (cases "1 \<le> x")
  case True
  then have "0 < \<lfloor>x\<rfloor>" by simp
  moreover have "\<lfloor>x\<rfloor> < 2 ^ 1024"
    using assms(2) floor_less_iff[of x "2 ^ 1024"] by (simp only: of_int_power of_int_numeral)
  ultimately have "digit_count \<lfloor>x\<rfloor> \<le> int 1024" by (rule digit_count_less)
  with True show ?thesis by (simp add: dec_exp_def)
next
  case False
  with digit_count_nonneg[of "\<lceil>1 / x\<rceil> - 1"] show ?thesis by (simp add: dec_exp_def)
qed

lemma exact_quotient:
  assumes "fl x = x" "dec_exp x \<le> 1024"
  shows "of_int \<lfloor>x / 10 powi (dec_exp x - 3000)\<rfloor> * 10 powi (dec_exp x - 3000) = x"
proof -
  from double_form[OF assms(1)] obtain m E where x: "x = of_int m * 2 powi E" "- 1074 \<le> E" by blast
  define j where "j = nat (3000 - dec_exp x)"
  have j: "dec_exp x - 3000 = - int j" "1976 \<le> j" using assms(2) by (simp_all add: j_def)
  have "(10::rat) ^ j = 5 ^ j * 2 ^ j" by (simp add: power_mult_distrib [symmetric])
  then have "x / 10 powi (- int j) = of_int m * (2 powi E * 2 powi int j) * 5 ^ j"
    unfolding x(1) by (simp add: power_int_minus divide_inverse)
  also have "2 powi E * 2 powi int j = (2::rat) powi (E + int j)" by (simp add: power_int_add)
  also have "\<dots> = of_int (2 ^ nat (E + int j))" using x(2) j(2) by (intro powi_two_nonneg) simp
  finally have "x / 10 powi (- int j) = of_int (m * 2 ^ nat (E + int j) * 5 ^ j)" by simp
  then have "of_int \<lfloor>x / 10 powi (- int j)\<rfloor> = x / 10 powi (- int j)" by (simp only: floor_of_int)
  then have "of_int \<lfloor>x / 10 powi (- int j)\<rfloor> * 10 powi (- int j) = x / 10 powi (- int j) * 10 powi (- int j)"
    by (simp only:)
  also have "\<dots> = x" by simp
  finally show ?thesis unfolding j(1) .
qed

lemma candidate_nonneg:
  assumes "candidate k x = Some (s, e)" "0 < x"
  shows "fl (of_int s * 10 powi e) = x" "0 \<le> s"
proof -
  have "0 < x / 10 powi e" using assms(2) by simp
  then have "0 \<le> \<lfloor>x / 10 powi e\<rfloor>" by simp
  moreover have "\<lfloor>x / 10 powi e\<rfloor> \<le> \<lceil>x / 10 powi e\<rceil>" by (rule floor_le_ceiling)
  moreover note v = candidate_value[OF assms(1)]
  ultimately show "0 \<le> s" by linarith
  from v show "fl (of_int s * 10 powi e) = x" by blast
qed

lemma shortest_from_value:
  assumes "fl x = x" "0 < x" "x < 2 ^ 1024" "k \<le> 3000"
  shows "case shortest_from k x of (s, e) \<Rightarrow> fl (of_int s * 10 powi e) = x \<and> 0 \<le> s"
  using assms(4)
proof (induction "nat (3000 - k)" arbitrary: k)
  case 0
  then have k: "k = 3000" by simp
  show ?case
  proof (cases "candidate k x")
    case None
    then show ?thesis
      using exact_quotient[OF assms(1) dec_exp_le[OF assms(2,3)]] assms(1,2) k
      by (subst shortest_from.simps) simp
  next
    case (Some r)
    with candidate_nonneg[OF _ assms(2)] show ?thesis
      by (cases r) (subst shortest_from.simps, simp)
  qed
next
  case (Suc d)
  show ?case
  proof (cases "candidate k x")
    case None
    have "d = nat (3000 - (k + 1))" "k + 1 \<le> 3000" "k < 3000" using Suc(2) by simp_all
    with Suc(1)[OF this(1,2)] None show ?thesis by (subst shortest_from.simps) simp
  next
    case (Some r)
    with candidate_nonneg[OF _ assms(2)] show ?thesis
      by (cases r) (subst shortest_from.simps, simp)
  qed
qed

lemma shortest_value:
  assumes "fl x = x" "0 < x" "x < 2 ^ 1024"
  shows "case shortest x of (s, e) \<Rightarrow> fl (of_int s * 10 powi e) = x \<and> 0 \<le> s"
proof -
  obtain s e where se: "shortest_from 1 x = (s, e)" by force
  with shortest_from_value[OF assms, of 1] have v: "fl (of_int s * 10 powi e) = x" "0 \<le> s" by simp_all
  show ?thesis
  proof (cases "s = 10")
    case True
    have "(10::rat) powi (e + 1) = 10 * 10 powi e" by (simp add: power_int_add)
    with True v se show ?thesis by (simp add: shortest_def)
  next
    case False
    with v se show ?thesis by (simp add: shortest_def)
  qed
qed

text \<open>The numbers of the language: doubles below \<open>2^1024\<close>.\<close>

definition double :: "rat \<Rightarrow> bool" where
  "double x \<longleftrightarrow> fl x = x \<and> \<bar>x\<bar> < 2 ^ 1024"

lemma layout_head:
  assumes "list_all is_digit ds" "ds \<noteq> []"
  shows "\<exists>c t. num_layout ds e = c # t \<and> is_digit c"
proof -
  obtain c t where ds: "ds = c # t" "is_digit c" using assms by (cases ds) simp_all
  have "\<exists>c t. take (nat n) ds @ r = c # t \<and> is_digit c" if "0 < n" for n r
    using that ds by (cases "nat n") simp_all
  then show ?thesis
    unfolding num_layout_def Let_def using ds by auto
qed

lemma digit_start:
  assumes "is_digit c"
  shows "ws_len (c # t) = 0" "take_sign (c # t) = (False, c # t)" "\<not> starts_with ''Infinity'' (c # t)"
proof -
  have c: "48 \<le> code c" "code c \<le> 57"
    using assms by (simp_all add: is_digit_def digit_value_def code_def)
  show "ws_len (c # t) = 0" using c by (auto simp: ws_len_def split: list.splits)
  show "take_sign (c # t) = (False, c # t)" using c by (auto simp: take_sign_def code_def)
  show "\<not> starts_with ''Infinity'' (c # t)" using c by (auto simp: starts_with_def code_def)
qed

lemma minus_start: "ws_len (CHR ''-'' # t) = 0" "take_sign (CHR ''-'' # t) = (True, t)"
  by (auto simp: ws_len_def code_def take_sign_def split: list.splits)

lemma fl_literal:
  assumes "fl q = x" "double x" "x \<noteq> 0" "0 \<le> q"
  shows "num_of_literal False q = Fin x" "num_of_literal True q = Fin (- x)"
proof -
  have "q \<noteq> 0" using assms(1,3) by auto
  then have q: "0 < q" using assms(4) by simp
  have "0 \<le> x" using assms(1) q fl_nonneg[of q] by simp
  with assms q show "num_of_literal False q = Fin x" "num_of_literal True q = Fin (- x)"
    by (auto simp: num_of_literal_def round_num_def double_def fl_minus not_le)
qed

lemma parse_positive:
  assumes "double x" "0 < x" "shortest x = (s, e)"
  shows "num_text x = num_layout (dec_digits s) e"
    "parse_unsigned (num_text x) = Some (of_int s * 10 powi e, [])"
    "fl (of_int s * 10 powi e) = x" "(0::rat) \<le> of_int s * 10 powi e"
    "\<exists>c t. num_text x = c # t \<and> is_digit c"
proof -
  have v: "fl (of_int s * 10 powi e) = x" "0 \<le> s"
    using shortest_value[of x] assms by (simp_all add: double_def)
  note d = dec_digits_value[OF v(2)]
  show t: "num_text x = num_layout (dec_digits s) e" using assms(2,3) by (simp add: num_text_def)
  show "parse_unsigned (num_text x) = Some (of_int s * 10 powi e, [])"
    unfolding t using parse_layout[of "dec_digits s" e] d by simp
  show "fl (of_int s * 10 powi e) = x" by (rule v)
  show "(0::rat) \<le> of_int s * 10 powi e" using v(2) by simp
  show "\<exists>c t. num_text x = c # t \<and> is_digit c"
    unfolding t using layout_head d by simp
qed

lemma parseFloat_num_text:
  assumes "double x"
  shows "parseFloat (num_text x) = Fin x"
proof -
  have pos: "parseFloat (num_text x) = Fin x \<and> parseFloat (CHR ''-'' # num_text x) = Fin (- x)"
    if x: "double x" "0 < x" for x
  proof -
    obtain s e where se: "shortest x = (s, e)" by force
    note p = parse_positive[OF x se]
    obtain c t where c: "num_text x = c # t" "is_digit c" using p(5) by blast
    note h = digit_start[OF c(2), of t, folded c(1)]
    have "x \<noteq> 0" using x(2) by simp
    note l = fl_literal[OF p(3) x(1) this p(4)]
    have "trim_start (num_text x) = num_text x" by (subst trim_start.simps) (simp add: h)
    moreover have "trim_start (CHR ''-'' # num_text x) = CHR ''-'' # num_text x"
      by (subst trim_start.simps) (simp add: minus_start)
    ultimately show ?thesis
      by (simp add: parseFloat_def h minus_start p(2) l)
  qed
  consider "x = 0" | "0 < x" | "x < 0" by linarith
  then show ?thesis
  proof cases
    case 1
    have "parseFloat ''0'' = Fin 0" by code_simp
    with 1 show ?thesis by (simp add: num_text_def)
  next
    case 2
    with pos assms show ?thesis by simp
  next
    case 3
    then have "num_text x = CHR ''-'' # num_text (- x)" by (simp add: num_text_def)
    moreover have "double (- x)" using assms by (simp add: double_def fl_minus)
    ultimately show ?thesis using pos[of "- x"] 3 by simp
  qed
qed

end
