(* ===== verification/Hilbert.thy ===== *)
theory Hilbert
  imports Js_Prelude
begin

text \<open>
  The Hilbert curve on the integers, the abstract counterpart of the tile identifiers of
  \<^verbatim>\<open>src/app/static/js/pmtiles.js\<close>: no machine numbers, no mutable pair. The theorems are
  that encoding and decoding are inverse to each other on a square of side \<open>2^k\<close>, and that the
  curve is continuous (consecutive positions are edge neighbours).
\<close>

section \<open>Encoding and decoding\<close>

text \<open>
  \<open>hil_enc k x y\<close> is the position on the curve of order
  \<open>k\<close> of the point with the \<open>k\<close> low bits of \<open>x\<close> and \<open>y\<close>, \<open>hil_dec k t\<close> the point at position \<open>t\<close>.
\<close>

definition rot :: "int \<Rightarrow> int \<times> int \<Rightarrow> int \<Rightarrow> int \<Rightarrow> int \<times> int" where
  "rot s xy rx ry =
     (if ry = 0 then (if rx = 1 then (s - 1 - snd xy, s - 1 - fst xy) else (snd xy, fst xy)) else xy)"

fun hil_enc :: "nat \<Rightarrow> int \<times> int \<Rightarrow> int" where
  "hil_enc 0 xy = 0"
| "hil_enc (Suc k) xy =
     (let s = 2 ^ k; rx = fst xy div s mod 2; ry = snd xy div s mod 2
      in s * s * (if ry = 0 then 3 * rx else 1 + rx) + hil_enc k (rot s xy rx ry))"

fun hil_dec :: "nat \<Rightarrow> int \<Rightarrow> int \<times> int" where
  "hil_dec 0 t = (0, 0)"
| "hil_dec (Suc k) t =
     (let s = 2 ^ k; q = t div (s * s) mod 4; rx = q div 2; ry = (q + rx) mod 2;
          xy = rot s (hil_dec k (t mod (s * s))) rx ry
      in (fst xy + s * rx, snd xy + s * ry))"

lemma bit_of_cong:
  fixes x x' :: int
  assumes "x mod 2 ^ Suc k = x' mod 2 ^ Suc k"
  shows "x div 2 ^ k mod 2 = x' div 2 ^ k mod 2" and "x mod 2 ^ k = x' mod 2 ^ k"
proof -
  have m: "\<And>a::int. a mod 2 ^ Suc k = 2 ^ k * (a div 2 ^ k mod 2) + a mod 2 ^ k"
    by (simp add: zmod_zmult2_eq power_Suc2 del: power_Suc)
  have p: "\<And>a::int. a mod 2 ^ k = a mod 2 ^ Suc k mod 2 ^ k"
    by (simp add: mod_mod_cancel)
  show "x mod 2 ^ k = x' mod 2 ^ k"
    using assms p by metis
  then show "x div 2 ^ k mod 2 = x' div 2 ^ k mod 2"
    using assms m[of x] m[of x'] by simp
qed

lemma rot_cong:
  assumes "fst p mod m = fst q mod m" and "snd p mod m = snd q mod m"
  shows "fst (rot s p rx ry) mod m = fst (rot s q rx ry) mod m"
    and "snd (rot s p rx ry) mod m = snd (rot s q rx ry) mod m"
  using assms by (auto simp: rot_def intro!: mod_diff_cong[OF refl])

lemma hil_enc_cong:
  assumes "fst p mod 2 ^ k = fst q mod 2 ^ k" and "snd p mod 2 ^ k = snd q mod 2 ^ k"
  shows "hil_enc k p = hil_enc k q"
  using assms
proof (induction k arbitrary: p q)
  case 0
  show ?case by simp
next
  case (Suc k)
  note x = bit_of_cong[OF Suc.prems(1)] and y = bit_of_cong[OF Suc.prems(2)]
  have "hil_enc k (rot (2 ^ k) p rx ry) = hil_enc k (rot (2 ^ k) q rx ry)" for rx ry
    using x(2) y(2) by (intro Suc.IH rot_cong) simp_all
  then show ?case by (simp add: Let_def x(1) y(1))
qed

lemma rot_range:
  assumes "0 \<le> fst p" "fst p < s" "0 \<le> snd p" "snd p < s"
  shows "0 \<le> fst (rot s p rx ry)" "fst (rot s p rx ry) < s"
    "0 \<le> snd (rot s p rx ry)" "snd (rot s p rx ry) < s"
  using assms by (simp_all add: rot_def)

lemma rot_rot [simp]: "rot s (rot s p rx ry) rx ry = p"
  by (cases p) (simp add: rot_def)

lemma quarter_cases:
  assumes "0 \<le> (q::int)" "q < 4"
  obtains "q = 0" | "q = 1" | "q = 2" | "q = 3"
proof -
  have "q = 0 \<or> q = 1 \<or> q = 2 \<or> q = 3" using assms by arith
  then show thesis using that by blast
qed

lemma hil_dec_range:
  "0 \<le> fst (hil_dec k t) \<and> fst (hil_dec k t) < 2 ^ k \<and>
   0 \<le> snd (hil_dec k t) \<and> snd (hil_dec k t) < 2 ^ k"
proof (induction k arbitrary: t)
  case 0
  show ?case by simp
next
  case (Suc k)
  define s :: int where "s = 2 ^ k"
  define q where "q = t div (s * s) mod 4"
  define rx where "rx = q div 2"
  define ry where "ry = (q + rx) mod 2"
  define xy where "xy = rot s (hil_dec k (t mod (s * s))) rx ry"
  have "0 \<le> q" "q < 4" by (simp_all add: q_def)
  then have b: "rx = 0 \<or> rx = 1" "ry = 0 \<or> ry = 1"
    by (auto simp: rx_def ry_def elim!: quarter_cases)
  have xy: "0 \<le> fst xy" "fst xy < s" "0 \<le> snd xy" "snd xy < s"
    unfolding xy_def using Suc.IH[of "t mod (s * s)"] by (simp_all add: s_def rot_range)
  have d: "hil_dec (Suc k) t = (fst xy + s * rx, snd xy + s * ry)"
    by (simp add: Let_def xy_def rx_def ry_def s_def q_def)
  show ?case
    unfolding d using b xy by (auto simp: s_def)
qed

lemma quadrant_bits:
  fixes x s b :: int
  assumes "0 \<le> x" "x < s" "b = 0 \<or> b = 1"
  shows "(x + s * b) div s mod 2 = b" and "(x + s * b) mod s = x mod s"
proof -
  have "(x + s * b) div s = b"
    using assms by (simp add: div_pos_pos_trivial)
  then show "(x + s * b) div s mod 2 = b" using assms(3) by auto
qed simp

theorem hil_enc_hil_dec:
  assumes "0 \<le> t" and "t < 2 ^ k * 2 ^ k"
  shows "hil_enc k (hil_dec k t) = t"
  using assms
proof (induction k arbitrary: t)
  case 0
  then show ?case by simp
next
  case (Suc k)
  define s :: int where "s = 2 ^ k"
  define q where "q = t div (s * s)"
  define r where "r = t mod (s * s)"
  define p where "p = hil_dec k r"
  define rx where "rx = q div 2"
  define ry where "ry = (q + rx) mod 2"
  define xy where "xy = rot s p rx ry"
  have s: "0 < s" by (simp add: s_def)
  have t: "t = s * s * q + r" by (simp add: q_def r_def)
  have r: "0 \<le> r" "r < s * s"
    using s by (simp_all add: r_def)
  have "0 \<le> q" using Suc.prems(1) s by (simp add: q_def pos_imp_zdiv_nonneg_iff)
  moreover have "q < 4"
  proof -
    have "t < s * s * 4" using Suc.prems(2) by (simp add: s_def)
    moreover have "s * s * q \<le> t" using t r(1) by linarith
    ultimately have "s * s * q < s * s * 4" by linarith
    then show ?thesis using s by (metis mult_less_cancel_left_pos zero_less_mult_iff)
  qed
  ultimately have q: "0 \<le> q" "q < 4" .
  have b: "rx = 0 \<or> rx = 1" "ry = 0 \<or> ry = 1" "(if ry = 0 then 3 * rx else 1 + rx) = q"
    using q by (auto simp: rx_def ry_def elim!: quarter_cases)
  have xy: "0 \<le> fst xy" "fst xy < s" "0 \<le> snd xy" "snd xy < s"
    unfolding xy_def using hil_dec_range[of k r] by (simp_all add: p_def s_def rot_range)
  have d: "hil_dec (Suc k) t = (fst xy + s * rx, snd xy + s * ry)"
    using q by (simp add: Let_def xy_def p_def r_def rx_def ry_def s_def q_def mod_pos_pos_trivial)
  have "hil_enc k (rot s (fst xy + s * rx, snd xy + s * ry) rx ry) = hil_enc k (rot s xy rx ry)"
    by (intro hil_enc_cong rot_cong) (simp_all add: s_def)
  also have "\<dots> = r"
    using Suc.IH[OF r[unfolded s_def]] by (simp add: xy_def p_def)
  finally show ?case
    unfolding d using quadrant_bits[OF xy(1,2) b(1)] quadrant_bits[OF xy(3,4) b(2)] b(3) t
    by (auto simp: Let_def simp flip: s_def split: if_splits)
qed

lemma quot_rem:
  fixes m a r :: int
  assumes "0 \<le> r" and "r < m"
  shows "(m * a + r) div m = a" and "(m * a + r) mod m = r"
  using assms by simp_all

lemma hil_enc_range: "0 \<le> hil_enc k p \<and> hil_enc k p < 2 ^ k * 2 ^ k"
proof (induction k arbitrary: p)
  case 0
  show ?case by simp
next
  case (Suc k)
  define s :: int where "s = 2 ^ k"
  define rx where "rx = fst p div s mod 2"
  define ry where "ry = snd p div s mod 2"
  define f where "f = (if ry = 0 then 3 * rx else 1 + rx)"
  define e where "e = hil_enc k (rot s p rx ry)"
  have "rx = 0 \<or> rx = 1" "ry = 0 \<or> ry = 1"
    by (auto simp: rx_def ry_def)
  then have f: "0 \<le> f" "f \<le> 3" by (auto simp: f_def)
  have e: "0 \<le> e" "e < s * s"
    using Suc.IH[of "rot s p rx ry"] by (simp_all add: e_def s_def)
  have "s * s * f \<le> s * s * 3" "0 \<le> s * s * f"
    using f by (simp_all add: mult_left_mono)
  moreover have "hil_enc (Suc k) p = s * s * f + e"
    by (simp add: Let_def f_def e_def rx_def ry_def flip: s_def)
  moreover have "(2::int) ^ Suc k * 2 ^ Suc k = s * s * 4"
    by (simp add: s_def)
  ultimately show ?case using e by linarith
qed

theorem hil_dec_hil_enc:
  assumes "0 \<le> x" "x < 2 ^ k" "0 \<le> y" "y < 2 ^ k"
  shows "hil_dec k (hil_enc k (x, y)) = (x, y)"
  using assms
proof (induction k arbitrary: x y)
  case 0
  then show ?case by simp
next
  case (Suc k)
  define s :: int where "s = 2 ^ k"
  define rx where "rx = x div s"
  define ry where "ry = y div s"
  define p where "p = rot s (x, y) rx ry"
  define p' where "p' = (fst p mod s, snd p mod s)"
  define f where "f = (if ry = 0 then 3 * rx else 1 + rx)"
  have s: "0 < s" by (simp add: s_def)
  have x: "x = s * rx + x mod s" and y: "y = s * ry + y mod s"
    by (simp_all add: rx_def ry_def)
  have m: "0 \<le> x mod s" "x mod s < s" "0 \<le> y mod s" "y mod s < s"
    using s by simp_all
  have "0 \<le> rx" "0 \<le> ry"
    using Suc.prems s by (simp_all add: rx_def ry_def pos_imp_zdiv_nonneg_iff)
  moreover have "s * rx < s * 2" "s * ry < s * 2"
    using Suc.prems x y m unfolding s_def power_Suc by linarith+
  then have "rx < 2" "ry < 2" using s by (simp_all only: mult_less_cancel_left_pos)
  ultimately have b: "rx = 0 \<or> rx = 1" "ry = 0 \<or> ry = 1" by auto
  have e: "hil_enc k p' = hil_enc k p"
    by (rule hil_enc_cong) (simp_all add: p'_def s_def)
  have t: "hil_enc (Suc k) (x, y) = s * s * f + hil_enc k p'"
    using b by (auto simp: Let_def f_def e p_def rx_def ry_def simp flip: s_def)
  have "(s * s * f + hil_enc k p') div (s * s) = f" "(s * s * f + hil_enc k p') mod (s * s) = hil_enc k p'"
    using hil_enc_range[of k p'] s by (simp_all add: s_def)
  moreover have "f div 2 = rx" "(f + rx) mod 2 = ry" "f mod 4 = f"
    using b by (auto simp: f_def)
  moreover have "hil_dec k (hil_enc k p') = p'"
    unfolding p'_def using s by (intro Suc.IH) (simp_all add: s_def)
  moreover have "rot s p' rx ry = (x mod s, y mod s)"
  proof -
    have c: "fst (rot s p' rx ry) mod s = fst (rot s p rx ry) mod s"
      "snd (rot s p' rx ry) mod s = snd (rot s p rx ry) mod s"
      by (intro rot_cong; simp add: p'_def)+
    have "fst (rot s p' rx ry) = x mod s" "snd (rot s p' rx ry) = y mod s"
      using c rot_range[of p' s rx ry] s by (simp_all add: p_def p'_def)
    then show ?thesis by (simp add: prod_eq_iff)
  qed
  ultimately show ?case
    unfolding t using x y by (simp add: Let_def add.commute flip: s_def)
qed

subsection \<open>The curve is continuous\<close>

definition neighbours :: "int \<times> int \<Rightarrow> int \<times> int \<Rightarrow> bool" where
  "neighbours p q \<longleftrightarrow> \<bar>fst p - fst q\<bar> + \<bar>snd p - snd q\<bar> = 1"

lemma hil_dec_first: "hil_dec k 0 = (0, 0)"
  by (induction k) (simp_all add: Let_def rot_def)

text \<open>Where the curve of order \<open>k\<close> goes in each quadrant of the curve of order \<open>k + 1\<close>.\<close>

definition quadrant :: "int \<Rightarrow> int \<Rightarrow> int \<times> int \<Rightarrow> int \<times> int" where
  "quadrant s q p =
     (if q = 0 then (snd p, fst p)
      else if q = 1 then (fst p, snd p + s)
      else if q = 2 then (fst p + s, snd p + s)
      else (2 * s - 1 - snd p, s - 1 - fst p))"

lemma hil_dec_quadrant:
  assumes "0 \<le> q" "q < 4" "0 \<le> r" "r < 2 ^ k * 2 ^ k"
  shows "hil_dec (Suc k) (2 ^ k * 2 ^ k * q + r) = quadrant (2 ^ k) q (hil_dec k r)"
proof -
  define s :: int where "s = 2 ^ k"
  have dm: "(s * s * q + r) div (s * s) mod 4 = q" "(s * s * q + r) mod (s * s) = r"
    using assms quot_rem[of r "s * s" q] by (simp_all add: s_def)
  have "hil_dec (Suc k) (s * s * q + r) =
      (let rx = q div 2; ry = (q + rx) mod 2; xy = rot s (hil_dec k r) rx ry
       in (fst xy + s * rx, snd xy + s * ry))"
    unfolding hil_dec.simps Let_def s_def[symmetric] dm ..
  also have "\<dots> = quadrant s q (hil_dec k r)"
    using assms(1,2) by (elim quarter_cases) (simp_all add: Let_def rot_def quadrant_def)
  finally show ?thesis by (simp only: s_def)
qed

lemma hil_dec_last: "hil_dec k (2 ^ k * 2 ^ k - 1) = (2 ^ k - 1, 0)"
proof (induction k)
  case 0
  show ?case by simp
next
  case (Suc k)
  have t: "(2::int) ^ Suc k * 2 ^ Suc k - 1 = 2 ^ k * 2 ^ k * 3 + (2 ^ k * 2 ^ k - 1)"
    by simp
  show ?case
    unfolding t using Suc.IH by (subst hil_dec_quadrant) (simp_all add: quadrant_def)
qed

lemma neighbours_quadrant: "neighbours p q \<Longrightarrow> neighbours (quadrant s b p) (quadrant s b q)"
  by (auto simp: neighbours_def quadrant_def)

text \<open>The last point of a quadrant is next to the first point of the following one.\<close>

lemma neighbours_next_quadrant:
  "q = 0 \<or> q = 1 \<or> q = 2 \<Longrightarrow> neighbours (quadrant s q (s - 1, 0)) (quadrant s (q + 1) (0, 0))"
  by (auto simp: neighbours_def quadrant_def)

theorem hil_dec_neighbours:
  assumes "0 \<le> t" and "t + 1 < 2 ^ k * 2 ^ k"
  shows "neighbours (hil_dec k t) (hil_dec k (t + 1))"
  using assms
proof (induction k arbitrary: t)
  case 0
  then show ?case by simp
next
  case (Suc k)
  define s :: int where "s = 2 ^ k"
  define q where "q = t div (s * s)"
  define r where "r = t mod (s * s)"
  have s: "0 < s" by (simp add: s_def)
  have t: "t = s * s * q + r" and r: "0 \<le> r" "r < s * s"
    using s by (simp_all add: q_def r_def)
  have "0 \<le> q" using Suc.prems(1) s by (simp add: q_def pos_imp_zdiv_nonneg_iff)
  have "t + 1 < s * s * 4" using Suc.prems(2) by (simp add: s_def)
  moreover have "s * s * (q + 1) = s * s * q + s * s" by (simp add: algebra_simps)
  ultimately have "s * s * (q + (if r = s * s - 1 then 1 else 0)) < s * s * 4"
    using t r by (cases "r = s * s - 1") simp_all
  then have q4: "q + (if r = s * s - 1 then 1 else 0) < 4"
    using s by (metis mult_less_cancel_left_pos zero_less_mult_iff)
  then have q3: "q < 4" by (simp split: if_splits)
  show ?case
  proof (cases "r = s * s - 1")
    case False
    then have t1: "t + 1 = s * s * q + (r + 1)" using t by simp
    have "neighbours (hil_dec k r) (hil_dec k (r + 1))"
      using r False by (intro Suc.IH) (simp_all add: s_def)
    then have "neighbours (quadrant s q (hil_dec k r)) (quadrant s q (hil_dec k (r + 1)))"
      by (rule neighbours_quadrant)
    then show ?thesis
      unfolding t1 using \<open>0 \<le> q\<close> q3 r False
      by (subst t) (simp add: hil_dec_quadrant s_def del: hil_dec.simps)
  next
    case True
    then have t1: "t + 1 = s * s * (q + 1) + 0" using t by (simp add: algebra_simps)
    have l: "hil_dec k r = (s - 1, 0)"
      using hil_dec_last[of k] True by (simp add: s_def)
    have "q = 0 \<or> q = 1 \<or> q = 2" using q4 True \<open>0 \<le> q\<close> by auto
    then have "neighbours (quadrant s q (hil_dec k r)) (quadrant s (q + 1) (hil_dec k 0))"
      unfolding l hil_dec_first by (rule neighbours_next_quadrant)
    moreover have "hil_dec (Suc k) t = quadrant s q (hil_dec k r)"
      unfolding s_def by (subst t) (use \<open>0 \<le> q\<close> q3 r in \<open>simp add: hil_dec_quadrant s_def del: hil_dec.simps\<close>)
    moreover have "hil_dec (Suc k) (t + 1) = quadrant s (q + 1) (hil_dec k 0)"
      unfolding t1 s_def using \<open>0 \<le> q\<close> q4 True by (intro hil_dec_quadrant) simp_all
    ultimately show ?thesis by simp
  qed
qed

end
