(* ===== verification/Tile_Id.thy ===== *)
theory Tile_Id
  imports Js_Number Hilbert
begin

text \<open>
  Tile identifiers of \<^verbatim>\<open>src/app/static/js/pmtiles.js\<close> (\<^verbatim>\<open>rotate\<close>, \<^verbatim>\<open>idOnLevel\<close>,
  \<^verbatim>\<open>zxyToTileId\<close>, \<^verbatim>\<open>tileIdToZxy\<close>): the position of a tile on the Hilbert curve of
  its zoom level, after all tiles of the lower levels. Every number is a JavaScript number,
  rounded by \<open>fl\<close>; in particular the loop of \<^verbatim>\<open>zxyToTileId\<close> runs with \<open>s = 1/2, 1/4, \<dots>\<close>
  until the division underflows to 0, and the one of \<^verbatim>\<open>idOnLevel\<close> divides \<open>t\<close> into a fraction.
\<close>

section \<open>The code\<close>

definition rotate_xy :: "rat \<Rightarrow> rat \<times> rat \<Rightarrow> int \<Rightarrow> int \<Rightarrow> rat \<times> rat" where
  "rotate_xy n xy rx ry =
     (if ry = 0
      then (let xy' = (if rx = 1
                       then (fl (fl (n - 1) - fst xy), fl (fl (n - 1) - snd xy))
                       else xy)
            in (snd xy', fst xy'))
      else xy)"

partial_function (option) idOnLevel_loop ::
  "rat \<Rightarrow> rat \<Rightarrow> rat \<Rightarrow> rat \<times> rat \<Rightarrow> (rat \<times> rat) option" where
  "idOnLevel_loop n s t xy =
     (if s < n
      then (let rx = 1 AND to_int32 (fl (t / 2));
                ry = 1 AND (to_int32 t XOR rx);
                xy' = rotate_xy s xy rx ry
            in idOnLevel_loop n (fl (s * 2)) (fl (t / 4))
                 (fl (fst xy' + fl (s * of_int rx)), fl (snd xy' + fl (s * of_int ry))))
      else Some xy)"

definition idOnLevel :: "nat \<Rightarrow> rat \<Rightarrow> (nat \<times> rat \<times> rat) option" where
  "idOnLevel z pos = map_option (\<lambda>xy. (z, xy)) (idOnLevel_loop (2 ^ z) 1 pos (0, 0))"

definition tzValues :: "rat list" where
  "tzValues =
    [0, 1, 5, 21, 85, 341, 1365, 5461, 21845, 87381, 349525, 1398101, 5592405, 22369621,
     89478485, 357913941, 1431655765, 5726623061, 22906492245, 91625968981, 366503875925,
     1466015503701, 5864062014805, 23456248059221, 93824992236885, 375299968947541,
     1501199875790165]"

function zxyToTileId_loop :: "rat \<Rightarrow> rat \<times> rat \<Rightarrow> rat \<Rightarrow> rat" where
  "zxyToTileId_loop s xy d =
     (if 0 < s
      then (let rx = (if 0 < to_int32 (fst xy) AND to_int32 s then 1 else 0);
                ry = (if 0 < to_int32 (snd xy) AND to_int32 s then 1 else 0);
                d' = fl (d + fl (fl (s * s) * of_int ((3 * rx) XOR ry)))
            in zxyToTileId_loop (fl (s / 2)) (rotate_xy s xy rx ry) d')
      else d)"
  by pat_completeness auto
termination
  by (relation "measure (\<lambda>(s, xy, d). nat \<lceil>s * 2 powi 1074\<rceil>)") 
    (rule wf_measure, simp only: in_measure prod.case fl_half_decreases)

definition zxyToTileId :: "nat \<Rightarrow> rat \<Rightarrow> rat \<Rightarrow> js_error + rat" where
  "zxyToTileId z x y =
     (if 26 < z then Inl (Error ''Tile zoom level exceeds max safe number limit (26)'')
      else if fl (2 ^ z - 1) < x \<or> fl (2 ^ z - 1) < y
      then Inl (Error ''tile x/y outside zoom level bounds'')
      else Inr (fl (tzValues ! z + zxyToTileId_loop (fl (2 ^ z / 2)) (x, y) 0)))"

fun tileIdToZxy_loop :: "nat list \<Rightarrow> rat \<Rightarrow> rat \<Rightarrow> (js_error + nat \<times> rat \<times> rat) option" where
  "tileIdToZxy_loop [] acc i =
     Some (Inl (Error ''Tile zoom level exceeds max safe number limit (26)''))"
| "tileIdToZxy_loop (z # zs) acc i =
     (let numTiles = fl (of_int (i32_shl 1 z) * of_int (i32_shl 1 z))
      in if i < fl (acc + numTiles) then map_option Inr (idOnLevel z (fl (i - acc)))
         else tileIdToZxy_loop zs (fl (acc + numTiles)) i)"

definition tileIdToZxy :: "rat \<Rightarrow> (js_error + nat \<times> rat \<times> rat) option" where
  "tileIdToZxy i = tileIdToZxy_loop [0..<27] 0 i"

declare zxyToTileId_loop.simps [simp del]

section \<open>The code computes the curve\<close>

lemma rotate_xy_of_int:
  assumes "\<bar>x\<bar> + 2 * 2 ^ k \<le> 2 ^ 53" "\<bar>y\<bar> + 2 * 2 ^ k \<le> 2 ^ 53"
  shows "rotate_xy (2 ^ k) (of_int x, of_int y) rx ry =
    (of_int (fst (rot (2 ^ k) (x, y) rx ry)), of_int (snd (rot (2 ^ k) (x, y) rx ry)))"
proof -
  have one: "(1::int) \<le> 2 ^ k" by simp
  have s: "fl (2 ^ k - 1 :: rat) = of_int (2 ^ k - 1)"
    using fl_of_int[of "2 ^ k - 1"] assms one by simp
  have d: "fl (of_int (2 ^ k - 1) - of_int a) = of_int (2 ^ k - 1 - a)" if "\<bar>a\<bar> + 2 * 2 ^ k \<le> 2 ^ 53" for a
  proof -
    have "\<bar>2 ^ k - 1 - a\<bar> \<le> 2 ^ 53" using that one by arith
    then show ?thesis using fl_of_int[of "2 ^ k - 1 - a"] by simp
  qed
  show ?thesis
    unfolding rotate_xy_def s using d[OF assms(1)] d[OF assms(2)] by (simp add: rot_def)
qed

text \<open>The iterations with \<open>s = 1/2, 1/4, \<dots>\<close> change nothing but the order of \<open>x\<close> and \<open>y\<close>.\<close>

lemma zxyToTileId_loop_fraction:
  assumes "s < 1" and "\<bar>d\<bar> \<le> 2 ^ 53"
  shows "zxyToTileId_loop s xy (of_int d) = of_int d"
  using assms(1)
proof (induction s xy "of_int d :: rat" rule: zxyToTileId_loop.induct)
  case (1 s xy)
  show ?case
  proof (cases "0 < s")
    case False
    then show ?thesis by (simp add: zxyToTileId_loop.simps)
  next
    case True
    with 1(2) have f: "\<lfloor>s\<rfloor> = 0" by linarith
    then have s0: "to_int32 s = 0"
      using True by (simp add: to_int32_def trunc_rat_def)
    have "fl (s / 2) < 1"
      using fl_less_double[of "s / 2"] True 1(2) by simp
    then show ?thesis
      using 1(1)[of 0 0] True s0 assms(2)
      by (subst zxyToTileId_loop.simps) (simp add: fl_of_int)
  qed
qed

lemma fl_half_power2: "fl ((2::rat) ^ Suc k / 2) = 2 ^ k"
  by simp

lemma zxyToTileId_loop_step:
  assumes "k \<le> 25" "0 \<le> d" "d + 2 ^ Suc k * 2 ^ Suc k \<le> 2 ^ 53"
    and "\<bar>x\<bar> + 2 ^ Suc k \<le> 2 ^ 53" "\<bar>y\<bar> + 2 ^ Suc k \<le> 2 ^ 53"
    and rx: "rx = x div 2 ^ k mod 2" and ry: "ry = y div 2 ^ k mod 2"
    and r: "r = rot (2 ^ k) (x, y) rx ry"
  shows "zxyToTileId_loop (2 ^ k) (of_int x, of_int y) (of_int d) =
    zxyToTileId_loop (fl (2 ^ k / 2)) (of_int (fst r), of_int (snd r))
      (of_int (d + 2 ^ k * 2 ^ k * (if ry = 0 then 3 * rx else 1 + rx)))"
proof -
  define f where "f = (if ry = 0 then 3 * rx else 1 + rx)"
  have b: "rx = 0 \<or> rx = 1" "ry = 0 \<or> ry = 1" by (auto simp: rx ry)
  then have f: "0 \<le> f" "f \<le> 3" and x: "(3 * rx) XOR ry = f"
    by (auto simp: f_def)
  have bx: "(if 0 < to_int32 (of_int x) AND to_int32 (2 ^ k) then 1 else 0) = rx"
    and "by": "(if 0 < to_int32 (of_int y) AND to_int32 (2 ^ k) then 1 else 0) = ry"
    using b assms(1) by (auto simp: and_power2_pos rx ry)
  have sq: "fl (2 ^ k * 2 ^ k) = (2 ^ k * 2 ^ k :: rat)"
    using fl_power2[of "k + k"] by (simp add: power_add)
  define a :: int where "a = 2 ^ k * 2 ^ k"
  have a: "0 < a" "a * f \<le> a * 3" "0 \<le> a * f" "d + a * 4 \<le> 2 ^ 53"
    using f assms(3) by (simp_all add: a_def mult_left_mono)
  have m: "\<bar>a * f\<bar> \<le> 2 ^ 53" "\<bar>d + a * f\<bar> \<le> 2 ^ 53"
    using a assms(2) by linarith+
  have d: "fl (of_int d + fl (fl (2 ^ k * 2 ^ k) * of_int ((3 * rx) XOR ry))) = of_int (d + a * f)"
    unfolding x sq using fl_of_int[OF m(1)] fl_of_int[OF m(2)] by (simp add: a_def)
  have "rotate_xy (2 ^ k) (of_int x, of_int y) rx ry = (of_int (fst r), of_int (snd r))"
    unfolding r using assms(4,5) by (intro rotate_xy_of_int) simp_all
  with d bx "by" show ?thesis
    by (subst zxyToTileId_loop.simps) (simp add: Let_def f_def[symmetric] a_def)
qed

lemma rot_bound:
  assumes "\<bar>x\<bar> + 2 * s \<le> B" "\<bar>y\<bar> + 2 * s \<le> B" "(1::int) \<le> s"
  shows "\<bar>fst (rot s (x, y) rx ry)\<bar> + s \<le> B" "\<bar>snd (rot s (x, y) rx ry)\<bar> + s \<le> B"
  using assms by (auto simp: rot_def)

lemma zxyToTileId_loop_power:
  assumes "k \<le> 25" "0 \<le> d" "d + 2 ^ Suc k * 2 ^ Suc k \<le> 2 ^ 53"
    and "\<bar>x\<bar> + 2 ^ Suc k \<le> 2 ^ 53" "\<bar>y\<bar> + 2 ^ Suc k \<le> 2 ^ 53"
  shows "zxyToTileId_loop (2 ^ k) (of_int x, of_int y) (of_int d) = of_int (d + hil_enc (Suc k) (x, y))"
  using assms
proof (induction k arbitrary: x y d)
  case 0
  define f where "f = (if y mod 2 = 0 then 3 * (x mod 2) else 1 + x mod 2)"
  have "\<bar>d + f\<bar> \<le> 2 ^ 53"
    using 0(2,3) by (auto simp: f_def)
  moreover have "fl (2 ^ 0 / 2) < (1::rat)"
    using fl_less_double[of "1 / 2"] by simp
  moreover have "zxyToTileId_loop (2 ^ 0) (of_int x, of_int y) (of_int d) =
      zxyToTileId_loop (fl (2 ^ 0 / 2)) (of_int (fst (rot (2 ^ 0) (x, y) (x mod 2) (y mod 2))),
        of_int (snd (rot (2 ^ 0) (x, y) (x mod 2) (y mod 2)))) (of_int (d + f))"
    unfolding f_def using zxyToTileId_loop_step[OF 0(1-5) refl refl refl] by simp
  ultimately show ?case
    by (simp only: zxyToTileId_loop_fraction) (simp add: f_def Let_def)
next
  case (Suc k)
  define s :: int where "s = 2 ^ Suc k"
  define rx where "rx = x div s mod 2"
  define ry where "ry = y div s mod 2"
  define r where "r = rot s (x, y) rx ry"
  define f where "f = (if ry = 0 then 3 * rx else 1 + rx)"
  have f: "0 \<le> f" "f \<le> 3"
    using pos_mod_bound[of 2 "x div s"] pos_mod_bound[of 2 "y div s"] by (auto simp: f_def rx_def ry_def)
  have sf: "0 \<le> s * s * f" "s * s * f \<le> s * s * 3"
    using f by (simp_all add: mult_left_mono)
  have bd: "d + s * s * 4 \<le> 2 ^ 53" and bx: "\<bar>x\<bar> + 2 * s \<le> 2 ^ 53" "\<bar>y\<bar> + 2 * s \<le> 2 ^ 53"
    using Suc.prems(3-5) by (simp_all add: s_def)
  have bd': "0 \<le> d + s * s * f" "d + s * s * f + s * s \<le> 2 ^ 53"
    using sf bd Suc.prems(2) by linarith+
  have br: "\<bar>fst r\<bar> + s \<le> 2 ^ 53" "\<bar>snd r\<bar> + s \<le> 2 ^ 53"
    unfolding r_def using rot_bound[OF bx] one_le_power[of "2::int" "Suc k"] by (simp_all add: s_def)
  have "zxyToTileId_loop (2 ^ Suc k) (of_int x, of_int y) (of_int d)
      = zxyToTileId_loop (fl (2 ^ Suc k / 2)) (of_int (fst r), of_int (snd r)) (of_int (d + s * s * f))"
    using Suc.prems unfolding s_def f_def r_def rx_def ry_def
    by (intro zxyToTileId_loop_step) simp_all
  also have "\<dots> = zxyToTileId_loop (2 ^ k) (of_int (fst r), of_int (snd r)) (of_int (d + s * s * f))"
    by (simp only: fl_half_power2)
  also have "\<dots> = of_int (d + s * s * f + hil_enc (Suc k) (fst r, snd r))"
    using Suc.prems(1) bd' br by (intro Suc.IH) (simp_all only: s_def[symmetric])
  also have "\<dots> = of_int (d + hil_enc (Suc (Suc k)) (x, y))"
    by (subst hil_enc.simps(2)[of "Suc k"]) (simp add: Let_def f_def rx_def ry_def r_def s_def del: hil_enc.simps)
  finally show ?case .
qed

subsection \<open>The base of a zoom level\<close>

fun tile_base :: "nat \<Rightarrow> int" where
  "tile_base 0 = 0"
| "tile_base (Suc z) = tile_base z + 2 ^ z * 2 ^ z"

lemma tile_base_closed: "3 * tile_base z = 2 ^ z * 2 ^ z - 1"
  by (induction z) (simp_all add: algebra_simps)

lemma tile_base_nonneg: "0 \<le> tile_base z"
  by (induction z) simp_all

lemma tile_base_mono: "z \<le> z' \<Longrightarrow> tile_base z \<le> tile_base z'"
  by (rule lift_Suc_mono_le) simp_all

lemma tile_base_27: "tile_base 27 = 6004799503160661"
  using tile_base_closed[of 27] by simp

lemma tzValues_nth: "z \<le> 26 \<Longrightarrow> tzValues ! z = of_int (tile_base z)"
proof -
  have "list_all (\<lambda>z. tzValues ! z = of_int (tile_base z)) [0..<27]"
    by code_simp
  moreover assume "z \<le> 26"
  ultimately show ?thesis by (simp add: list_all_iff)
qed

theorem zxyToTileId_correct:
  assumes z: "z \<le> 26" and x: "- (2 ^ 52) \<le> x" "x < 2 ^ z" and y: "- (2 ^ 52) \<le> y" "y < 2 ^ z"
  shows "zxyToTileId z (of_int x) (of_int y) = Inr (of_int (tile_base z + hil_enc z (x, y)))"
proof -
  have z26: "(2::int) ^ z \<le> 2 ^ 26" using z by (intro power_increasing) simp_all
  have m: "fl (2 ^ z - 1) = (of_int (2 ^ z - 1) :: rat)"
    using fl_of_int[of "2 ^ z - 1"] z26 by simp
  have l: "zxyToTileId_loop (fl (2 ^ z / 2)) (of_int x, of_int y) (of_int 0) = of_int (hil_enc z (x, y))"
  proof (cases z)
    case 0
    have "fl (1 / 2) < (1::rat)" using fl_less_double[of "1 / 2"] by simp
    then show ?thesis using 0 zxyToTileId_loop_fraction[of "fl (1 / 2)" 0] by simp
  next
    case (Suc k)
    have "(2::int) ^ Suc k * 2 ^ Suc k \<le> 2 ^ 26 * 2 ^ 26"
      using z26 Suc by (intro mult_mono) simp_all
    then show ?thesis
      using Suc z z26 x y zxyToTileId_loop_power[of k 0 x y] by (simp only: fl_half_power2) simp
  qed
  have e: "0 \<le> hil_enc z (x, y)" "hil_enc z (x, y) < 2 ^ z * 2 ^ z"
    using hil_enc_range by blast+
  have "tile_base z + 2 ^ z * 2 ^ z \<le> tile_base 27"
    using tile_base_mono[of "Suc z" 27] z by simp
  then have "\<bar>tile_base z + hil_enc z (x, y)\<bar> \<le> 2 ^ 53"
    using e tile_base_27 tile_base_nonneg[of z] by simp
  then have "fl (tzValues ! z + of_int (hil_enc z (x, y))) = of_int (tile_base z + hil_enc z (x, y))"
    using fl_of_int[of "tile_base z + hil_enc z (x, y)"] by (simp add: tzValues_nth[OF z])
  moreover have "\<not> fl (2 ^ z - 1) < (of_int x :: rat)" "\<not> fl (2 ^ z - 1) < (of_int y :: rat)"
    unfolding m of_int_less_iff using x y by simp_all
  ultimately show ?thesis
    using z l by (simp add: zxyToTileId_def)
qed

subsection \<open>Decoding\<close>

lemma hil_dec_mod: "hil_dec k (t mod (2 ^ k * 2 ^ k)) = hil_dec k t"
proof (cases k)
  case (Suc j)
  define m :: int where "m = 2 ^ j * 2 ^ j"
  have e: "(2::int) ^ Suc j * 2 ^ Suc j = m * 4" by (simp add: m_def)
  have "t mod (m * 4) = m * (t div m mod 4) + t mod m"
    by (simp add: zmod_zmult2_eq)
  moreover have "0 < m" by (simp add: m_def)
  ultimately have "t mod (m * 4) div m mod 4 = t div m mod 4" "t mod (m * 4) mod m = t mod m"
    using quot_rem[of "t mod m" m "t div m mod 4"] by simp_all
  then show ?thesis
    unfolding Suc e by (simp only: hil_dec.simps Let_def m_def[symmetric])
qed simp

lemma to_int32_quotient:
  assumes "0 \<le> T" "T < 2 ^ 53" "e \<le> 1074"
  shows "fl (of_int T / 2 ^ e) = of_int T / 2 ^ e"
    and "to_int32 (of_int T / 2 ^ e) = to_i32 (T div 2 ^ e)"
proof -
  have eq: "(of_int T / 2 ^ e :: rat) = of_int T * 2 powi (- int e)"
    by (simp add: power_int_minus_divide)
  show "fl (of_int T / 2 ^ e) = of_int T / 2 ^ e"
    by (rule fl_representable[OF eq]) (use assms in arith)+
  have "\<lfloor>of_int T / (2 ^ e :: rat)\<rfloor> = T div 2 ^ e"
    using floor_divide_of_int_eq[of T "2 ^ e"] by simp
  then show "to_int32 (of_int T / 2 ^ e) = to_i32 (T div 2 ^ e)"
    using assms(1) by (simp add: to_int32_def trunc_rat_def)
qed

text \<open>The curve point of one level more, by the two bits of the level; and one round of the loop.\<close>

lemma hil_dec_digits:
  fixes T :: int and j :: nat
  defines "u \<equiv> T div 2 ^ (2 * j)" and "s \<equiv> 2 ^ j"
  shows "hil_dec (Suc j) T =
    (fst (rot s (hil_dec j T) (u div 2 mod 2) ((u + u div 2 mod 2) mod 2)) + s * (u div 2 mod 2),
     snd (rot s (hil_dec j T) (u div 2 mod 2) ((u + u div 2 mod 2) mod 2)) + s * ((u + u div 2 mod 2) mod 2))"
proof -
  define rx where "rx = u div 2 mod 2"
  define ry where "ry = (u + rx) mod 2"
  have "u mod 4 div 2 = rx" "(u mod 4 + rx) mod 2 = ry" unfolding rx_def ry_def by presburger+
  moreover have "T div (s * s) = u" by (simp add: u_def s_def power_mult power2_eq_square mult.commute[of 2])
  ultimately have "hil_dec (Suc j) T = (fst (rot s (hil_dec j T) rx ry) + s * rx, snd (rot s (hil_dec j T) rx ry) + s * ry)"
    by (simp add: Let_def hil_dec_mod[of j T, folded s_def] s_def[symmetric])
  then show ?thesis by (simp only: ry_def rx_def)
qed

lemma idOnLevel_loop_step:
  assumes "j < z" "z \<le> 26" "0 \<le> T" "T < 2 ^ 53"
  shows "idOnLevel_loop (2 ^ z) (2 ^ j) (of_int T / 2 ^ (2 * j))
      (of_int (fst (hil_dec j T)), of_int (snd (hil_dec j T)))
    = idOnLevel_loop (2 ^ z) (2 ^ Suc j) (of_int T / 2 ^ (2 * Suc j))
      (of_int (fst (hil_dec (Suc j) T)), of_int (snd (hil_dec (Suc j) T)))"
proof -
  define s :: int where "s = 2 ^ j"
  define u where "u = T div 2 ^ (2 * j)"
  define rx where "rx = u div 2 mod 2"
  define ry where "ry = (u + rx) mod 2"
  define p where "p = hil_dec j T"
  define r where "r = rot s p rx ry"
  have b: "rx = 0 \<or> rx = 1" "ry = 0 \<or> ry = 1" by (auto simp: rx_def ry_def)
  have "(2::int) ^ j \<le> 2 ^ 26" using assms(1,2) by (intro power_increasing) simp_all
  then have s: "0 < s" "s \<le> 2 ^ 26" by (simp_all add: s_def)
  have p: "0 \<le> fst p" "fst p < s" "0 \<le> snd p" "snd p < s"
    using hil_dec_range[of j T] by (simp_all add: p_def s_def)
  have r: "0 \<le> fst r" "fst r < s" "0 \<le> snd r" "snd r < s"
    unfolding r_def by (simp_all add: rot_range[OF p])
  have t2: "(of_int T / 2 ^ (2 * j) / 2 :: rat) = of_int T / 2 ^ (2 * j + 1)"
    and t4: "(of_int T / 2 ^ (2 * j) / 4 :: rat) = of_int T / 2 ^ (2 * Suc j)"
    by simp_all
  note q = to_int32_quotient[OF assms(3,4)]
  have "T div 2 ^ (2 * j + 1) = u div 2"
    by (simp add: u_def zdiv_zmult2_eq mult.commute[of 2])
  then have rx': "1 AND to_int32 (fl (of_int T / 2 ^ (2 * j) / 2)) = rx"
    unfolding t2 using assms(1,2) q[of "2 * j + 1"] by (simp add: one_and_i32 rx_def)
  have ry': "1 AND (to_int32 (of_int T / 2 ^ (2 * j)) XOR rx) = ry"
    using assms(1,2) q[of "2 * j"] b(1) by (simp add: one_and_xor_i32 ry_def u_def)
  have t': "fl (of_int T / 2 ^ (2 * j) / 4) = of_int T / 2 ^ (2 * Suc j)"
    unfolding t4 using assms(1,2) by (intro q) simp
  have rot: "rotate_xy (2 ^ j) (of_int (fst p), of_int (snd p)) rx ry = (of_int (fst r), of_int (snd r))"
    unfolding r_def s_def using p s rotate_xy_of_int[of "fst p" j "snd p"] by (simp add: s_def)
  have add: "fl (of_int a + fl (2 ^ j * of_int c)) = of_int (a + s * c)"
    if "0 \<le> a" "a < s" "c = 0 \<or> c = 1" for a c
    using that s fl_of_int[of a] fl_of_int[of "a + s"] by (auto simp: s_def)
  have d: "hil_dec (Suc j) T = (fst r + s * rx, snd r + s * ry)"
    unfolding r_def p_def s_def rx_def ry_def u_def by (rule hil_dec_digits)
  have "fl (2 ^ j * 2) = (2 ^ Suc j :: rat)" using fl_power2[of "Suc j"] by (simp add: mult.commute)
  then show ?thesis
    unfolding d fst_conv snd_conv p_def[symmetric] using assms(1) r b
    by (subst idOnLevel_loop.simps)
      (simp only: Let_def rx' ry' t' rot fst_conv snd_conv add power_strict_increasing_iff, simp)
qed

lemma idOnLevel_loop_correct:
  assumes "j \<le> z" "z \<le> 26" "0 \<le> T" "T < 2 ^ 53"
  shows "idOnLevel_loop (2 ^ z) (2 ^ j) (of_int T / 2 ^ (2 * j))
      (of_int (fst (hil_dec j T)), of_int (snd (hil_dec j T)))
    = Some (of_int (fst (hil_dec z T)), of_int (snd (hil_dec z T)))"
  using assms(1)
proof (induction rule: inc_induct)
  case base
  then show ?case by (subst idOnLevel_loop.simps) simp
next
  case (step j)
  from idOnLevel_loop_step[OF step(2) assms(2-4)] step.IH show ?case by (rule trans)
qed

lemma idOnLevel_correct:
  assumes "z \<le> 26" "0 \<le> T" "T < 2 ^ 53"
  shows "idOnLevel z (of_int T) = Some (z, of_int (fst (hil_dec z T)), of_int (snd (hil_dec z T)))"
  using idOnLevel_loop_correct[of 0 z T] assms by (simp add: idOnLevel_def)

text \<open>The scan over the levels stops at the level whose tiles hold the identifier.\<close>

lemma tileIdToZxy_loop_level:
  assumes "z \<le> 26"
  shows "fl (of_int (tile_base z) + fl (of_int (i32_shl 1 z) * of_int (i32_shl 1 z)))
    = of_int (tile_base (Suc z))"
proof -
  have n: "fl (of_int (i32_shl 1 z) * of_int (i32_shl 1 z)) = (of_int (2 ^ z * 2 ^ z) :: rat)"
    using assms fl_power2[of "z + z"] by (simp add: i32_shl_def push_bit_eq_mult power_add)
  have "tile_base (Suc z) \<le> tile_base 27" using assms by (intro tile_base_mono) simp
  then show ?thesis
    unfolding n using fl_of_int[of "tile_base (Suc z)"] tile_base_nonneg[of z]
    by (simp add: tile_base_27)
qed

lemma tileIdToZxy_loop_skip:
  assumes "z \<le> 26" "tile_base (Suc z) \<le> i"
  shows "tileIdToZxy_loop [z..<27] (of_int (tile_base z)) (of_int i) =
    tileIdToZxy_loop [Suc z..<27] (of_int (tile_base (Suc z))) (of_int i)"
proof -
  have "[z..<27] = z # [Suc z..<27]" using assms(1) by (simp add: upt_conv_Cons)
  then show ?thesis
    using assms by (simp only: tileIdToZxy_loop.simps Let_def tileIdToZxy_loop_level of_int_less_iff) simp
qed

lemma tileIdToZxy_loop_correct:
  assumes "z0 \<le> z" "z \<le> 26" "tile_base z \<le> i" "i < tile_base (Suc z)"
  shows "tileIdToZxy_loop [z0..<27] (of_int (tile_base z0)) (of_int i) =
    Some (Inr (z, of_int (fst (hil_dec z (i - tile_base z))), of_int (snd (hil_dec z (i - tile_base z)))))"
  using assms(1)
proof (induction rule: inc_induct)
  case base
  have "tile_base (Suc z) \<le> tile_base 27" using assms(2) by (intro tile_base_mono) simp
  then have bi: "0 \<le> i - tile_base z" "i - tile_base z < 2 ^ 53"
    using assms(3,4) tile_base_nonneg[of z] by (simp_all add: tile_base_27 del: tile_base.simps)
  then have s: "fl (of_int i - of_int (tile_base z)) = of_int (i - tile_base z)"
    using fl_of_int[of "i - tile_base z"] by simp
  have "[z..<27] = z # [Suc z..<27]" using assms(2) by (simp add: upt_conv_Cons)
  then show ?case
    using assms(4) idOnLevel_correct[OF assms(2) bi]
    by (simp only: tileIdToZxy_loop.simps Let_def tileIdToZxy_loop_level[OF assms(2)] s of_int_less_iff
        if_True option.map)
next
  case (step j)
  have "tile_base (Suc j) \<le> tile_base z" using step by (intro tile_base_mono) simp
  then have "tile_base (Suc j) \<le> i" using assms(3) by simp
  then show ?case
    using step assms(2) by (subst tileIdToZxy_loop_skip) simp_all
qed

lemma tileIdToZxy_correct:
  assumes "z \<le> 26" "0 \<le> t" "t < 2 ^ z * 2 ^ z"
  shows "tileIdToZxy (of_int (tile_base z + t)) =
    Some (Inr (z, of_int (fst (hil_dec z t)), of_int (snd (hil_dec z t))))"
  using tileIdToZxy_loop_correct[of 0 z "tile_base z + t"] assms by (simp add: tileIdToZxy_def)

lemma tile_base_search:
  assumes "0 \<le> i" "i < tile_base n"
  obtains z where "z < n" "tile_base z \<le> i" "i < tile_base (Suc z)"
  using assms
proof (induction n)
  case (Suc n)
  show ?case
  proof (cases "i < tile_base n")
    case True
    then show ?thesis using Suc by (metis less_Suc_eq)
  next
    case False
    then show ?thesis using Suc.prems by (meson lessI not_less)
  qed
qed simp

lemma tileIdToZxy_loop_beyond:
  assumes "z0 \<le> 27" "tile_base 27 \<le> i"
  shows "tileIdToZxy_loop [z0..<27] (of_int (tile_base z0)) (of_int i) =
    Some (Inl (Error ''Tile zoom level exceeds max safe number limit (26)''))"
  using assms(1)
proof (induction rule: inc_induct)
  case (step j)
  have "tile_base (Suc j) \<le> tile_base 27" using step by (intro tile_base_mono) simp
  then have "tile_base (Suc j) \<le> i" using assms(2) by simp
  then show ?case
    using step by (subst tileIdToZxy_loop_skip) simp_all
qed simp

lemma fl_max_coordinate: "z \<le> 26 \<Longrightarrow> fl (2 ^ z - 1) = (2 ^ z - 1 :: rat)"
proof -
  assume "z \<le> 26"
  then have "(2::int) ^ z \<le> 2 ^ 26" by (intro power_increasing) simp_all
  then show ?thesis using fl_of_int[of "2 ^ z - 1"] by simp
qed

section \<open>Properties\<close>

text \<open>
  C11: every tile of the zoom levels 0 to 26 has an identifier, and \<^verbatim>\<open>tileIdToZxy\<close> maps the
  identifier back to the tile.
\<close>

theorem tile_id_roundtrip:
  assumes "z \<le> 26" "0 \<le> x" "x < 2 ^ z" "0 \<le> y" "y < 2 ^ z"
  shows "\<exists>i. zxyToTileId z (of_int x) (of_int y) = Inr i
    \<and> tileIdToZxy i = Some (Inr (z, of_int x, of_int y))"
proof -
  have "zxyToTileId z (of_int x) (of_int y) = Inr (of_int (tile_base z + hil_enc z (x, y)))"
    using assms by (intro zxyToTileId_correct) simp_all
  moreover have "tileIdToZxy (of_int (tile_base z + hil_enc z (x, y))) = Some (Inr (z, of_int x, of_int y))"
    using tileIdToZxy_correct[OF assms(1), of "hil_enc z (x, y)"] hil_enc_range[of z "(x, y)"]
      hil_dec_hil_enc[OF assms(2-5)] by simp
  ultimately show ?thesis by blast
qed

theorem tile_id_roundtrip_witness:
  "\<exists>i. zxyToTileId 3 (of_int 5) (of_int 6) = Inr i \<and> tileIdToZxy i = Some (Inr (3, of_int 5, of_int 6))"
  by (rule tile_id_roundtrip) simp_all

text \<open>
  C33: every identifier below the number of tiles of the levels 0 to 26 is the identifier of the
  tile \<^verbatim>\<open>tileIdToZxy\<close> returns for it, whose coordinates are within its zoom level.
\<close>

theorem tile_id_onto:
  assumes "0 \<le> i" "i < 6004799503160661"
  shows "\<exists>z x y. tileIdToZxy (of_int i) = Some (Inr (z, of_int x, of_int y))
    \<and> z \<le> 26 \<and> 0 \<le> x \<and> x < 2 ^ z \<and> 0 \<le> y \<and> y < 2 ^ z
    \<and> zxyToTileId z (of_int x) (of_int y) = Inr (of_int i)"
proof -
  obtain z where z: "z < 27" "tile_base z \<le> i" "i < tile_base (Suc z)"
    using assms tile_base_27 by (metis tile_base_search)
  define t where "t = i - tile_base z"
  have t: "0 \<le> t" "t < 2 ^ z * 2 ^ z" and i: "i = tile_base z + t"
    using z by (simp_all add: t_def)
  define p where "p = hil_dec z t"
  have p: "0 \<le> fst p" "fst p < 2 ^ z" "0 \<le> snd p" "snd p < 2 ^ z"
    using hil_dec_range[of z t] by (simp_all add: p_def)
  have "zxyToTileId z (of_int (fst p)) (of_int (snd p)) = Inr (of_int (tile_base z + hil_enc z (fst p, snd p)))"
    using z p by (intro zxyToTileId_correct) simp_all
  also have "tile_base z + hil_enc z (fst p, snd p) = i"
    using hil_enc_hil_dec[OF t] by (simp add: p_def i)
  finally show ?thesis
    using tileIdToZxy_correct[of z t] z t p i by (auto simp: p_def)
qed

theorem tile_id_onto_witness:
  "\<exists>z x y. tileIdToZxy (of_int 77) = Some (Inr (z, of_int x, of_int y))
    \<and> z \<le> 26 \<and> 0 \<le> x \<and> x < 2 ^ z \<and> 0 \<le> y \<and> y < 2 ^ z
    \<and> zxyToTileId z (of_int x) (of_int y) = Inr (of_int 77)"
  by (rule tile_id_onto) simp_all

text \<open>
  C34: the identifiers of a zoom level follow a continuous curve: the tiles of two consecutive
  identifiers of one level share an edge.
\<close>

theorem tile_id_neighbours:
  assumes "z \<le> 26" "tile_base z \<le> i" "i + 1 < tile_base (Suc z)"
  shows "\<exists>p q. tileIdToZxy (of_int i) = Some (Inr (z, of_int (fst p), of_int (snd p)))
    \<and> tileIdToZxy (of_int (i + 1)) = Some (Inr (z, of_int (fst q), of_int (snd q)))
    \<and> \<bar>fst p - fst q\<bar> + \<bar>snd p - snd q\<bar> = 1"
proof -
  define t where "t = i - tile_base z"
  have t: "0 \<le> t" "t + 1 < 2 ^ z * 2 ^ z" and i: "i = tile_base z + t"
    using assms by (simp_all add: t_def)
  have "neighbours (hil_dec z t) (hil_dec z (t + 1))"
    using t by (rule hil_dec_neighbours)
  moreover have "tileIdToZxy (of_int i) =
      Some (Inr (z, of_int (fst (hil_dec z t)), of_int (snd (hil_dec z t))))"
    unfolding i using assms(1) t by (intro tileIdToZxy_correct) simp_all
  moreover have "tileIdToZxy (of_int (i + 1)) =
      Some (Inr (z, of_int (fst (hil_dec z (t + 1))), of_int (snd (hil_dec z (t + 1)))))"
    unfolding i add.assoc using assms(1) t by (intro tileIdToZxy_correct) simp_all
  ultimately show ?thesis unfolding neighbours_def by blast
qed

theorem tile_id_neighbours_witness:
  "\<exists>p q. tileIdToZxy (of_int 7) = Some (Inr (2, of_int (fst p), of_int (snd p)))
    \<and> tileIdToZxy (of_int (7 + 1)) = Some (Inr (2, of_int (fst q), of_int (snd q)))
    \<and> \<bar>fst p - fst q\<bar> + \<bar>snd p - snd q\<bar> = 1"
  by (rule tile_id_neighbours) (simp_all add: numeral_2_eq_2)

text \<open>
  The guards. A zoom level above 26, or a coordinate above \<open>2^z - 1\<close>, is refused with the error
  of that guard; an identifier past the last tile of level 26 is refused by \<^verbatim>\<open>tileIdToZxy\<close>.
\<close>

theorem tile_id_errors:
  "(26 < z \<longrightarrow> zxyToTileId z x y = Inl (Error ''Tile zoom level exceeds max safe number limit (26)''))
   \<and> (z \<le> 26 \<and> (2 ^ z - 1 < x \<or> 2 ^ z - 1 < y) \<longrightarrow>
        zxyToTileId z x y = Inl (Error ''tile x/y outside zoom level bounds''))
   \<and> (z \<le> 26 \<and> x \<le> 2 ^ z - 1 \<and> y \<le> 2 ^ z - 1 \<longrightarrow> (\<exists>i. zxyToTileId z x y = Inr i))
   \<and> (6004799503160661 \<le> i \<longrightarrow>
        tileIdToZxy (of_int i) = Some (Inl (Error ''Tile zoom level exceeds max safe number limit (26)'')))"
  using tileIdToZxy_loop_beyond[of 0 i]
  by (auto simp: zxyToTileId_def fl_max_coordinate tileIdToZxy_def tile_base_27)

theorem tile_id_errors_witness:
  "zxyToTileId 27 0 0 = Inl (Error ''Tile zoom level exceeds max safe number limit (26)'')
   \<and> zxyToTileId 2 4 0 = Inl (Error ''tile x/y outside zoom level bounds'')
   \<and> (\<exists>i. zxyToTileId 2 3 3 = Inr i)
   \<and> tileIdToZxy (of_int 6004799503160661) =
        Some (Inl (Error ''Tile zoom level exceeds max safe number limit (26)''))"
  using tile_id_errors[of 27 0 0 0] tile_id_errors[of 2 4 0 0] tile_id_errors[of 2 3 3 6004799503160661]
  by simp

text \<open>
  Only the upper bound of the coordinates is checked. A negative coordinate is accepted and
  wraps around: the identifier is the one of the tile \<open>x mod 2^z\<close>, \<open>y mod 2^z\<close>.
\<close>

theorem tile_id_negative_wraps:
  assumes "z \<le> 26" "- (2 ^ 52) \<le> x" "x < 2 ^ z" "- (2 ^ 52) \<le> y" "y < 2 ^ z"
  shows "zxyToTileId z (of_int x) (of_int y) = zxyToTileId z (of_int (x mod 2 ^ z)) (of_int (y mod 2 ^ z))"
proof -
  have "hil_enc z (x mod 2 ^ z, y mod 2 ^ z) = hil_enc z (x, y)"
    by (rule hil_enc_cong) simp_all
  moreover have "zxyToTileId z (of_int (x mod 2 ^ z)) (of_int (y mod 2 ^ z))
      = Inr (of_int (tile_base z + hil_enc z (x mod 2 ^ z, y mod 2 ^ z)))"
    using assms(1) by (intro zxyToTileId_correct) (simp_all add: order_trans[of _ 0])
  ultimately show ?thesis
    using zxyToTileId_correct[OF assms] by simp
qed

theorem tile_id_negative_wraps_witness:
  "zxyToTileId 4 (of_int (- 3)) (of_int 2) = zxyToTileId 4 (of_int (- 3 mod 2 ^ 4)) (of_int (2 mod 2 ^ 4))"
  by (rule tile_id_negative_wraps) simp_all

end
