(* ===== verification/Bytes.thy ===== *)
theory Bytes
  imports Js_Number
begin

text \<open>
  Byte buffers: an \<^verbatim>\<open>ArrayBuffer\<close> is a list of bytes. Reading an element of an
  \<^verbatim>\<open>Uint8Array\<close> outside of it gives \<^verbatim>\<open>undefined\<close> (\<open>None\<close>), which the bit operators
  read as 0 and every comparison refuses; a \<^verbatim>\<open>DataView\<close> read outside of it throws. All
  multi-byte reads of the code are little-endian.
\<close>

type_synonym bytes = "8 word list"

section \<open>Uint8Array\<close>

definition u8_at :: "bytes \<Rightarrow> nat \<Rightarrow> 8 word option" where
  "u8_at buf i = (if i < length buf then Some (buf ! i) else None)"

definition byte_and :: "8 word option \<Rightarrow> 8 word \<Rightarrow> 32 word" where
  "byte_and b m = (case b of None \<Rightarrow> 0 | Some v \<Rightarrow> ucast (v AND m))"

definition byte_less :: "8 word option \<Rightarrow> 8 word \<Rightarrow> bool" where
  "byte_less b m = (case b of None \<Rightarrow> False | Some v \<Rightarrow> v < m)"

lemma u8_at_append [simp]:
  "u8_at (xs @ ys) (length xs + i) = u8_at ys i" "u8_at (xs @ ys) (length xs) = u8_at ys 0"
  by (auto simp: u8_at_def nth_append)

lemma u8_at_Cons [simp]:
  "u8_at (x # xs) 0 = Some x" "u8_at (x # xs) (Suc i) = u8_at xs i"
  by (auto simp: u8_at_def)

lemma u8_at_Nil [simp]: "u8_at [] i = None"
  by (simp add: u8_at_def)

lemma byte_None [simp]: "byte_and None m = 0" "byte_less None m = False"
  by (simp_all add: byte_and_def byte_less_def)

lemma byte_and_None_iff: "byte_less b m \<Longrightarrow> \<exists>v. b = Some v \<and> v < m"
  by (cases b) (simp_all add: byte_less_def)

section \<open>DataView\<close>

definition getUint8 :: "bytes \<Rightarrow> nat \<Rightarrow> js_error + int" where
  "getUint8 v i = (if i < length v then Inr (uint (v ! i)) else Inl Range_error)"

definition getUint16 :: "bytes \<Rightarrow> nat \<Rightarrow> js_error + int" where
  "getUint16 v i =
     (if i + 2 \<le> length v then Inr (uint (v ! i) + 2 ^ 8 * uint (v ! (i + 1))) else Inl Range_error)"

definition getUint32 :: "bytes \<Rightarrow> nat \<Rightarrow> js_error + int" where
  "getUint32 v i =
     (if i + 4 \<le> length v
      then Inr (uint (v ! i) + 2 ^ 8 * uint (v ! (i + 1)) + 2 ^ 16 * uint (v ! (i + 2))
                + 2 ^ 24 * uint (v ! (i + 3)))
      else Inl Range_error)"

definition getInt32 :: "bytes \<Rightarrow> nat \<Rightarrow> js_error + int" where
  "getInt32 v i = map_sum id to_i32 (getUint32 v i)"

text \<open>\<^verbatim>\<open>ArrayBuffer.prototype.slice\<close> with arguments that are nonnegative integers.\<close>

definition slice :: "bytes \<Rightarrow> int \<Rightarrow> int \<Rightarrow> bytes" where
  "slice b from to = take (nat to - nat from) (drop (nat from) b)"

subsection \<open>Little-endian fields\<close>

primrec le_bytes :: "nat \<Rightarrow> int \<Rightarrow> bytes" where
  "le_bytes 0 x = []"
| "le_bytes (Suc n) x = word_of_int x # le_bytes n (x div 2 ^ 8)"

lemma length_le_bytes [simp]: "length (le_bytes n x) = n"
  by (induction n arbitrary: x) simp_all

lemma uint_byte_range: "0 \<le> uint (b :: 8 word)" "uint (b :: 8 word) \<le> 255"
proof -
  show "0 \<le> uint b" by simp
  have "uint b < 2 ^ LENGTH(8)" by (rule uint_lt2p)
  then show "uint b \<le> 255" by (simp only: len_num0 len_bit0 len_num1) simp
qed

lemma uint_word_of_int_byte: "uint (word_of_int x :: 8 word) = x mod 2 ^ 8"
  by (simp add: uint_word_of_int)

lemma getUint8_range: "getUint8 v i = Inr x \<Longrightarrow> 0 \<le> x \<and> x < 2 ^ 8"
  using uint_byte_range[of "v ! i"] by (auto simp: getUint8_def split: if_splits)

lemma getUint16_range: "getUint16 v i = Inr x \<Longrightarrow> 0 \<le> x \<and> x < 2 ^ 16"
proof -
  assume "getUint16 v i = Inr x"
  then have "x = uint (v ! i) + 256 * uint (v ! (i + 1))"
    by (simp add: getUint16_def split: if_splits)
  then have "0 \<le> x \<and> x < 65536"
    using uint_byte_range[of "v ! i"] uint_byte_range[of "v ! (i + 1)"] by (intro conjI) linarith+
  then show ?thesis by simp
qed

lemma getUint32_range: "getUint32 v i = Inr x \<Longrightarrow> 0 \<le> x \<and> x < 2 ^ 32"
proof -
  assume "getUint32 v i = Inr x"
  then have "x = uint (v ! i) + 256 * uint (v ! (i + 1)) + 65536 * uint (v ! (i + 2))
      + 16777216 * uint (v ! (i + 3))"
    by (simp add: getUint32_def split: if_splits)
  then have "0 \<le> x \<and> x < 4294967296"
    using uint_byte_range[of "v ! i"] uint_byte_range[of "v ! (i + 1)"]
      uint_byte_range[of "v ! (i + 2)"] uint_byte_range[of "v ! (i + 3)"] by (intro conjI) linarith+
  then show ?thesis by simp
qed

lemma getInt32_range: "getInt32 v i = Inr x \<Longrightarrow> - (2 ^ 31) \<le> x \<and> x < 2 ^ 31"
  using to_i32_range by (cases "getUint32 v i") (auto simp: getInt32_def)

text \<open>Reading at the start of a buffer, after a prefix of known length, and of an encoded field.\<close>

lemma get_append [bytes_simps]:
  "length p = i \<Longrightarrow> getUint8 (p @ v) i = getUint8 v 0"
  "length p = i \<Longrightarrow> getUint16 (p @ v) i = getUint16 v 0"
  "length p = i \<Longrightarrow> getUint32 (p @ v) i = getUint32 v 0"
  "length p = i \<Longrightarrow> getInt32 (p @ v) i = getInt32 v 0"
  by (auto simp: getUint8_def getUint16_def getUint32_def getInt32_def nth_append numeral_2_eq_2 numeral_3_eq_3)

lemma getUint8_le [bytes_simps]:
  assumes "0 \<le> x" "x < 2 ^ 8"
  shows "getUint8 (le_bytes 1 x @ r) 0 = Inr x"
  using assms by (simp add: getUint8_def uint_word_of_int_byte mod_pos_pos_trivial)

lemma getUint16_le [bytes_simps]:
  assumes "0 \<le> x" "x < 2 ^ 16"
  shows "getUint16 (le_bytes 2 x @ r) 0 = Inr x"
proof -
  have "x mod 2 ^ 8 + 2 ^ 8 * (x div 2 ^ 8 mod 2 ^ 8) = x"
    using assms by (simp add: mod_pos_pos_trivial div_pos_pos_trivial)
  then show ?thesis
    by (simp add: getUint16_def uint_word_of_int_byte numeral_2_eq_2)
qed

lemma getUint32_le [bytes_simps]:
  assumes "0 \<le> x" "x < 2 ^ 32"
  shows "getUint32 (le_bytes 4 x @ r) 0 = Inr x"
proof -
  have "x mod 2 ^ 8 + 2 ^ 8 * (x div 2 ^ 8 mod 2 ^ 8) + 2 ^ 16 * (x div 2 ^ 8 div 2 ^ 8 mod 2 ^ 8)
      + 2 ^ 24 * (x div 2 ^ 8 div 2 ^ 8 div 2 ^ 8 mod 2 ^ 8) = x"
    using assms by simp presburger
  then show ?thesis
    by (simp add: getUint32_def uint_word_of_int_byte eval_nat_numeral)
qed

end
