(* ===== verification/Varint.thy ===== *)
theory Varint
  imports Bytes
begin

text \<open>
  The variable-length integers of a directory, \<^verbatim>\<open>readVarint\<close>, \<^verbatim>\<open>readVarintRemainder\<close>
  and \<^verbatim>\<open>toNum\<close> of \<^verbatim>\<open>src/app/static/js/pmtiles.js\<close>. The cursor \<open>p\<close> is the buffer
  and the position, the result the number read and the new position. The two halves of the number
  are 32-bit words; their sum is a JavaScript number, exact up to \<open>2^53\<close> and rounded beyond.
\<close>

section \<open>The code\<close>

definition toNum :: "32 word \<Rightarrow> 32 word \<Rightarrow> int" where
  "toNum low high = fli (uint high * 4294967296 + uint low)"

definition readVarintRemainder :: "32 word \<Rightarrow> bytes \<Rightarrow> nat \<Rightarrow> js_error + int \<times> nat" where
  "readVarintRemainder l buf pos =
     (let b = u8_at buf pos; h = drop_bit 4 (byte_and b 112) in
      if byte_less b 128 then Inr (toNum l h, pos + 1) else
      let b = u8_at buf (pos + 1); h = h OR push_bit 3 (byte_and b 127) in
      if byte_less b 128 then Inr (toNum l h, pos + 2) else
      let b = u8_at buf (pos + 2); h = h OR push_bit 10 (byte_and b 127) in
      if byte_less b 128 then Inr (toNum l h, pos + 3) else
      let b = u8_at buf (pos + 3); h = h OR push_bit 17 (byte_and b 127) in
      if byte_less b 128 then Inr (toNum l h, pos + 4) else
      let b = u8_at buf (pos + 4); h = h OR push_bit 24 (byte_and b 127) in
      if byte_less b 128 then Inr (toNum l h, pos + 5) else
      let b = u8_at buf (pos + 5); h = h OR push_bit 31 (byte_and b 1) in
      if byte_less b 128 then Inr (toNum l h, pos + 6)
      else Inl (Error ''Expected varint not more than 10 bytes''))"

definition readVarint :: "bytes \<Rightarrow> nat \<Rightarrow> js_error + int \<times> nat" where
  "readVarint buf pos =
     (let b = u8_at buf pos; val = byte_and b 127 in
      if byte_less b 128 then Inr (sint val, pos + 1) else
      let b = u8_at buf (pos + 1); val = val OR push_bit 7 (byte_and b 127) in
      if byte_less b 128 then Inr (sint val, pos + 2) else
      let b = u8_at buf (pos + 2); val = val OR push_bit 14 (byte_and b 127) in
      if byte_less b 128 then Inr (sint val, pos + 3) else
      let b = u8_at buf (pos + 3); val = val OR push_bit 21 (byte_and b 127) in
      if byte_less b 128 then Inr (sint val, pos + 4) else
      let b = u8_at buf (pos + 4); val = val OR push_bit 28 (byte_and b 15)
      in readVarintRemainder val buf (pos + 4))"

section \<open>The encoding\<close>

text \<open>The reference encoder: seven bits per byte, the low ones first, the top bit set on all but the last.\<close>

definition last_byte :: "nat \<Rightarrow> 8 word" where
  "last_byte d = of_nat d"

definition more_byte :: "nat \<Rightarrow> 8 word" where
  "more_byte d = of_nat (d + 128)"

fun enc_varint :: "nat \<Rightarrow> bytes" where
  "enc_varint n = (if n < 128 then [last_byte n] else more_byte (n mod 128) # enc_varint (n div 128))"

declare enc_varint.simps [simp del]

lemma enc_varint_small: "n < 128 \<Longrightarrow> enc_varint n = [last_byte n]"
  by (simp add: enc_varint.simps)

lemma enc_varint_large: "128 \<le> n \<Longrightarrow> enc_varint n = more_byte (n mod 128) # enc_varint (n div 128)"
  by (subst enc_varint.simps) simp

lemma byte_small_all:
  "list_all (\<lambda>n. byte_less (Some (last_byte n)) 128 \<and> \<not> byte_less (Some (more_byte n)) 128
    \<and> uint (byte_and (Some (last_byte n)) 127) = int n \<and> uint (byte_and (Some (more_byte n)) 127) = int n
    \<and> uint (byte_and (Some (last_byte n)) 15) = int (n mod 16)
    \<and> uint (byte_and (Some (more_byte n)) 15) = int (n mod 16)
    \<and> uint (byte_and (Some (last_byte n)) 1) = int (n mod 2)
    \<and> uint (byte_and (Some (more_byte n)) 1) = int (n mod 2)
    \<and> uint (byte_and (Some (last_byte n)) 112) = int (n div 16 * 16)
    \<and> uint (byte_and (Some (more_byte n)) 112) = int (n div 16 * 16)) [0..<128]"
  by code_simp

lemma byte_small:
  assumes "n < 128"
  shows "byte_less (Some (last_byte n)) 128" "\<not> byte_less (Some (more_byte n)) 128"
    "uint (byte_and (Some (last_byte n)) 127) = int n" "uint (byte_and (Some (more_byte n)) 127) = int n"
    "uint (byte_and (Some (last_byte n)) 15) = int (n mod 16)"
    "uint (byte_and (Some (more_byte n)) 15) = int (n mod 16)"
    "uint (byte_and (Some (last_byte n)) 1) = int (n mod 2)"
    "uint (byte_and (Some (more_byte n)) 1) = int (n mod 2)"
    "uint (byte_and (Some (last_byte n)) 112) = int (n div 16 * 16)"
    "uint (byte_and (Some (more_byte n)) 112) = int (n div 16 * 16)"
proof -
  have "n \<in> set [0..<128]" using assms by simp
  note b = byte_small_all[unfolded list_all_iff, THEN bspec, OF this]
  from b show "byte_less (Some (last_byte n)) 128" "\<not> byte_less (Some (more_byte n)) 128"
    "uint (byte_and (Some (last_byte n)) 127) = int n" "uint (byte_and (Some (more_byte n)) 127) = int n"
    "uint (byte_and (Some (last_byte n)) 15) = int (n mod 16)"
    "uint (byte_and (Some (more_byte n)) 15) = int (n mod 16)"
    "uint (byte_and (Some (last_byte n)) 1) = int (n mod 2)"
    "uint (byte_and (Some (more_byte n)) 1) = int (n mod 2)"
    "uint (byte_and (Some (last_byte n)) 112) = int (n div 16 * 16)"
    "uint (byte_and (Some (more_byte n)) 112) = int (n div 16 * 16)"
    by blast+
qed

lemma uint_or_push_bit:
  fixes a b :: "32 word"
  assumes "uint a < 2 ^ k" "uint b < 2 ^ j" "k + j \<le> 32"
  shows "uint (a OR push_bit k b) = uint a + uint b * 2 ^ k \<and> uint (a OR push_bit k b) < 2 ^ (k + j)"
proof -
  have "(uint b + 1) * 2 ^ k \<le> 2 ^ j * 2 ^ k"
    using assms(2) by (intro mult_right_mono) simp_all
  then have sum: "uint a + uint b * 2 ^ k < 2 ^ (k + j)"
    using assms(1) by (simp add: power_add algebra_simps)
  also have "(2::int) ^ (k + j) \<le> 2 ^ 32"
    using assms(3) by (intro power_increasing) simp_all
  finally have "uint b * 2 ^ k < 2 ^ 32"
    using uint_ge_0[of a] by linarith
  then have p: "uint (push_bit k b) = push_bit k (uint b)"
    by (subst unsigned_push_bit_eq) (simp add: push_bit_eq_mult take_bit_int_eq_self)
  have "take_bit k (uint a) = uint a"
    using assms(1) by (simp add: take_bit_int_eq_self)
  then have "\<not> bit (uint a) n" if "k \<le> n" for n
    using that by (metis bit_take_bit_iff not_le)
  then have "uint a OR push_bit k (uint b) = uint a + push_bit k (uint b)"
    by (intro disjunctive_add [symmetric]) (auto simp: bit_push_bit_iff_int)
  then have "uint (a OR push_bit k b) = uint a + uint b * 2 ^ k"
    by (simp only: unsigned_or_eq p) (simp only: push_bit_eq_mult)
  with sum show ?thesis by simp
qed

text \<open>The two halves, digit by digit.\<close>

lemma low_half:
  fixes a b c d e :: "32 word"
  assumes "uint a < 2 ^ 7" "uint b < 2 ^ 7" "uint c < 2 ^ 7" "uint d < 2 ^ 7" "uint e < 2 ^ 4"
  shows "uint (a OR push_bit 7 b) = uint a + uint b * 2 ^ 7"
    "uint ((a OR push_bit 7 b) OR push_bit 14 c) = uint a + uint b * 2 ^ 7 + uint c * 2 ^ 14"
    "uint (((a OR push_bit 7 b) OR push_bit 14 c) OR push_bit 21 d)
      = uint a + uint b * 2 ^ 7 + uint c * 2 ^ 14 + uint d * 2 ^ 21"
    "uint ((((a OR push_bit 7 b) OR push_bit 14 c) OR push_bit 21 d) OR push_bit 28 e)
      = uint a + uint b * 2 ^ 7 + uint c * 2 ^ 14 + uint d * 2 ^ 21 + uint e * 2 ^ 28"
proof -
  note 1 = uint_or_push_bit[OF assms(1,2), simplified]
  note 2 = uint_or_push_bit[of "a OR push_bit 7 b" 14 c 7, OF _ assms(3)]
  note 3 = uint_or_push_bit[of "(a OR push_bit 7 b) OR push_bit 14 c" 21 d 7, OF _ assms(4)]
  note 4 = uint_or_push_bit[of "((a OR push_bit 7 b) OR push_bit 14 c) OR push_bit 21 d" 28 e 4, OF _ assms(5)]
  show "uint (a OR push_bit 7 b) = uint a + uint b * 2 ^ 7" using 1 by simp
  with 1 2 show "uint ((a OR push_bit 7 b) OR push_bit 14 c) = uint a + uint b * 2 ^ 7 + uint c * 2 ^ 14"
    by simp
  with 1 2 3 show "uint (((a OR push_bit 7 b) OR push_bit 14 c) OR push_bit 21 d)
      = uint a + uint b * 2 ^ 7 + uint c * 2 ^ 14 + uint d * 2 ^ 21"
    by simp
  with 1 2 3 4 show "uint ((((a OR push_bit 7 b) OR push_bit 14 c) OR push_bit 21 d) OR push_bit 28 e)
      = uint a + uint b * 2 ^ 7 + uint c * 2 ^ 14 + uint d * 2 ^ 21 + uint e * 2 ^ 28"
    by simp
qed

lemma high_half:
  fixes a b c d e f :: "32 word"
  assumes "uint a < 2 ^ 3" "uint b < 2 ^ 7" "uint c < 2 ^ 7" "uint d < 2 ^ 7" "uint e < 2 ^ 7" "uint f < 2 ^ 1"
  shows "uint (a OR push_bit 3 b) = uint a + uint b * 2 ^ 3"
    "uint ((a OR push_bit 3 b) OR push_bit 10 c) = uint a + uint b * 2 ^ 3 + uint c * 2 ^ 10"
    "uint (((a OR push_bit 3 b) OR push_bit 10 c) OR push_bit 17 d)
      = uint a + uint b * 2 ^ 3 + uint c * 2 ^ 10 + uint d * 2 ^ 17"
    "uint ((((a OR push_bit 3 b) OR push_bit 10 c) OR push_bit 17 d) OR push_bit 24 e)
      = uint a + uint b * 2 ^ 3 + uint c * 2 ^ 10 + uint d * 2 ^ 17 + uint e * 2 ^ 24"
    "uint (((((a OR push_bit 3 b) OR push_bit 10 c) OR push_bit 17 d) OR push_bit 24 e) OR push_bit 31 f)
      = uint a + uint b * 2 ^ 3 + uint c * 2 ^ 10 + uint d * 2 ^ 17 + uint e * 2 ^ 24 + uint f * 2 ^ 31"
proof -
  note 1 = uint_or_push_bit[OF assms(1,2), simplified]
  note 2 = uint_or_push_bit[of "a OR push_bit 3 b" 10 c 7, OF _ assms(3)]
  note 3 = uint_or_push_bit[of "(a OR push_bit 3 b) OR push_bit 10 c" 17 d 7, OF _ assms(4)]
  note 4 = uint_or_push_bit[of "((a OR push_bit 3 b) OR push_bit 10 c) OR push_bit 17 d" 24 e 7, OF _ assms(5)]
  note 5 = uint_or_push_bit[of "(((a OR push_bit 3 b) OR push_bit 10 c) OR push_bit 17 d) OR push_bit 24 e" 31 f 1,
      OF _ assms(6)]
  show "uint (a OR push_bit 3 b) = uint a + uint b * 2 ^ 3" using 1 by simp
  with 1 2 show "uint ((a OR push_bit 3 b) OR push_bit 10 c) = uint a + uint b * 2 ^ 3 + uint c * 2 ^ 10"
    by simp
  with 1 2 3 show "uint (((a OR push_bit 3 b) OR push_bit 10 c) OR push_bit 17 d)
      = uint a + uint b * 2 ^ 3 + uint c * 2 ^ 10 + uint d * 2 ^ 17"
    by simp
  with 1 2 3 4 show "uint ((((a OR push_bit 3 b) OR push_bit 10 c) OR push_bit 17 d) OR push_bit 24 e)
      = uint a + uint b * 2 ^ 3 + uint c * 2 ^ 10 + uint d * 2 ^ 17 + uint e * 2 ^ 24"
    by simp
  with 1 2 3 4 5 show
    "uint (((((a OR push_bit 3 b) OR push_bit 10 c) OR push_bit 17 d) OR push_bit 24 e) OR push_bit 31 f)
      = uint a + uint b * 2 ^ 3 + uint c * 2 ^ 10 + uint d * 2 ^ 17 + uint e * 2 ^ 24 + uint f * 2 ^ 31"
    by simp
qed


section \<open>Reading back what was encoded\<close>

lemma u8_at_prefix:
  "u8_at (pre @ ys) (length pre) = u8_at ys 0"
  "u8_at (pre @ ys) (Suc (length pre)) = u8_at ys 1"
  "u8_at (pre @ ys) (Suc (Suc (length pre))) = u8_at ys 2"
  "u8_at (pre @ ys) (length pre + k) = u8_at ys k"
  "u8_at (x # ys) (numeral n) = u8_at ys (pred_numeral n)"
  by (simp_all add: u8_at_def nth_append numeral_eq_Suc)

lemma sint_small:
  fixes w :: "32 word"
  assumes "uint w < 2 ^ 31"
  shows "sint w = uint w"
proof -
  have "sint w = signed_take_bit 31 (uint w)" by (simp add: sint_uint)
  also have "\<dots> = uint w"
    by (rule signed_take_bit_int_eq_self) (use assms uint_ge_0[of w] in linarith)+
  finally show ?thesis .
qed

lemma uint_drop_16:
  assumes "c < 128"
  shows "uint (drop_bit 4 (byte_and (Some (last_byte c)) 112)) = int (c div 16)"
    "uint (drop_bit 4 (byte_and (Some (more_byte c)) 112)) = int (c div 16)"
proof -
  have "drop_bit 4 (take_bit 32 (int (c div 16 * 16))) = int (c div 16)"
    using assms by (subst take_bit_int_eq_self) (simp_all add: drop_bit_eq_div)
  then show "uint (drop_bit 4 (byte_and (Some (last_byte c)) 112)) = int (c div 16)"
    "uint (drop_bit 4 (byte_and (Some (more_byte c)) 112)) = int (c div 16)"
    by (simp_all only: unsigned_drop_bit_eq byte_small[OF assms] len_num0 len_bit0 len_num1) simp_all
qed

lemmas varint_steps = Let_def u8_at_prefix byte_small uint_drop_16

text \<open>The bytes of the high half, by their number.\<close>

lemma readVarintRemainder_1:
  assumes "c0 < 128"
  shows "readVarintRemainder w (pre @ last_byte c0 # rest) (length pre)
    = Inr (fli ((int (c0 div 16)) * 4294967296 + uint w), length pre + 1)"
  using assms by (simp add: readVarintRemainder_def varint_steps toNum_def)

lemma readVarintRemainder_2:
  assumes "c0 < 128" "c1 < 128"
  shows "readVarintRemainder w (pre @ more_byte c0 # last_byte c1 # rest) (length pre)
    = Inr (fli ((int (c0 div 16) + int c1 * 2 ^ 3) * 4294967296 + uint w), length pre + 2)"
  using assms by (simp add: readVarintRemainder_def varint_steps toNum_def distrib_right high_half(1)[where c = 0 and d = 0 and e = 0 and f = 0])

lemma readVarintRemainder_3:
  assumes "c0 < 128" "c1 < 128" "c2 < 128"
  shows "readVarintRemainder w (pre @ more_byte c0 # more_byte c1 # last_byte c2 # rest) (length pre)
    = Inr (fli ((int (c0 div 16) + int c1 * 2 ^ 3 + int c2 * 2 ^ 10) * 4294967296 + uint w), length pre + 3)"
  using assms by (simp add: readVarintRemainder_def varint_steps toNum_def distrib_right high_half(2)[where d = 0 and e = 0 and f = 0])

lemma readVarintRemainder_4:
  assumes "c0 < 128" "c1 < 128" "c2 < 128" "c3 < 128"
  shows "readVarintRemainder w (pre @ more_byte c0 # more_byte c1 # more_byte c2 # last_byte c3 # rest) (length pre)
    = Inr (fli ((int (c0 div 16) + int c1 * 2 ^ 3 + int c2 * 2 ^ 10 + int c3 * 2 ^ 17) * 4294967296 + uint w), length pre + 4)"
  using assms by (simp add: readVarintRemainder_def varint_steps toNum_def distrib_right high_half(3)[where e = 0 and f = 0])

lemma readVarintRemainder_5:
  assumes "c0 < 128" "c1 < 128" "c2 < 128" "c3 < 128" "c4 < 128"
  shows "readVarintRemainder w (pre @ more_byte c0 # more_byte c1 # more_byte c2 # more_byte c3 # last_byte c4 # rest) (length pre)
    = Inr (fli ((int (c0 div 16) + int c1 * 2 ^ 3 + int c2 * 2 ^ 10 + int c3 * 2 ^ 17 + int c4 * 2 ^ 24) * 4294967296 + uint w), length pre + 5)"
  using assms by (simp add: readVarintRemainder_def varint_steps toNum_def distrib_right high_half(4)[where f = 0])

lemma readVarintRemainder_6:
  assumes "c0 < 128" "c1 < 128" "c2 < 128" "c3 < 128" "c4 < 128" "c5 < 128"
  shows "readVarintRemainder w (pre @ more_byte c0 # more_byte c1 # more_byte c2 # more_byte c3 # more_byte c4 # last_byte c5 # rest) (length pre)
    = Inr (fli ((int (c0 div 16) + int c1 * 2 ^ 3 + int c2 * 2 ^ 10 + int c3 * 2 ^ 17 + int c4 * 2 ^ 24 + int (c5 mod 2) * 2 ^ 31) * 4294967296 + uint w), length pre + 6)"
  using assms by (simp add: readVarintRemainder_def varint_steps toNum_def distrib_right high_half(5))

text \<open>The bytes of the low half, and the whole of a number below \<open>2^28\<close>.\<close>

lemma readVarint_1:
  assumes "c0 < 128"
  shows "readVarint (pre @ last_byte c0 # rest) (length pre)
    = Inr (int c0, length pre + 1)"
  using assms by (simp add: readVarint_def varint_steps sint_small)

lemma readVarint_2:
  assumes "c0 < 128" "c1 < 128"
  shows "readVarint (pre @ more_byte c0 # last_byte c1 # rest) (length pre)
    = Inr (int c0 + int c1 * 2 ^ 7, length pre + 2)"
  using assms by (simp add: readVarint_def varint_steps sint_small low_half(1)[where c = 0 and d = 0 and e = 0])

lemma readVarint_3:
  assumes "c0 < 128" "c1 < 128" "c2 < 128"
  shows "readVarint (pre @ more_byte c0 # more_byte c1 # last_byte c2 # rest) (length pre)
    = Inr (int c0 + int c1 * 2 ^ 7 + int c2 * 2 ^ 14, length pre + 3)"
  using assms by (simp add: readVarint_def varint_steps sint_small low_half(2)[where d = 0 and e = 0])

lemma readVarint_4:
  assumes "c0 < 128" "c1 < 128" "c2 < 128" "c3 < 128"
  shows "readVarint (pre @ more_byte c0 # more_byte c1 # more_byte c2 # last_byte c3 # rest) (length pre)
    = Inr (int c0 + int c1 * 2 ^ 7 + int c2 * 2 ^ 14 + int c3 * 2 ^ 21, length pre + 4)"
  using assms by (simp add: readVarint_def varint_steps sint_small low_half(3)[where e = 0])

text \<open>The encoding of a number, digit by digit.\<close>

lemma enc_varint_digit:
  assumes "c < 128"
  shows "enc_varint (c + 128 * m) = (if m = 0 then [last_byte c] else more_byte c # enc_varint m)"
  using assms by (cases "m = 0") (simp_all add: enc_varint_small enc_varint_large)

lemma next_digit:
  obtains c r where "(m :: nat) = c + 128 * r" "c < 128"
    "enc_varint m = (if r = 0 then [last_byte c] else more_byte c # enc_varint r)"
    "int m = int c + 128 * int r" "m = 0 \<longleftrightarrow> c = 0 \<and> r = 0"
proof -
  define c r where "c = m mod 128" and "r = m div 128"
  then have m: "m = c + 128 * r" "c < 128" by simp_all
  then show thesis
    by (intro that[of c r]) (simp_all add: enc_varint_digit)
qed

lemma div_16: "int ((c + 128 * m) div 16) = int (c div 16) + int m * 8"
proof -
  have "(c + 128 * m) div 16 = c div 16 + m * 8" by presburger
  then show ?thesis by simp
qed

lemma readVarintRemainder_enc:
  assumes "m < 2 ^ 36"
  shows "readVarintRemainder w (pre @ enc_varint m @ rest) (length pre)
    = Inr (fli (int (m div 16) * 4294967296 + uint w), length pre + length (enc_varint m))"
proof -
  obtain c0 m1 where 0: "m = c0 + 128 * m1" "c0 < 128"
    and e0: "enc_varint m = (if m1 = 0 then [last_byte c0] else more_byte c0 # enc_varint m1)"
    by (rule next_digit)
  obtain c1 m2 where 1: "m1 = c1 + 128 * m2" "c1 < 128"
    and e1: "enc_varint m1 = (if m2 = 0 then [last_byte c1] else more_byte c1 # enc_varint m2)"
      "int m1 = int c1 + 128 * int m2"
    by (rule next_digit)
  obtain c2 m3 where 2: "m2 = c2 + 128 * m3" "c2 < 128"
    and e2: "enc_varint m2 = (if m3 = 0 then [last_byte c2] else more_byte c2 # enc_varint m3)"
      "int m2 = int c2 + 128 * int m3"
    by (rule next_digit)
  obtain c3 m4 where 3: "m3 = c3 + 128 * m4" "c3 < 128"
    and e3: "enc_varint m3 = (if m4 = 0 then [last_byte c3] else more_byte c3 # enc_varint m4)"
      "int m3 = int c3 + 128 * int m4"
    by (rule next_digit)
  obtain c4 m5 where 4: "m4 = c4 + 128 * m5" "c4 < 128"
    and e4: "enc_varint m4 = (if m5 = 0 then [last_byte c4] else more_byte c4 # enc_varint m5)"
      "int m4 = int c4 + 128 * int m5"
    by (rule next_digit)
  have 5: "m5 < 2" using assms 0 1 2 3 4 by simp
  then have e5: "enc_varint m5 = [last_byte m5]" "m5 < 128" "m5 mod 2 = m5" "int m5 mod 2 = int m5"
    by (simp_all add: enc_varint_small)
  have d: "int (m div 16) = int (c0 div 16) + int m1 * 8"
    unfolding 0(1) by (rule div_16)
  note c = 0(2) 1(2) 2(2) 3(2) 4(2) and e = e0 e1 e2 e3 e4 e5 and e' = distrib_right distrib_left add.assoc
  consider "m1 = 0" | "m1 \<noteq> 0" "m2 = 0" | "m1 \<noteq> 0" "m2 \<noteq> 0" "m3 = 0"
    | "m1 \<noteq> 0" "m2 \<noteq> 0" "m3 \<noteq> 0" "m4 = 0" | "m1 \<noteq> 0" "m2 \<noteq> 0" "m3 \<noteq> 0" "m4 \<noteq> 0" "m5 = 0"
    | "m1 \<noteq> 0" "m2 \<noteq> 0" "m3 \<noteq> 0" "m4 \<noteq> 0" "m5 \<noteq> 0"
    by blast
  then show ?thesis
  proof cases
    case 1 then show ?thesis unfolding d by (simp add: readVarintRemainder_1 c e0)
  next
    case 2 then show ?thesis unfolding d by (simp add: readVarintRemainder_2 c e e')
  next
    case 3 then show ?thesis unfolding d by (simp add: readVarintRemainder_3 c e e')
  next
    case 4 then show ?thesis unfolding d by (simp add: readVarintRemainder_4 c e e')
  next
    case 5 then show ?thesis unfolding d by (simp add: readVarintRemainder_5 c e e')
  next
    case 6 then show ?thesis unfolding d by (simp add: readVarintRemainder_6 c e e')
  qed
qed

lemma low_nibble:
  "uint (byte_and (u8_at (enc_varint m @ rest) 0) 15) = int (m mod 16)"
proof -
  obtain c r where m: "m = c + 128 * r" "c < 128" by (rule next_digit)
  have "c + 128 * r = c + 16 * (8 * r)" by simp
  then have r: "m mod 16 = c mod 16" by (metis m(1) mod_mult_self2)
  obtain b where b: "u8_at (enc_varint m @ rest) 0 = Some b" "b = last_byte c \<or> b = more_byte c"
    unfolding m(1) by (cases "r = 0") (auto simp: enc_varint_digit enc_varint_small m(2))
  have "uint (byte_and (u8_at (enc_varint m @ rest) 0) 15) = int (c mod 16)"
    using b byte_small(5,6)[OF m(2)] by (elim disjE) (simp_all only:)
  then show ?thesis by (simp only: r)
qed

lemma readVarint_5:
  assumes c: "c0 < 128" "c1 < 128" "c2 < 128" "c3 < 128" and m: "m < 2 ^ 36"
  shows "readVarint (pre @ more_byte c0 # more_byte c1 # more_byte c2 # more_byte c3 # enc_varint m @ rest)
      (length pre)
    = Inr (fli (int c0 + int c1 * 2 ^ 7 + int c2 * 2 ^ 14 + int c3 * 2 ^ 21 + int m * 2 ^ 28),
        length pre + (4 + length (enc_varint m)))"
proof -
  let ?pre = "pre @ [more_byte c0, more_byte c1, more_byte c2, more_byte c3]"
  let ?e = "byte_and (u8_at (enc_varint m @ rest) 0) 15"
  let ?w = "(((byte_and (Some (more_byte c0)) 127 OR push_bit 7 (byte_and (Some (more_byte c1)) 127))
    OR push_bit 14 (byte_and (Some (more_byte c2)) 127)) OR push_bit 21 (byte_and (Some (more_byte c3)) 127))
    OR push_bit 28 ?e"
  define w where "w = ?w"
  have w: "uint w = int c0 + int c1 * 2 ^ 7 + int c2 * 2 ^ 14 + int c3 * 2 ^ 21 + int (m mod 16) * 2 ^ 28"
    unfolding w_def by (subst low_half(4)) (simp_all add: byte_small c low_nibble)
  define x y where "x = int (m div 16)" and "y = int (m mod 16)"
  have "int m = x * 16 + y"
    unfolding x_def y_def by presburger
  with w have sum: "x * 4294967296 + uint w
      = int c0 + int c1 * 2 ^ 7 + int c2 * 2 ^ 14 + int c3 * 2 ^ 21 + int m * 2 ^ 28"
    by (simp add: y_def [symmetric])
  have "readVarint (?pre @ enc_varint m @ rest) (length pre)
      = readVarintRemainder w (?pre @ enc_varint m @ rest) (length pre + 4)"
    using c by (simp add: readVarint_def varint_steps w_def)
  also have "length pre + 4 = length ?pre" by simp
  also have "readVarintRemainder w (?pre @ enc_varint m @ rest) (length ?pre)
      = Inr (fli (x * 4294967296 + uint w), length ?pre + length (enc_varint m))"
    unfolding x_def by (rule readVarintRemainder_enc[OF m])
  finally show ?thesis by (simp only: sum) simp
qed

text \<open>Every number below \<open>2^64\<close> is read back from its encoding, rounded to a JavaScript number.\<close>

lemma readVarint_enc:
  assumes "n < 2 ^ 64"
  shows "readVarint (pre @ enc_varint n @ rest) (length pre)
    = Inr (fli (int n), length pre + length (enc_varint n))"
proof -
  obtain c0 m1 where 0: "n = c0 + 128 * m1" "c0 < 128"
    and e0: "enc_varint n = (if m1 = 0 then [last_byte c0] else more_byte c0 # enc_varint m1)"
      "int n = int c0 + 128 * int m1"
    by (rule next_digit)
  obtain c1 m2 where 1: "m1 = c1 + 128 * m2" "c1 < 128"
    and e1: "enc_varint m1 = (if m2 = 0 then [last_byte c1] else more_byte c1 # enc_varint m2)"
      "int m1 = int c1 + 128 * int m2"
    by (rule next_digit)
  obtain c2 m3 where 2: "m2 = c2 + 128 * m3" "c2 < 128"
    and e2: "enc_varint m2 = (if m3 = 0 then [last_byte c2] else more_byte c2 # enc_varint m3)"
      "int m2 = int c2 + 128 * int m3"
    by (rule next_digit)
  obtain c3 m4 where 3: "m3 = c3 + 128 * m4" "c3 < 128"
    and e3: "enc_varint m3 = (if m4 = 0 then [last_byte c3] else more_byte c3 # enc_varint m4)"
      "int m3 = int c3 + 128 * int m4"
    by (rule next_digit)
  have m4: "m4 < 2 ^ 36" using assms 0 1 2 3 by simp
  have small: "fli (int n) = int n" if "m4 = 0"
    using that 0 1 2 3 by (intro fli_exact) simp_all
  note c = 0(2) 1(2) 2(2) 3(2) and e = e0(1) e1 e2 e3
  consider "m1 = 0" | "m1 \<noteq> 0" "m2 = 0" | "m1 \<noteq> 0" "m2 \<noteq> 0" "m3 = 0"
    | "m1 \<noteq> 0" "m2 \<noteq> 0" "m3 \<noteq> 0" "m4 = 0" | "m1 \<noteq> 0" "m2 \<noteq> 0" "m3 \<noteq> 0" "m4 \<noteq> 0"
    by blast
  then show ?thesis
  proof cases
    case 1 then have "fli (int n) = int n" using small 1 0 by (intro fli_exact) simp_all
    then show ?thesis using 1 by (simp only:) (simp add: readVarint_1 c e0)
  next
    case 2 then have "fli (int n) = int n" using 0 1 by (intro fli_exact) simp_all
    then show ?thesis using 2 by (simp only:) (simp add: readVarint_2 c e e0)
  next
    case 3 then have "fli (int n) = int n" using 0 1 2 by (intro fli_exact) simp_all
    then show ?thesis using 3 by (simp only:) (simp add: readVarint_3 c e e0)
  next
    case 4 then have "fli (int n) = int n" by (intro small)
    then show ?thesis using 4 by (simp only:) (simp add: readVarint_4 c e e0)
  next
    case 5
    have "int n = int c0 + int c1 * 2 ^ 7 + int c2 * 2 ^ 14 + int c3 * 2 ^ 21 + int m4 * 2 ^ 28"
      using 0 1 2 3 by simp
    with readVarint_5[OF 0(2) 1(2) 2(2) 3(2) m4] 5 show ?thesis
      by (simp add: e)
  qed
qed

section \<open>Where a number ends\<close>

text \<open>
  A number is only read when its bytes are all there: it ends at the first byte below 128, at
  most ten bytes on and inside the buffer.
\<close>

definition more_bytes :: "bytes \<Rightarrow> nat \<Rightarrow> nat \<Rightarrow> bool" where
  "more_bytes buf p q = list_all (\<lambda>i. \<not> byte_less (u8_at buf i) 128) [p..<q]"

lemma more_bytes_Suc [simp]:
  "more_bytes buf p p"
  "p \<le> q \<Longrightarrow> more_bytes buf p (Suc q) \<longleftrightarrow> more_bytes buf p q \<and> \<not> byte_less (u8_at buf q) 128"
  by (auto simp: more_bytes_def)

lemma more_bytes_trans: "more_bytes buf p q \<Longrightarrow> more_bytes buf q r \<Longrightarrow> p \<le> q \<Longrightarrow> q \<le> r \<Longrightarrow> more_bytes buf p r"
  unfolding more_bytes_def list_all_iff by (auto simp: not_le)

lemma toNum_range: "0 \<le> toNum l h \<and> toNum l h \<le> 2 ^ 64"
proof -
  have "uint h < 2 ^ LENGTH(32)" "uint l < 2 ^ LENGTH(32)" by (rule uint_lt2p)+
  then have "uint h < 2 ^ 32" "uint l < 2 ^ 32"
    by (simp_all only: len_num0 len_bit0 len_num1) simp_all
  then have "0 \<le> uint h * 4294967296 + uint l" "uint h * 4294967296 + uint l \<le> 2 ^ 64"
    by simp_all
  then have "fli 0 \<le> toNum l h" "toNum l h \<le> fli (2 ^ 64)"
    unfolding toNum_def by (auto intro!: fli_mono simp only:)
  moreover have "fli 0 = 0" by (rule fli_exact) simp
  moreover have "fli (2 ^ 64) = 2 ^ 64" by code_simp
  ultimately show ?thesis by simp
qed

lemma uint_byte_and_127: "uint (byte_and b 127) < 2 ^ 7"
proof (cases b)
  case (Some v)
  have "uint (v AND 127) = uint v AND 127" by (simp add: unsigned_and_eq)
  also have "\<dots> \<le> 127" by (rule AND_upper2) simp
  finally show ?thesis using Some by (simp add: byte_and_def unsigned_ucast_eq take_bit_int_eq_self)
qed simp

text \<open>
  Both loops end at the first byte below 128, at most six (ten) bytes on, which is inside the
  buffer; with no such byte they throw.
\<close>

lemma readVarintRemainder_cases:
  "case readVarintRemainder l buf p of
     Inl e \<Rightarrow> e = Error ''Expected varint not more than 10 bytes'' \<and> more_bytes buf p (p + 6)
   | Inr (v, q) \<Rightarrow> p < q \<and> q \<le> p + 6 \<and> byte_less (u8_at buf (q - 1)) 128 \<and> more_bytes buf p (q - 1)
       \<and> 0 \<le> v \<and> v \<le> 2 ^ 64"
  using toNum_range unfolding readVarintRemainder_def Let_def
  by (simp add: numeral_eq_Suc split: sum.split)

lemma sint_low_half:
  "0 \<le> sint (byte_and a 127) \<and> sint (byte_and a 127) \<le> 2 ^ 64"
  "0 \<le> sint (byte_and a 127 OR push_bit 7 (byte_and b 127))
    \<and> sint (byte_and a 127 OR push_bit 7 (byte_and b 127)) \<le> 2 ^ 64"
  "0 \<le> sint ((byte_and a 127 OR push_bit 7 (byte_and b 127)) OR push_bit 14 (byte_and c 127))
    \<and> sint ((byte_and a 127 OR push_bit 7 (byte_and b 127)) OR push_bit 14 (byte_and c 127)) \<le> 2 ^ 64"
  "0 \<le> sint (((byte_and a 127 OR push_bit 7 (byte_and b 127)) OR push_bit 14 (byte_and c 127))
        OR push_bit 21 (byte_and d 127))
    \<and> sint (((byte_and a 127 OR push_bit 7 (byte_and b 127)) OR push_bit 14 (byte_and c 127))
        OR push_bit 21 (byte_and d 127)) \<le> 2 ^ 64"
proof -
  have u: "uint w \<le> 2 ^ 28 \<Longrightarrow> 0 \<le> sint w \<and> sint w \<le> 2 ^ 64" for w :: "32 word"
    by (simp add: sint_small)
  note b = uint_byte_and_127[of a] uint_byte_and_127[of b] uint_byte_and_127[of c] uint_byte_and_127[of d]
  note l = low_half[OF b, of 0]
  show "0 \<le> sint (byte_and a 127) \<and> sint (byte_and a 127) \<le> 2 ^ 64"
    using b by (intro u) simp
  show "0 \<le> sint (byte_and a 127 OR push_bit 7 (byte_and b 127))
    \<and> sint (byte_and a 127 OR push_bit 7 (byte_and b 127)) \<le> 2 ^ 64"
    using b by (intro u) (simp add: l)
  show "0 \<le> sint ((byte_and a 127 OR push_bit 7 (byte_and b 127)) OR push_bit 14 (byte_and c 127))
    \<and> sint ((byte_and a 127 OR push_bit 7 (byte_and b 127)) OR push_bit 14 (byte_and c 127)) \<le> 2 ^ 64"
    using b by (intro u) (simp add: l)
  show "0 \<le> sint (((byte_and a 127 OR push_bit 7 (byte_and b 127)) OR push_bit 14 (byte_and c 127))
        OR push_bit 21 (byte_and d 127))
    \<and> sint (((byte_and a 127 OR push_bit 7 (byte_and b 127)) OR push_bit 14 (byte_and c 127))
        OR push_bit 21 (byte_and d 127)) \<le> 2 ^ 64"
    using b by (intro u) (simp add: l)
qed

lemma readVarint_cases:
  "case readVarint buf p of
     Inl e \<Rightarrow> e = Error ''Expected varint not more than 10 bytes'' \<and> more_bytes buf p (p + 10)
   | Inr (v, q) \<Rightarrow> p < q \<and> q \<le> p + 10 \<and> byte_less (u8_at buf (q - 1)) 128 \<and> more_bytes buf p (q - 1)
       \<and> 0 \<le> v \<and> v \<le> 2 ^ 64"
proof (cases "more_bytes buf p (p + 4)")
  case False
  then consider "byte_less (u8_at buf p) 128"
    | "\<not> byte_less (u8_at buf p) 128" "byte_less (u8_at buf (p + 1)) 128"
    | "\<not> byte_less (u8_at buf p) 128" "\<not> byte_less (u8_at buf (p + 1)) 128" "byte_less (u8_at buf (p + 2)) 128"
    | "\<not> byte_less (u8_at buf p) 128" "\<not> byte_less (u8_at buf (p + 1)) 128"
      "\<not> byte_less (u8_at buf (p + 2)) 128" "byte_less (u8_at buf (p + 3)) 128"
    by (auto simp: numeral_eq_Suc)
  then show ?thesis
    using sint_low_half unfolding readVarint_def Let_def
    by cases (simp_all add: numeral_eq_Suc push_bit_eq_mult)
next
  case True
  then obtain l where r: "readVarint buf p = readVarintRemainder l buf (p + 4)"
    unfolding readVarint_def Let_def by (simp add: numeral_eq_Suc)
  have "more_bytes buf p m" if "more_bytes buf (p + 4) m" "p + 4 \<le> m" for m
    using more_bytes_trans[OF True that(1)] that(2) by simp
  then show ?thesis
    unfolding r using readVarintRemainder_cases[where l = l and buf = buf and p = "p + 4"]
    by (auto split: sum.splits simp: add.commute)
qed

text \<open>What is read from the start of a buffer does not change when bytes are added behind it.\<close>

lemma readVarintRemainder_prefix:
  assumes "readVarintRemainder l buf p = Inr (v, q)" "\<And>i. i < q \<Longrightarrow> u8_at buf' i = u8_at buf i"
  shows "readVarintRemainder l buf' p = Inr (v, q)"
  using assms unfolding readVarintRemainder_def Let_def
  by (simp split: if_splits) 

lemma readVarint_prefix:
  assumes "readVarint buf p = Inr (v, q)" "\<And>i. i < q \<Longrightarrow> u8_at buf' i = u8_at buf i"
  shows "readVarint buf' p = Inr (v, q)"
proof (cases "more_bytes buf p (p + 4)")
  case False
  then consider "byte_less (u8_at buf p) 128"
    | "\<not> byte_less (u8_at buf p) 128" "byte_less (u8_at buf (p + 1)) 128"
    | "\<not> byte_less (u8_at buf p) 128" "\<not> byte_less (u8_at buf (p + 1)) 128" "byte_less (u8_at buf (p + 2)) 128"
    | "\<not> byte_less (u8_at buf p) 128" "\<not> byte_less (u8_at buf (p + 1)) 128"
      "\<not> byte_less (u8_at buf (p + 2)) 128" "byte_less (u8_at buf (p + 3)) 128"
    by (auto simp: numeral_eq_Suc)
  then show ?thesis
    using assms unfolding readVarint_def Let_def by cases auto
next
  case True
  then have b: "\<not> byte_less (u8_at buf p) 128" "\<not> byte_less (u8_at buf (p + 1)) 128"
      "\<not> byte_less (u8_at buf (p + 2)) 128" "\<not> byte_less (u8_at buf (p + 3)) 128"
    by (simp_all add: numeral_eq_Suc)
  then obtain l where "readVarintRemainder l buf (p + 4) = Inr (v, q)"
    using assms(1) unfolding readVarint_def Let_def by simp
  then have q: "p + 4 < q" using readVarintRemainder_cases[where l = l and buf = buf and p = "p + 4"] by simp
  have e: "u8_at buf' p = u8_at buf p" "u8_at buf' (p + 1) = u8_at buf (p + 1)"
    "u8_at buf' (p + 2) = u8_at buf (p + 2)" "u8_at buf' (p + 3) = u8_at buf (p + 3)"
    "u8_at buf' (p + 4) = u8_at buf (p + 4)"
    using q by (simp_all add: assms(2))
  from assms(1) show ?thesis
    unfolding readVarint_def Let_def e using b readVarintRemainder_prefix[OF _ assms(2)] by simp
qed

lemma readVarint_append:
  assumes "readVarint buf p = Inr (v, q)"
  shows "readVarint (buf @ rest) p = Inr (v, q)" "p < q" "q \<le> length buf"
proof -
  have b: "byte_less (u8_at buf (q - 1)) 128" "p < q"
    using readVarint_cases[of buf p] assms by simp_all
  show "p < q" by (rule b)
  show q: "q \<le> length buf"
    using b by (auto simp: u8_at_def split: if_splits)
  show "readVarint (buf @ rest) p = Inr (v, q)"
    using q by (intro readVarint_prefix[OF assms]) (simp add: u8_at_def nth_append)
qed

lemma readVarint_nonneg: "readVarint buf p = Inr (v, q) \<Longrightarrow> 0 \<le> v"
  using readVarint_cases[of buf p] by simp

section \<open>Properties\<close>

text \<open>
  C20: every number below \<open>2^64\<close> is read back from its variable-length encoding anywhere in a
  buffer: the reader stops right behind the encoding, and the number it returns is the encoded
  one up to \<open>2^53\<close> and the nearest JavaScript number beyond.
\<close>

theorem varint_roundtrip:
  assumes "n < 2 ^ 64"
  shows "readVarint (pre @ enc_varint n @ rest) (length pre)
      = Inr (fli (int n), length pre + length (enc_varint n))
    \<and> length (enc_varint n) \<le> 10 \<and> (n \<le> 2 ^ 53 \<longrightarrow> fli (int n) = int n)"
proof -
  have "fli (int n) = int n" if "n \<le> 2 ^ 53" using that by (intro fli_exact) simp
  moreover have "length (enc_varint n) \<le> 10"
    using readVarint_cases[of "pre @ enc_varint n @ rest" "length pre"] readVarint_enc[OF assms, of pre rest]
    by simp
  ultimately show ?thesis using readVarint_enc[OF assms] by blast
qed

lemma varint_roundtrip_witness:
  "readVarint ([7] @ enc_varint 300 @ [1, 2]) 1 = Inr (300, 3)
    \<and> readVarint ([7] @ enc_varint 9007199254740993 @ [1, 2]) 1 = Inr (9007199254740992, 9)"
proof -
  have f: "fli 9007199254740993 = 9007199254740992" by code_simp
  then have e: "length (enc_varint 300) = 2" "length (enc_varint 9007199254740993) = 8"
    "fli (int 9007199254740993) = 9007199254740992" "fli (int 300) = 300"
    by (simp_all add: enc_varint.simps)
  have l: "length [7 :: 8 word] = 1" "(1::nat) + 2 = 3" "(1::nat) + 8 = 9" by simp_all
  have "(300::nat) < 2 ^ 64" "(9007199254740993::nat) < 2 ^ 64" by simp_all
  note r = this[THEN varint_roundtrip, of "[7]" "[1, 2]", unfolded e l]
  from r show ?thesis by blast
qed

text \<open>
  C37: the reader never leaves the buffer and never takes part of a number for a number: a result
  ends behind the first byte below 128, which is in the buffer and at most ten bytes on, and lies
  between 0 and \<open>2^64\<close>; with no such byte the reader throws.
\<close>

theorem varint_end:
  "case readVarint buf p of
     Inl e \<Rightarrow> e = Error ''Expected varint not more than 10 bytes''
       \<and> list_all (\<lambda>i. length buf \<le> i \<or> 128 \<le> buf ! i) [p..<p + 10]
   | Inr (v, q) \<Rightarrow> p < q \<and> q \<le> p + 10 \<and> q \<le> length buf \<and> buf ! (q - 1) < 128
       \<and> list_all (\<lambda>i. 128 \<le> buf ! i) [p..<q - 1] \<and> 0 \<le> v \<and> v \<le> 2 ^ 64"
proof -
  have b: "byte_less (u8_at buf i) 128 \<longleftrightarrow> i < length buf \<and> buf ! i < 128" for i
    by (simp add: u8_at_def byte_less_def)
  show ?thesis
    using readVarint_cases[of buf p]
    by (auto split: sum.splits simp: more_bytes_def b list_all_iff not_less)
qed

end
