(* ===== verification/Binary_Search.thy ===== *)
theory Binary_Search
  imports Js_Prelude
begin

text \<open>
  What the binary searches of the reader share. Both the version 3 and the version 2 directories
  are searched with a comparator that returns a number; the interface \<open>ordered_search\<close> says what
  the sign of that number has to mean. Its lemmas are the steps of the loop invariant \<open>narrowed\<close>:
  everything before \<open>m\<close> is below the key and everything behind \<open>n\<close> is above it.
\<close>

definition ordered_by :: "('e \<Rightarrow> 'k::linorder) \<Rightarrow> 'e list \<Rightarrow> bool" where
  "ordered_by key es = sorted_wrt (\<lambda>d e. key d < key e) es"

definition narrowed :: "('e \<Rightarrow> 'k::linorder) \<Rightarrow> 'e list \<Rightarrow> 'k \<Rightarrow> int \<Rightarrow> int \<Rightarrow> bool" where
  "narrowed key es t m n \<longleftrightarrow> 0 \<le> m \<and> m \<le> n + 1 \<and> n < int (length es)
     \<and> (\<forall>i < length es. (int i < m \<longrightarrow> key (es ! i) < t) \<and> (n < int i \<longrightarrow> t < key (es ! i)))"

lemma narrowed_init: "narrowed key es t 0 (int (length es) - 1)"
  by (simp add: narrowed_def)

lemma narrowed_nth:
  assumes "narrowed key es t m n" "m \<le> k" "k \<le> n"
  shows "nat k < length es" "int (nat k) = k"
  using assms by (auto simp: narrowed_def nat_less_iff)

lemma ordered_by_less:
  assumes "ordered_by key es" "j < length es" "i < j"
  shows "key (es ! i) < key (es ! j)"
  using sorted_wrt_nth_less[of _ es i j] assms by (simp add: ordered_by_def)

lemma narrowed_right:
  assumes "ordered_by key es" "narrowed key es t m n" "m \<le> k" "k \<le> n" "key (es ! nat k) < t"
  shows "narrowed key es t (k + 1) n"
proof -
  note k = narrowed_nth[OF assms(2-4)]
  have "key (es ! i) < t" if "i < length es" "int i < k + 1" for i
  proof (cases "i = nat k")
    case False
    with that k have "key (es ! i) < key (es ! nat k)" by (intro ordered_by_less[OF assms(1)]) auto
    with assms(5) show ?thesis by simp
  qed (use assms(5) in simp)
  with assms(2-4) show ?thesis by (simp add: narrowed_def)
qed

lemma narrowed_left:
  assumes "ordered_by key es" "narrowed key es t m n" "m \<le> k" "k \<le> n" "t < key (es ! nat k)"
  shows "narrowed key es t m (k - 1)"
proof -
  note k = narrowed_nth[OF assms(2-4)]
  have "t < key (es ! i)" if "i < length es" "k - 1 < int i" for i
  proof (cases "i = nat k")
    case False
    with that k have "key (es ! nat k) < key (es ! i)" by (intro ordered_by_less[OF assms(1)]) auto
    with assms(5) show ?thesis by simp
  qed (use assms(5) in simp)
  with assms(2-4) show ?thesis by (simp add: narrowed_def)
qed

text \<open>A search that has narrowed the entries down to nothing has shown that the key is not there.\<close>

lemma narrowed_absent:
  assumes "narrowed key es t m n" "n < m" "e \<in> set es"
  shows "key e \<noteq> t"
proof -
  obtain i where i: "i < length es" "e = es ! i" using assms(3) by (auto simp: in_set_conv_nth)
  have "int i < m \<or> n < int i" using assms(2) by linarith
  with assms(1) i show ?thesis unfolding narrowed_def by (metis less_irrefl)
qed

lemma ordered_by_inj:
  assumes "ordered_by key es" "d \<in> set es" "e \<in> set es" "key d = key e"
  shows "d = e"
proof -
  obtain i j where ij: "i < length es" "d = es ! i" "j < length es" "e = es ! j"
    using assms(2,3) by (auto simp: in_set_conv_nth)
  then have "\<not> i < j" "\<not> j < i"
    using ordered_by_less[OF assms(1), of i j] ordered_by_less[OF assms(1), of j i] assms(4) by auto
  with ij show ?thesis by (cases i j rule: linorder_cases) auto
qed

lemma find_unique:
  assumes "e \<in> set es" "P e" "\<And>d. d \<in> set es \<Longrightarrow> P d \<Longrightarrow> d = e"
  shows "find P es = Some e"
proof (cases "find P es")
  case None
  with assms(1,2) show ?thesis by (simp add: find_None_iff)
next
  case (Some d)
  then have "d \<in> set es" "P d" by (auto simp: find_Some_iff)
  then have "d = e" by (rule assms(3))
  with Some show ?thesis by simp
qed

section \<open>The interface\<close>

locale ordered_search =
  fixes key :: "'e \<Rightarrow> 'k::linorder"
    and ok :: "'e \<Rightarrow> bool"
    and cmp :: "'k \<Rightarrow> 'e \<Rightarrow> rat"
  assumes cmp_pos: "ok e \<Longrightarrow> 0 < cmp t e \<longleftrightarrow> key e < t"
    and cmp_neg: "ok e \<Longrightarrow> cmp t e < 0 \<longleftrightarrow> t < key e"
begin

lemma cmp_zero: "ok e \<Longrightarrow> \<not> 0 < cmp t e \<Longrightarrow> \<not> cmp t e < 0 \<Longrightarrow> key e = t"
  using cmp_pos cmp_neg by (metis linorder_less_linear)

lemma step_right:
  assumes "ordered_by key es" "narrowed key es t m n" "m \<le> k" "k \<le> n" "ok (es ! nat k)"
    "0 < cmp t (es ! nat k)"
  shows "narrowed key es t (k + 1) n"
  using narrowed_right[OF assms(1-4)] assms(5,6) cmp_pos by simp

lemma step_left:
  assumes "ordered_by key es" "narrowed key es t m n" "m \<le> k" "k \<le> n" "ok (es ! nat k)"
    "cmp t (es ! nat k) < 0"
  shows "narrowed key es t m (k - 1)"
  using narrowed_left[OF assms(1-4)] assms(5,6) cmp_neg by simp

lemma step_hit:
  assumes "narrowed key es t m n" "m \<le> k" "k \<le> n" "ok (es ! nat k)"
    "\<not> 0 < cmp t (es ! nat k)" "\<not> cmp t (es ! nat k) < 0"
  shows "es ! nat k \<in> set es" "key (es ! nat k) = t"
  using narrowed_nth[OF assms(1-3)] cmp_zero[OF assms(4-6)] by simp_all

end

end
