(* ===== verification/Directory.thy ===== *)
theory Directory
  imports Varint Tile_Id Binary_Search
begin

text \<open>
  A version 3 directory: its entries, \<^verbatim>\<open>deserializeIndex\<close> with its four column loops, and the
  binary search \<^verbatim>\<open>findTile\<close>, of \<^verbatim>\<open>src/app/static/js/pmtiles.js\<close>. The reference
  definitions are the serializer of the format and a linear search.
\<close>

record entry =
  tileId :: int
  offset :: int
  len :: int
  runLength :: int

section \<open>deserializeIndex\<close>

text \<open>The first loop: the tile ids, kept as differences.\<close>

function read_ids :: "bytes \<Rightarrow> int \<Rightarrow> int \<Rightarrow> int \<Rightarrow> nat \<Rightarrow> js_error + entry list \<times> nat" where
  "read_ids buf numEntries i lastId p =
     (if i < numEntries then
        bind_sum (readVarint buf p) (\<lambda>(v, p).
        bind_sum (read_ids buf numEntries (i + 1) (fli (lastId + v)) p) (\<lambda>(es, p).
        Inr (\<lparr>tileId = fli (lastId + v), offset = 0, len = 0, runLength = 1\<rparr> # es, p)))
      else Inr ([], p))"
  by auto
termination
  by (relation "measure (\<lambda>(buf, n, i, lastId, p). nat (n - i))") auto

declare read_ids.simps [simp del]

text \<open>The second and the third loop write one column each over the entries made so far.\<close>

fun read_runLengths :: "bytes \<Rightarrow> entry list \<Rightarrow> nat \<Rightarrow> js_error + entry list \<times> nat" where
  "read_runLengths buf [] p = Inr ([], p)"
| "read_runLengths buf (e # es) p =
     bind_sum (readVarint buf p) (\<lambda>(v, p).
     bind_sum (read_runLengths buf es p) (\<lambda>(es, p). Inr (e\<lparr>runLength := v\<rparr> # es, p)))"

fun read_lengths :: "bytes \<Rightarrow> entry list \<Rightarrow> nat \<Rightarrow> js_error + entry list \<times> nat" where
  "read_lengths buf [] p = Inr ([], p)"
| "read_lengths buf (e # es) p =
     bind_sum (readVarint buf p) (\<lambda>(v, p).
     bind_sum (read_lengths buf es p) (\<lambda>(es, p). Inr (e\<lparr>len := v\<rparr> # es, p)))"

text \<open>
  The fourth loop; the second argument is the entry before (\<open>None\<close> at index 0), which a 0 in the
  column refers to.
\<close>

fun read_offsets :: "bytes \<Rightarrow> entry option \<Rightarrow> entry list \<Rightarrow> nat \<Rightarrow> js_error + entry list \<times> nat" where
  "read_offsets buf prev [] p = Inr ([], p)"
| "read_offsets buf prev (e # es) p =
     bind_sum (readVarint buf p) (\<lambda>(v, p).
     let e' = e\<lparr>offset := (case prev of
                  Some d \<Rightarrow> if v = 0 then fli (offset d + len d) else fli (v - 1)
                | None \<Rightarrow> fli (v - 1))\<rparr>
     in bind_sum (read_offsets buf (Some e') es p) (\<lambda>(es, p). Inr (e' # es, p)))"

definition deserializeIndex :: "bytes \<Rightarrow> js_error + entry list" where
  "deserializeIndex buffer =
     bind_sum (readVarint buffer 0) (\<lambda>(numEntries, p).
     bind_sum (read_ids buffer numEntries 0 0 p) (\<lambda>(entries, p).
     bind_sum (read_runLengths buffer entries p) (\<lambda>(entries, p).
     bind_sum (read_lengths buffer entries p) (\<lambda>(entries, p).
     bind_sum (read_offsets buffer None entries p) (\<lambda>(entries, p).
     Inr entries)))))"

section \<open>findTile\<close>

text \<open>
  The loop returns the hit, or else the last value of \<open>n\<close>. The midpoint \<^verbatim>\<open>n + m >> 1\<close> is
  written as a shift of integers: an array of the engine has far fewer than \<open>2^30\<close> elements.
\<close>

function findTile_loop :: "entry list \<Rightarrow> rat \<Rightarrow> int \<Rightarrow> int \<Rightarrow> entry + int" where
  "findTile_loop entries t m n =
     (if m \<le> n then
        let k = drop_bit 1 (n + m);
            cmp = fl (t - of_int (tileId (entries ! nat k)))
        in if cmp > 0 then findTile_loop entries t (k + 1) n
           else if cmp < 0 then findTile_loop entries t m (k - 1)
           else Inl (entries ! nat k)
      else Inr n)"
  by auto
termination
  by (relation "measure (\<lambda>(entries, t, m, n). nat (n + 1 - m))") (auto simp: drop_bit_eq_div)

declare findTile_loop.simps [simp del]

definition findTile :: "entry list \<Rightarrow> rat \<Rightarrow> entry option" where
  "findTile entries t =
     (case findTile_loop entries t 0 (int (length entries) - 1) of
        Inl e \<Rightarrow> Some e
      | Inr n \<Rightarrow>
          if n \<ge> 0 then
            if runLength (entries ! nat n) = 0 then Some (entries ! nat n)
            else if fl (t - of_int (tileId (entries ! nat n))) < of_int (runLength (entries ! nat n)) then Some (entries ! nat n)
            else None
          else None)"

section \<open>The reference definitions\<close>

text \<open>A linear search: the last entry that starts at or before the tile, when it covers the tile.\<close>

definition covers :: "entry \<Rightarrow> int \<Rightarrow> bool" where
  "covers e t \<longleftrightarrow> tileId e \<le> t \<and> (tileId e = t \<or> runLength e = 0 \<or> t < tileId e + runLength e)"

definition find_linear :: "entry list \<Rightarrow> int \<Rightarrow> entry option" where
  "find_linear es t =
     (case rev (filter (\<lambda>e. tileId e \<le> t) es) of
        [] \<Rightarrow> None
      | e # _ \<Rightarrow> if covers e t then Some e else None)"

text \<open>The serializer of the format: counts, then the columns in the order they are read.\<close>

definition enc_int :: "int \<Rightarrow> bytes" where
  "enc_int x = enc_varint (nat x)"

fun enc_ids :: "int \<Rightarrow> entry list \<Rightarrow> bytes" where
  "enc_ids lastId [] = []"
| "enc_ids lastId (e # es) = enc_int (tileId e - lastId) @ enc_ids (tileId e) es"

fun enc_offsets :: "entry option \<Rightarrow> entry list \<Rightarrow> bytes" where
  "enc_offsets prev [] = []"
| "enc_offsets prev (e # es) =
     enc_int (case prev of
        Some d \<Rightarrow> if offset e = offset d + len d then 0 else offset e + 1
      | None \<Rightarrow> offset e + 1) @ enc_offsets (Some e) es"

definition serializeIndex :: "entry list \<Rightarrow> bytes" where
  "serializeIndex es =
     enc_int (int (length es)) @ enc_ids 0 es @ concat (map (\<lambda>e. enc_int (runLength e)) es)
       @ concat (map (\<lambda>e. enc_int (len e)) es) @ enc_offsets None es"

text \<open>A directory the format can hold: ids in order, all numbers exact in JavaScript.\<close>

fun sorted_from :: "int \<Rightarrow> entry list \<Rightarrow> bool" where
  "sorted_from t [] = True"
| "sorted_from t (e # es) \<longleftrightarrow> t \<le> tileId e \<and> sorted_from (tileId e) es"

definition entry_ok :: "entry \<Rightarrow> bool" where
  "entry_ok e \<longleftrightarrow> 0 \<le> tileId e \<and> tileId e < 2 ^ 53 \<and> 0 \<le> offset e \<and> 0 \<le> len e
     \<and> offset e + len e < 2 ^ 53 \<and> 0 \<le> runLength e \<and> runLength e < 2 ^ 53"

definition dir_ok :: "entry list \<Rightarrow> bool" where
  "dir_ok es \<longleftrightarrow> sorted_from 0 es \<and> list_all entry_ok es \<and> length es < 2 ^ 53"

section \<open>Reading back a serialized directory\<close>

lemma readVarint_enc_int:
  assumes "0 \<le> x" "x \<le> 2 ^ 53"
  shows "readVarint (pre @ enc_int x @ rest) (length pre) = Inr (x, length pre + length (enc_int x))"
proof -
  have "nat x < 2 ^ 64" using assms by simp
  from readVarint_enc[OF this] show ?thesis
    using assms by (simp add: enc_int_def)
qed

text \<open>The same, with the position and the buffer written in any other way.\<close>

lemma readVarint_enc_int':
  assumes "buf = pre @ enc_int x @ rest" "p = length pre" "0 \<le> x" "x \<le> 2 ^ 53"
  shows "readVarint buf p = Inr (x, p + length (enc_int x))"
  using readVarint_enc_int[OF assms(3,4)] assms(1,2) by simp

lemma read_ids_enc:
  assumes "buf = pre @ enc_ids lastId es @ rest" "p = length pre" "n = i + int (length es)"
    "sorted_from lastId es" "0 \<le> lastId" "list_all entry_ok es"
  shows "read_ids buf n i lastId p
    = Inr (map (\<lambda>e. \<lparr>tileId = tileId e, offset = 0, len = 0, runLength = 1\<rparr>) es,
        p + length (enc_ids lastId es))"
  using assms
proof (induction es arbitrary: pre lastId i p)
  case Nil
  then show ?case by (simp add: read_ids.simps)
next
  case (Cons e es)
  let ?d = "tileId e - lastId"
  have e: "lastId \<le> tileId e" "tileId e < 2 ^ 53" and ok: "list_all entry_ok es"
    using Cons.prems by (simp_all add: entry_ok_def [of e])
  have rd: "readVarint buf p = Inr (?d, p + length (enc_int ?d))"
    using Cons.prems e by (intro readVarint_enc_int'[of _ pre _ "enc_ids (tileId e) es @ rest"]) simp_all
  have id: "fli (lastId + ?d) = tileId e"
    using e Cons.prems(5) by simp
  have "read_ids buf n (i + 1) (tileId e) (p + length (enc_int ?d))
    = Inr (map (\<lambda>e. \<lparr>tileId = tileId e, offset = 0, len = 0, runLength = 1\<rparr>) es,
        p + length (enc_int ?d) + length (enc_ids (tileId e) es))"
    using Cons.prems e by (intro Cons.IH[of "pre @ enc_int ?d"]) simp_all
  then show ?case
    using Cons.prems(3) rd id by (subst read_ids.simps) simp
qed

lemma read_runLengths_enc:
  assumes "buf = pre @ concat (map (\<lambda>e. enc_int (runLength e)) es) @ rest" "p = length pre"
    "list_all entry_ok es" "length ds = length es"
  shows "read_runLengths buf ds p
    = Inr (map2 (\<lambda>d e. d\<lparr>runLength := runLength e\<rparr>) ds es,
        p + length (concat (map (\<lambda>e. enc_int (runLength e)) es)))"
  using assms(4,1-3)
proof (induction ds es arbitrary: pre p rule: list_induct2)
  case (Cons d ds e es)
  have rd: "readVarint buf p = Inr (runLength e, p + length (enc_int (runLength e)))"
    using Cons.prems
    by (intro readVarint_enc_int'[of _ pre _ "concat (map (\<lambda>e. enc_int (runLength e)) es) @ rest"])
      (simp_all add: entry_ok_def)
  moreover have "read_runLengths buf ds (p + length (enc_int (runLength e)))
    = Inr (map2 (\<lambda>d e. d\<lparr>runLength := runLength e\<rparr>) ds es,
        p + length (enc_int (runLength e)) + length (concat (map (\<lambda>e. enc_int (runLength e)) es)))"
    using Cons.prems by (intro Cons.IH[of "pre @ enc_int (runLength e)"]) simp_all
  ultimately show ?case by simp
qed simp

lemma read_lengths_enc:
  assumes "buf = pre @ concat (map (\<lambda>e. enc_int (len e)) es) @ rest" "p = length pre"
    "list_all entry_ok es" "length ds = length es"
  shows "read_lengths buf ds p
    = Inr (map2 (\<lambda>d e. d\<lparr>len := len e\<rparr>) ds es, p + length (concat (map (\<lambda>e. enc_int (len e)) es)))"
  using assms(4,1-3)
proof (induction ds es arbitrary: pre p rule: list_induct2)
  case (Cons d ds e es)
  have rd: "readVarint buf p = Inr (len e, p + length (enc_int (len e)))"
    using Cons.prems
    by (intro readVarint_enc_int'[of _ pre _ "concat (map (\<lambda>e. enc_int (len e)) es) @ rest"])
      (simp_all add: entry_ok_def)
  moreover have "read_lengths buf ds (p + length (enc_int (len e)))
    = Inr (map2 (\<lambda>d e. d\<lparr>len := len e\<rparr>) ds es,
        p + length (enc_int (len e)) + length (concat (map (\<lambda>e. enc_int (len e)) es)))"
    using Cons.prems by (intro Cons.IH[of "pre @ enc_int (len e)"]) simp_all
  ultimately show ?case by simp
qed simp

text \<open>The offsets: \<open>ds\<close> are the entries as the first three loops leave them.\<close>

lemma read_offsets_enc:
  assumes "buf = pre @ enc_offsets prev es @ rest" "p = length pre" "list_all entry_ok es"
    "list_all2 (\<lambda>d e. d\<lparr>offset := offset e\<rparr> = e) ds es" "\<And>d. prev = Some d \<Longrightarrow> entry_ok d"
  shows "read_offsets buf prev ds p = Inr (es, p + length (enc_offsets prev es))"
  using assms(4,1-3,5)
proof (induction ds es arbitrary: pre p prev rule: list_all2_induct)
  case (Cons d ds e es)
  define v where "v = (case prev of
      Some d \<Rightarrow> if offset e = offset d + len d then 0 else offset e + 1 | None \<Rightarrow> offset e + 1)"
  have e: "entry_ok e" "0 \<le> offset e" "offset e < 2 ^ 53"
    using Cons.prems by (simp_all add: entry_ok_def)
  have v: "0 \<le> v" "v \<le> 2 ^ 53"
    using e by (auto simp: v_def split: option.splits)
  have "readVarint buf p = Inr (v, p + length (enc_int v))"
    using Cons.prems v
    by (intro readVarint_enc_int'[of _ pre _ "enc_offsets (Some e) es @ rest"]) (simp_all add: v_def)
  moreover have "(case prev of Some d \<Rightarrow> if v = 0 then fli (offset d + len d) else fli (v - 1)
      | None \<Rightarrow> fli (v - 1)) = offset e"
    using e Cons.prems(4) by (auto simp: v_def entry_ok_def split: option.splits)
  moreover have "read_offsets buf (Some e) ds (p + length (enc_int v))
      = Inr (es, p + length (enc_int v) + length (enc_offsets (Some e) es))"
    using Cons.prems e by (intro Cons.IH[of "pre @ enc_int v"]) (simp_all add: v_def)
  ultimately show ?case
    using Cons.hyps by (simp add: Let_def v_def [symmetric])
qed simp

text \<open>The loops together, with the position after the last number.\<close>

definition parse_index :: "bytes \<Rightarrow> js_error + entry list \<times> nat" where
  "parse_index buffer =
     bind_sum (readVarint buffer 0) (\<lambda>(numEntries, p).
     bind_sum (read_ids buffer numEntries 0 0 p) (\<lambda>(entries, p).
     bind_sum (read_runLengths buffer entries p) (\<lambda>(entries, p).
     bind_sum (read_lengths buffer entries p) (\<lambda>(entries, p).
     read_offsets buffer None entries p))))"

lemma deserializeIndex_parse: "deserializeIndex buf = map_sum id fst (parse_index buf)"
  unfolding deserializeIndex_def parse_index_def
  by (auto simp: bind_sum_def split: sum.splits)

lemma parse_index_serializeIndex:
  assumes "dir_ok es"
  shows "parse_index (serializeIndex es @ rest) = Inr (es, length (serializeIndex es))"
proof -
  let ?n = "enc_int (int (length es))" and ?i = "enc_ids 0 es"
  let ?r = "concat (map (\<lambda>e. enc_int (runLength e)) es)" and ?l = "concat (map (\<lambda>e. enc_int (len e)) es)"
  let ?o = "enc_offsets None es" and ?buf = "serializeIndex es @ rest"
  have ok: "sorted_from 0 es" "list_all entry_ok es" "length es < 2 ^ 53"
    using assms by (simp_all add: dir_ok_def)
  define ds where "ds = map (\<lambda>e. \<lparr>tileId = tileId e, offset = 0, len = 0, runLength = 1\<rparr>) es"
  define ds2 where "ds2 = map2 (\<lambda>d e. d\<lparr>runLength := runLength e\<rparr>) ds es"
  define ds3 where "ds3 = map2 (\<lambda>d e. d\<lparr>len := len e\<rparr>) ds2 es"
  have 0: "readVarint ?buf 0 = Inr (int (length es), length ?n)"
    using readVarint_enc_int'[of ?buf "[]" "int (length es)" "?i @ ?r @ ?l @ ?o @ rest" 0] ok(3)
    by (simp add: serializeIndex_def)
  have 1: "read_ids ?buf (int (length es)) 0 0 (length ?n) = Inr (ds, length ?n + length ?i)"
    unfolding ds_def by (rule read_ids_enc[of _ ?n _ _ "?r @ ?l @ ?o @ rest"])
      (simp_all add: serializeIndex_def ok)
  have 2: "read_runLengths ?buf ds (length ?n + length ?i) = Inr (ds2, length ?n + length ?i + length ?r)"
    unfolding ds2_def by (rule read_runLengths_enc[of _ "?n @ ?i" _ "?l @ ?o @ rest"])
      (simp_all add: serializeIndex_def ok ds_def)
  have 3: "read_lengths ?buf ds2 (length ?n + length ?i + length ?r)
      = Inr (ds3, length ?n + length ?i + length ?r + length ?l)"
    unfolding ds3_def by (rule read_lengths_enc[of _ "?n @ ?i @ ?r" _ "?o @ rest"])
      (simp_all add: serializeIndex_def ok ds_def ds2_def)
  have "list_all2 (\<lambda>d e. d\<lparr>offset := offset e\<rparr> = e) ds3 es"
    by (simp add: list_all2_conv_all_nth ds_def ds2_def ds3_def)
  then have "read_offsets ?buf None ds3 (length ?n + length ?i + length ?r + length ?l)
      = Inr (es, length ?n + length ?i + length ?r + length ?l + length ?o)"
    by (intro read_offsets_enc[of _ "?n @ ?i @ ?r @ ?l" _ _ rest]) (simp_all add: serializeIndex_def ok)
  moreover have "length (serializeIndex es) = length ?n + length ?i + length ?r + length ?l + length ?o"
    by (simp add: serializeIndex_def)
  ultimately show ?thesis
    using 0 1 2 3 by (simp only: parse_index_def bind_sum_simps prod.case)
qed

section \<open>The binary search against the linear one\<close>

definition strictly_sorted :: "entry list \<Rightarrow> bool" where
  "strictly_sorted es = ordered_by tileId es"

text \<open>The comparison of \<^verbatim>\<open>findTile\<close>, at an integer tile.\<close>

definition cmp_tile :: "int \<Rightarrow> entry \<Rightarrow> rat" where
  "cmp_tile t e = fl (of_int t - of_int (tileId e))"

interpretation tile_search: ordered_search tileId "\<lambda>_. True" cmp_tile
  by unfold_locales (simp_all add: cmp_tile_def fl_diff_sign)

lemma findTile_loop_correct:
  assumes "strictly_sorted es" "narrowed tileId es t m n"
  shows "case findTile_loop es (of_int t) m n of
      Inl e \<Rightarrow> \<exists>k < length es. e = es ! k \<and> tileId e = t
    | Inr n \<Rightarrow> narrowed tileId es t (n + 1) n"
  using assms(2)
proof (induction "nat (n + 1 - m)" arbitrary: m n rule: less_induct)
  case less
  note o = assms(1)[unfolded strictly_sorted_def]
  show ?case
  proof (cases "m \<le> n")
    case False
    with less.prems have "m = n + 1" by (simp add: narrowed_def)
    with less.prems False show ?thesis by (subst findTile_loop.simps) simp
  next
    case True
    define k where "k = drop_bit 1 (n + m)"
    have k: "m \<le> k" "k \<le> n"
      using True by (simp_all add: k_def drop_bit_eq_div)
    let ?c = "cmp_tile t (es ! nat k)"
    have l: "findTile_loop es (of_int t) m n =
       (if 0 < ?c then findTile_loop es (of_int t) (k + 1) n
        else if ?c < 0 then findTile_loop es (of_int t) m (k - 1) else Inl (es ! nat k))"
      using True by (subst findTile_loop.simps) (simp only: k_def [symmetric] Let_def cmp_tile_def if_True)
    consider "0 < ?c" | "\<not> 0 < ?c" "?c < 0" | "\<not> 0 < ?c" "\<not> ?c < 0"
      by linarith
    then show ?thesis
    proof cases
      case 1
      then show ?thesis
        using less.hyps[OF _ tile_search.step_right[OF o less.prems k TrueI 1]] k by (simp add: l)
    next
      case 2
      then show ?thesis
        using less.hyps[OF _ tile_search.step_left[OF o less.prems k TrueI 2(2)]] k by (simp add: l)
    next
      case 3
      then show ?thesis
        using tile_search.step_hit[OF less.prems k TrueI 3] narrowed_nth[OF less.prems k] by (auto simp: l)
    qed
  qed
qed

text \<open>The linear search by index.\<close>

lemma find_linear_index:
  assumes "k < length es" "\<And>i. i \<le> k \<Longrightarrow> tileId (es ! i) \<le> t"
    "\<And>i. k < i \<Longrightarrow> i < length es \<Longrightarrow> t < tileId (es ! i)"
  shows "find_linear es t = (if covers (es ! k) t then Some (es ! k) else None)"
proof -
  have "filter (\<lambda>e. tileId e \<le> t) (take (Suc k) es) = take (Suc k) es"
    using assms(1,2) by (auto simp: filter_id_conv in_set_conv_nth)
  moreover have "filter (\<lambda>e. tileId e \<le> t) (drop (Suc k) es) = []"
    using assms(3) by (auto simp: filter_empty_conv in_set_conv_nth not_le)
  ultimately have "filter (\<lambda>e. tileId e \<le> t) es = take (Suc k) es"
    by (metis append.right_neutral append_take_drop_id filter_append)
  then show ?thesis
    using assms(1) by (simp add: find_linear_def take_Suc_conv_app_nth)
qed

lemma find_linear_none:
  assumes "\<And>i. i < length es \<Longrightarrow> t < tileId (es ! i)"
  shows "find_linear es t = None"
proof -
  have "filter (\<lambda>e. tileId e \<le> t) es = []"
    using assms by (auto simp: filter_empty_conv in_set_conv_nth not_le)
  then show ?thesis by (simp add: find_linear_def)
qed

lemma findTile_eq_find_linear:
  assumes "strictly_sorted es" "list_all entry_ok es" "0 \<le> t" "t \<le> 2 ^ 53"
  shows "findTile es (of_int t) = find_linear es t"
proof -
  note o = assms(1)[unfolded strictly_sorted_def]
  have n0: "narrowed tileId es t 0 (int (length es) - 1)"
    by (rule narrowed_init)
  show ?thesis
  proof (cases "findTile_loop es (of_int t) 0 (int (length es) - 1)")
    case (Inl e)
    then obtain k where k: "k < length es" "e = es ! k" "tileId e = t"
      using findTile_loop_correct[OF assms(1) n0] by auto
    have "find_linear es t = (if covers (es ! k) t then Some (es ! k) else None)"
    proof (rule find_linear_index[OF k(1)])
      show "tileId (es ! i) \<le> t" if "i \<le> k" for i
        using ordered_by_less[OF o k(1), of i] that k(2,3) by (cases "i = k") auto
      show "t < tileId (es ! i)" if "k < i" "i < length es" for i
        using ordered_by_less[OF o that(2) that(1)] k(2,3) by simp
    qed
    with Inl k show ?thesis by (simp add: findTile_def covers_def)
  next
    case (Inr n)
    then have n: "narrowed tileId es t (n + 1) n"
      using findTile_loop_correct[OF assms(1) n0] by simp
    show ?thesis
    proof (cases "0 \<le> n")
      case False
      with n have "find_linear es t = None"
        by (intro find_linear_none) (auto simp: narrowed_def)
      with Inr False show ?thesis by (simp add: findTile_def)
    next
      case True
      have nl: "nat n < length es" using n True by (simp add: narrowed_def nat_less_iff)
      have less: "tileId (es ! i) < t" if "i \<le> nat n" for i
      proof -
        have "i < length es" "int i < n + 1" using that nl True by simp_all
        with n show ?thesis by (simp add: narrowed_def)
      qed
      have greater: "t < tileId (es ! i)" if "nat n < i" "i < length es" for i
        using n that True by (simp add: narrowed_def nat_less_iff)
      have lin: "find_linear es t = (if covers (es ! nat n) t then Some (es ! nat n) else None)"
        using less greater by (intro find_linear_index[OF nl]) (simp_all add: less_imp_le)
      have lt: "tileId (es ! nat n) < t" by (rule less) simp
      have "0 \<le> tileId (es ! nat n)"
        using assms(2) nl by (simp add: list_all_length entry_ok_def)
      then have "fli (t - tileId (es ! nat n)) = t - tileId (es ! nat n)"
        using lt assms(4) by (intro fli_exact) simp
      with Inr True lt lin show ?thesis
        by (auto simp: findTile_def covers_def fl_diff)
    qed
  qed
qed

lemma find_linear_iff:
  assumes "strictly_sorted es"
  shows "find_linear es t = Some e
    \<longleftrightarrow> e \<in> set es \<and> covers e t \<and> (\<forall>d \<in> set es. tileId d \<le> t \<longrightarrow> tileId d \<le> tileId e)"
proof (cases "filter (\<lambda>e. tileId e \<le> t) es" rule: rev_cases)
  case Nil
  then show ?thesis by (auto simp: find_linear_def covers_def filter_empty_conv)
next
  case (snoc ds l)
  have "sorted_wrt (\<lambda>d e. tileId d < tileId e) (ds @ [l])"
    using assms sorted_wrt_filter[of _ es "\<lambda>e. tileId e \<le> t"] snoc by (simp add: strictly_sorted_def ordered_by_def)
  then have less: "\<forall>d \<in> set ds. tileId d < tileId l" by (simp add: sorted_wrt_append)
  have set: "{d \<in> set es. tileId d \<le> t} = insert l (set ds)"
    using snoc by (metis insert_is_Un list.set(1,2) set_append set_filter sup_commute)
  have f: "find_linear es t = (if covers l t then Some l else None)"
    by (simp add: find_linear_def snoc)
  have "e \<in> set es \<and> tileId e \<le> t \<and> (\<forall>d \<in> set es. tileId d \<le> t \<longrightarrow> tileId d \<le> tileId e) \<longleftrightarrow> e = l"
    using set less by (smt (verit, best) insert_iff mem_Collect_eq)
  then show ?thesis
    unfolding f by (auto simp: covers_def)
qed

section \<open>What deserializeIndex returns\<close>

lemma sorted_from_iff: "sorted_from t es \<longleftrightarrow> sorted (t # map tileId es)"
  by (induction t es rule: sorted_from.induct) (auto intro: order_trans)

lemma read_ids_result:
  assumes "read_ids buf n i lastId p = Inr (es, q)"
  shows "read_ids (buf @ rest) n i lastId p = Inr (es, q) \<and> length es = nat (n - i)
    \<and> p + length es \<le> q \<and> (p \<le> length buf \<longrightarrow> q \<le> length buf)
    \<and> (fli lastId = lastId \<longrightarrow> sorted_from lastId es)"
  using assms
proof (induction buf n i lastId p arbitrary: es q rule: read_ids.induct)
  case (1 buf n i lastId p)
  show ?case
  proof (cases "i < n")
    case False
    with 1(2) show ?thesis by (simp add: read_ids.simps[of _ n])
  next
    case True
    with 1(2) obtain v p' es' where v: "readVarint buf p = Inr (v, p')"
      and r: "read_ids buf n (i + 1) (fli (lastId + v)) p' = Inr (es', q)"
      and es: "es = \<lparr>tileId = fli (lastId + v), offset = 0, len = 0, runLength = 1\<rparr> # es'"
      by (auto simp: read_ids.simps[of _ n] bind_sum_Inr_iff)
    note ih = 1(1)[OF True v refl r]
    have "lastId \<le> fli (lastId + v)" if "fli lastId = lastId"
      using fli_mono[of lastId "lastId + v"] readVarint_nonneg[OF v] that by simp
    with ih readVarint_append(1)[OF v, of rest] readVarint_append(2,3)[OF v] True es show ?thesis
      by (auto simp: read_ids.simps[of _ n])
  qed
qed

lemma read_runLengths_result:
  assumes "read_runLengths buf ds p = Inr (es, q)"
  shows "read_runLengths (buf @ rest) ds p = Inr (es, q) \<and> map tileId es = map tileId ds
    \<and> p + length ds \<le> q \<and> (p \<le> length buf \<longrightarrow> q \<le> length buf) \<and> (\<forall>e \<in> set es. 0 \<le> runLength e)"
  using assms
proof (induction ds arbitrary: p es q)
  case (Cons d ds)
  then obtain v p' es' where v: "readVarint buf p = Inr (v, p')"
    and r: "read_runLengths buf ds p' = Inr (es', q)" and es: "es = d\<lparr>runLength := v\<rparr> # es'"
    by (auto simp: bind_sum_Inr_iff)
  from Cons.IH[OF r] readVarint_append(1)[OF v, of rest] readVarint_append(2,3)[OF v] readVarint_nonneg[OF v]
  show ?case by (auto simp: es)
qed simp

lemma read_lengths_result:
  assumes "read_lengths buf ds p = Inr (es, q)" "\<forall>d \<in> set ds. 0 \<le> runLength d"
  shows "read_lengths (buf @ rest) ds p = Inr (es, q) \<and> map tileId es = map tileId ds
    \<and> p + length ds \<le> q \<and> (p \<le> length buf \<longrightarrow> q \<le> length buf)
    \<and> (\<forall>e \<in> set es. 0 \<le> runLength e \<and> 0 \<le> len e)"
  using assms
proof (induction ds arbitrary: p es q)
  case (Cons d ds)
  then obtain v p' es' where v: "readVarint buf p = Inr (v, p')"
    and r: "read_lengths buf ds p' = Inr (es', q)" and es: "es = d\<lparr>len := v\<rparr> # es'"
    by (auto simp: bind_sum_Inr_iff)
  from Cons.IH[OF r] Cons.prems(2) readVarint_append(1)[OF v, of rest] readVarint_append(2,3)[OF v]
    readVarint_nonneg[OF v]
  show ?case by (auto simp: es)
qed simp

definition entry_bounds :: "entry \<Rightarrow> bool" where
  "entry_bounds e \<longleftrightarrow> 0 \<le> runLength e \<and> 0 \<le> len e \<and> - 1 \<le> offset e"

lemma fli_ge: "a \<le> x \<Longrightarrow> \<bar>a\<bar> \<le> 2 ^ 53 \<Longrightarrow> a \<le> fli x"
  using fli_mono[of a x] by simp

lemma read_offsets_result:
  assumes "read_offsets buf prev ds p = Inr (es, q)"
    "\<forall>d \<in> set ds. 0 \<le> runLength d \<and> 0 \<le> len d" "\<And>d. prev = Some d \<Longrightarrow> entry_bounds d"
  shows "read_offsets (buf @ rest) prev ds p = Inr (es, q) \<and> map tileId es = map tileId ds
    \<and> p + length ds \<le> q \<and> (p \<le> length buf \<longrightarrow> q \<le> length buf) \<and> (\<forall>e \<in> set es. entry_bounds e)"
  using assms
proof (induction ds arbitrary: p es q prev)
  case (Cons d ds)
  define off where "off v = (case prev of
      Some e \<Rightarrow> if v = 0 then fli (offset e + len e) else fli (v - 1) | None \<Rightarrow> fli (v - 1))" for v
  from Cons.prems(1) obtain v p' es' where v: "readVarint buf p = Inr (v, p')"
    and r: "read_offsets buf (Some (d\<lparr>offset := off v\<rparr>)) ds p' = Inr (es', q)"
    and es: "es = d\<lparr>offset := off v\<rparr> # es'"
    by (auto simp: bind_sum_Inr_iff off_def Let_def)
  have "0 \<le> v" by (rule readVarint_nonneg[OF v])
  then have "- 1 \<le> off v"
    using Cons.prems(3) by (auto simp: off_def entry_bounds_def intro!: fli_ge split: option.splits)
  then have b: "entry_bounds (d\<lparr>offset := off v\<rparr>)"
    using Cons.prems(2) by (simp add: entry_bounds_def)
  have step: "read_offsets (buf @ rest) prev (d # ds) p
    = bind_sum (read_offsets (buf @ rest) (Some (d\<lparr>offset := off v\<rparr>)) ds p')
        (\<lambda>(es, p). Inr (d\<lparr>offset := off v\<rparr> # es, p))"
    using readVarint_append(1)[OF v, of rest] by (simp add: off_def Let_def)
  from Cons.IH[OF r] Cons.prems(2) b readVarint_append(2,3)[OF v]
  show ?case by (auto simp: es step simp del: read_offsets.simps(2))
qed simp

lemma parse_index_result:
  assumes "parse_index buf = Inr (es, q)"
  shows "parse_index (buf @ rest) = Inr (es, q)" "q \<le> length buf" "sorted_from 0 es"
    "list_all entry_bounds es" "4 * length es < q"
    "\<exists>n p. readVarint buf 0 = Inr (n, p) \<and> int (length es) = n"
proof -
  from assms obtain n p0 d1 p1 d2 p2 d3 p3 where
      r: "readVarint buf 0 = Inr (n, p0)" "read_ids buf n 0 0 p0 = Inr (d1, p1)"
        "read_runLengths buf d1 p1 = Inr (d2, p2)" "read_lengths buf d2 p2 = Inr (d3, p3)"
        "read_offsets buf None d3 p3 = Inr (es, q)"
    by (auto simp: parse_index_def bind_sum_Inr_iff)
  note 0 = readVarint_append[OF r(1)]
  note 1 = read_ids_result[OF r(2)]
  note 2 = read_runLengths_result[OF r(3)]
  have 3: "read_lengths (buf @ rest) d2 p2 = Inr (d3, p3) \<and> map tileId d3 = map tileId d2
    \<and> p2 + length d2 \<le> p3 \<and> (p2 \<le> length buf \<longrightarrow> p3 \<le> length buf)
    \<and> (\<forall>e \<in> set d3. 0 \<le> runLength e \<and> 0 \<le> len e)" for rest
    using read_lengths_result[OF r(4), of rest] 2 by blast
  have 4: "read_offsets (buf @ rest) None d3 p3 = Inr (es, q) \<and> map tileId es = map tileId d3
    \<and> p3 + length d3 \<le> q \<and> (p3 \<le> length buf \<longrightarrow> q \<le> length buf) \<and> (\<forall>e \<in> set es. entry_bounds e)" for rest
    using read_offsets_result[OF r(5), of rest] 3 by blast
  show "parse_index (buf @ rest) = Inr (es, q)"
    using 0(1)[of rest] 1[of rest] 2[of rest] 3[of rest] 4[of rest] by (simp add: parse_index_def)
  have ids: "map tileId es = map tileId d1"
    using 2[of "[]"] 3[of "[]"] 4[of "[]"] by simp
  have len: "length d3 = length es" "length d2 = length es" "length d1 = length es"
    using 2[of "[]"] 3[of "[]"] 4[of "[]"] by (metis length_map)+
  show "q \<le> length buf" "4 * length es < q"
    using 0(2,3) 1[of "[]"] 2[of "[]"] 3[of "[]"] 4[of "[]"] len by linarith+
  show "sorted_from 0 es"
    using 1[of "[]"] ids by (simp add: sorted_from_iff)
  show "list_all entry_bounds es" using 4 by (simp add: list_all_iff)
  show "\<exists>n p. readVarint buf 0 = Inr (n, p) \<and> int (length es) = n"
    using r(1) 1[of "[]"] len(3) readVarint_nonneg[OF r(1)] by simp
qed

text \<open>The only exception is the one of \<^verbatim>\<open>readVarintRemainder\<close>.\<close>

abbreviation varint_error :: js_error where
  "varint_error \<equiv> Error ''Expected varint not more than 10 bytes''"

lemma readVarint_error: "readVarint buf p = Inl e \<Longrightarrow> e = varint_error"
  using readVarint_cases[of buf p] by simp

lemma read_ids_error: "read_ids buf n i lastId p = Inl e \<Longrightarrow> e = varint_error"
proof (induction buf n i lastId p rule: read_ids.induct)
  case (1 buf n i lastId p)
  from 1(2) show ?case
    by (subst (asm) read_ids.simps) (auto simp: bind_sum_Inl_iff readVarint_error dest: 1(1) split: if_splits)
qed

lemma read_columns_error:
  "read_runLengths buf ds p = Inl e \<Longrightarrow> e = varint_error"
  "read_lengths buf ds p = Inl e \<Longrightarrow> e = varint_error"
  "read_offsets buf prev ds p = Inl e \<Longrightarrow> e = varint_error"
  by (induction ds arbitrary: p prev) (auto simp: bind_sum_Inl_iff readVarint_error Let_def)

lemma deserializeIndex_error: "deserializeIndex buf = Inl e \<Longrightarrow> e = varint_error"
  by (auto simp: deserializeIndex_def bind_sum_Inl_iff readVarint_error read_ids_error read_columns_error)

section \<open>Properties\<close>

text \<open>
  C10: \<^verbatim>\<open>deserializeIndex\<close> is the inverse of the serializer of the format: every directory with
  ordered ids and numbers below \<open>2^53\<close> is read back as it was written, whatever follows it.
\<close>

theorem directory_roundtrip:
  assumes "dir_ok es"
  shows "deserializeIndex (serializeIndex es @ rest) = Inr es"
  using parse_index_serializeIndex[OF assms] by (simp add: deserializeIndex_parse)

lemma directory_roundtrip_witness:
  "deserializeIndex (serializeIndex [\<lparr>tileId = 3, offset = 0, len = 10, runLength = 2\<rparr>,
      \<lparr>tileId = 300, offset = 10, len = 20, runLength = 1\<rparr>] @ [9, 9])
    = Inr [\<lparr>tileId = 3, offset = 0, len = 10, runLength = 2\<rparr>,
      \<lparr>tileId = 300, offset = 10, len = 20, runLength = 1\<rparr>]"
  by (rule directory_roundtrip) (simp add: dir_ok_def entry_ok_def)

text \<open>
  C36: a truncated directory is never taken for a shorter one: every proper prefix of a serialized
  directory makes \<^verbatim>\<open>deserializeIndex\<close> throw.
\<close>

theorem directory_truncated:
  assumes "dir_ok es" "k < length (serializeIndex es)"
  shows "deserializeIndex (take k (serializeIndex es))
    = Inl (Error ''Expected varint not more than 10 bytes'')"
proof (cases "deserializeIndex (take k (serializeIndex es))")
  case (Inl e)
  then show ?thesis using deserializeIndex_error by simp
next
  case (Inr ds)
  then obtain q where q: "parse_index (take k (serializeIndex es)) = Inr (ds, q)"
    by (cases "parse_index (take k (serializeIndex es))") (auto simp: deserializeIndex_parse)
  from parse_index_result(1)[OF q, of "drop k (serializeIndex es)"]
  have "parse_index (serializeIndex es) = Inr (ds, q)" by simp
  with parse_index_serializeIndex[OF assms(1), of "[]"] have "q = length (serializeIndex es)" by simp
  with parse_index_result(2)[OF q] assms(2) show ?thesis by simp
qed

lemma directory_truncated_witness:
  "deserializeIndex (take 3 (serializeIndex [\<lparr>tileId = 3, offset = 0, len = 10, runLength = 2\<rparr>]))
    = Inl (Error ''Expected varint not more than 10 bytes'')"
  by (rule directory_truncated)
    (simp_all add: dir_ok_def entry_ok_def serializeIndex_def enc_int_def enc_varint_small)

text \<open>
  C15: whatever the bytes are, \<^verbatim>\<open>deserializeIndex\<close> returns (its loops end), the directory it
  returns has as many entries as the buffer announces and at most a quarter of the buffer's length,
  its ids are in order, no run length and no length is negative and no offset is below -1; the only
  exception it throws is that of an unfinished number.
\<close>

theorem directory_result:
  "case deserializeIndex buf of
     Inl e \<Rightarrow> e = Error ''Expected varint not more than 10 bytes''
   | Inr es \<Rightarrow> 4 * length es < length buf \<and> sorted (0 # map tileId es)
       \<and> list_all (\<lambda>e. 0 \<le> runLength e \<and> 0 \<le> len e \<and> - 1 \<le> offset e) es
       \<and> (\<exists>p. readVarint buf 0 = Inr (int (length es), p))"
proof (cases "deserializeIndex buf")
  case (Inl e)
  then show ?thesis using deserializeIndex_error by simp
next
  case (Inr es)
  then obtain q where q: "parse_index buf = Inr (es, q)"
    by (cases "parse_index buf") (auto simp: deserializeIndex_parse)
  from parse_index_result(2-6)[OF q] show ?thesis
    unfolding Inr sum.case sorted_from_iff entry_bounds_def by auto
qed

text \<open>
  C9: on a directory with strictly increasing ids the binary search \<^verbatim>\<open>findTile\<close> returns what a
  linear search does: the entry with the largest id at or before the tile, provided that it is the
  tile itself, a pointer to a leaf directory (run length 0) or a run that reaches the tile; and
  \<^verbatim>\<open>null\<close> when there is no such entry.
\<close>

theorem findTile_correct:
  assumes "strictly_sorted es" "list_all entry_ok es" "0 \<le> t" "t \<le> 2 ^ 53"
  shows "findTile es (of_int t) = find_linear es t
    \<and> (findTile es (of_int t) = Some e
        \<longleftrightarrow> e \<in> set es \<and> covers e t \<and> (\<forall>d \<in> set es. tileId d \<le> t \<longrightarrow> tileId d \<le> tileId e))"
  using findTile_eq_find_linear[OF assms] find_linear_iff[OF assms(1)] by simp

lemma findTile_correct_witness:
  "findTile [\<lparr>tileId = 3, offset = 0, len = 10, runLength = 2\<rparr>,
      \<lparr>tileId = 300, offset = 10, len = 20, runLength = 0\<rparr>] (of_int 4)
    = Some \<lparr>tileId = 3, offset = 0, len = 10, runLength = 2\<rparr>
   \<and> findTile [\<lparr>tileId = 3, offset = 0, len = 10, runLength = 2\<rparr>,
      \<lparr>tileId = 300, offset = 10, len = 20, runLength = 0\<rparr>] (of_int 5) = None"
proof -
  have "strictly_sorted [\<lparr>tileId = 3, offset = 0, len = 10, runLength = 2\<rparr>,
      \<lparr>tileId = 300, offset = 10, len = 20, runLength = 0\<rparr>]"
    "list_all entry_ok [\<lparr>tileId = 3, offset = 0, len = 10, runLength = 2\<rparr>,
      \<lparr>tileId = 300, offset = 10, len = 20, runLength = 0\<rparr>]"
    by (simp_all add: strictly_sorted_def ordered_by_def entry_ok_def)
  note f = findTile_correct[OF this]
  show ?thesis
    using f[of 4, THEN conjunct1] f[of 5, THEN conjunct1] by (simp add: find_linear_def covers_def)
qed

end
