(* ===== verification/Header.thy ===== *)
theory Header
  imports Bytes Js_Text
begin

text \<open>
  The fixed-size header of an archive, \<^verbatim>\<open>getUint64\<close>, \<^verbatim>\<open>bytesToHeader\<close> and
  \<^verbatim>\<open>detectVersion\<close>, and the tables \<^verbatim>\<open>Compression\<close>, \<^verbatim>\<open>TileType\<close> and
  \<^verbatim>\<open>tileTypeExt\<close> of \<^verbatim>\<open>src/app/static/js/pmtiles.js\<close>, with a reference encoder. The
  warnings printed to the console are not modelled.
\<close>

section \<open>The code\<close>

record header =
  specVersion :: int
  rootDirectoryOffset :: int
  rootDirectoryLength :: int
  jsonMetadataOffset :: int
  jsonMetadataLength :: int
  leafDirectoryOffset :: int
  leafDirectoryLength :: int
  tileDataOffset :: int
  tileDataLength :: int
  numAddressedTiles :: int
  numTileEntries :: int
  numTileContents :: int
  clustered :: bool
  internalCompression :: int
  tileCompression :: int
  tileType :: int
  minZoom :: int
  maxZoom :: int
  minLon :: rat
  minLat :: rat
  maxLon :: rat
  maxLat :: rat
  centerZoom :: int
  centerLon :: rat
  centerLat :: rat
  etag :: "string option"

definition getUint64 :: "bytes \<Rightarrow> nat \<Rightarrow> js_error + int" where
  "getUint64 v i =
     bind_sum (getUint32 v (i + 4)) (\<lambda>wh.
     bind_sum (getUint32 v (i + 0)) (\<lambda>wl.
     Inr (fli (fli (wh * 2 ^ 32) + wl))))"

definition bytesToHeader :: "bytes \<Rightarrow> string option \<Rightarrow> js_error + header" where
  "bytesToHeader v tag =
     bind_sum (getUint8 v 7) (\<lambda>version.
     if version > 3 then
       Inl (Error (''Archive is spec version '' @ num_text (of_int version)
         @ '' but this library supports up to spec version 3''))
     else
     bind_sum (getUint64 v 8) (\<lambda>rdo. bind_sum (getUint64 v 16) (\<lambda>rdl.
     bind_sum (getUint64 v 24) (\<lambda>jmo. bind_sum (getUint64 v 32) (\<lambda>jml.
     bind_sum (getUint64 v 40) (\<lambda>ldo. bind_sum (getUint64 v 48) (\<lambda>ldl.
     bind_sum (getUint64 v 56) (\<lambda>tdo. bind_sum (getUint64 v 64) (\<lambda>tdl.
     bind_sum (getUint64 v 72) (\<lambda>nat'. bind_sum (getUint64 v 80) (\<lambda>nte.
     bind_sum (getUint64 v 88) (\<lambda>ntc. bind_sum (getUint8 v 96) (\<lambda>cl.
     bind_sum (getUint8 v 97) (\<lambda>ic. bind_sum (getUint8 v 98) (\<lambda>tc.
     bind_sum (getUint8 v 99) (\<lambda>tt. bind_sum (getUint8 v 100) (\<lambda>mnz.
     bind_sum (getUint8 v 101) (\<lambda>mxz. bind_sum (getInt32 v 102) (\<lambda>mnlo.
     bind_sum (getInt32 v 106) (\<lambda>mnla. bind_sum (getInt32 v 110) (\<lambda>mxlo.
     bind_sum (getInt32 v 114) (\<lambda>mxla. bind_sum (getUint8 v 118) (\<lambda>cz.
     bind_sum (getInt32 v 119) (\<lambda>clo. bind_sum (getInt32 v 123) (\<lambda>cla.
     Inr \<lparr>specVersion = version, rootDirectoryOffset = rdo, rootDirectoryLength = rdl,
       jsonMetadataOffset = jmo, jsonMetadataLength = jml, leafDirectoryOffset = ldo,
       leafDirectoryLength = ldl, tileDataOffset = tdo, tileDataLength = tdl,
       numAddressedTiles = nat', numTileEntries = nte, numTileContents = ntc, clustered = (cl = 1),
       internalCompression = ic, tileCompression = tc, tileType = tt, minZoom = mnz, maxZoom = mxz,
       minLon = fl (of_int mnlo / 10 ^ 7), minLat = fl (of_int mnla / 10 ^ 7),
       maxLon = fl (of_int mxlo / 10 ^ 7), maxLat = fl (of_int mxla / 10 ^ 7), centerZoom = cz,
       centerLon = fl (of_int clo / 10 ^ 7), centerLat = fl (of_int cla / 10 ^ 7),
       etag = tag\<rparr>)))))))))))))))))))))))))"

definition detectVersion :: "bytes \<Rightarrow> js_error + int" where
  "detectVersion v =
     bind_sum (getUint16 v 2) (\<lambda>a.
     if a = 2 then Inr 2 else
     bind_sum (getUint16 v 2) (\<lambda>b.
     if b = 1 then Inr 1 else Inr 3))"

definition tileTypeExt :: "int \<Rightarrow> string" where
  "tileTypeExt t =
     (if t = 1 then ''.mvt''
      else if t = 2 then ''.png''
      else if t = 3 then ''.jpg''
      else if t = 4 then ''.webp''
      else if t = 5 then ''.avif''
      else '''')"

definition HEADER_SIZE_BYTES :: int where
  "HEADER_SIZE_BYTES = 127"

section \<open>A reference encoder\<close>

definition e7 :: "rat \<Rightarrow> int" where
  "e7 d = round (d * 10 ^ 7)"

definition magic :: bytes where
  "magic = [80, 77, 84, 105, 108, 101, 115]"

lemma length_magic [simp]: "length magic = 7"
  by (simp add: magic_def)

definition header_bytes :: "header \<Rightarrow> bytes" where
  "header_bytes h =
     magic @ le_bytes 1 (specVersion h)
     @ le_bytes 8 (rootDirectoryOffset h) @ le_bytes 8 (rootDirectoryLength h)
     @ le_bytes 8 (jsonMetadataOffset h) @ le_bytes 8 (jsonMetadataLength h)
     @ le_bytes 8 (leafDirectoryOffset h) @ le_bytes 8 (leafDirectoryLength h)
     @ le_bytes 8 (tileDataOffset h) @ le_bytes 8 (tileDataLength h)
     @ le_bytes 8 (numAddressedTiles h) @ le_bytes 8 (numTileEntries h) @ le_bytes 8 (numTileContents h)
     @ le_bytes 1 (of_bool (clustered h)) @ le_bytes 1 (internalCompression h)
     @ le_bytes 1 (tileCompression h) @ le_bytes 1 (tileType h) @ le_bytes 1 (minZoom h)
     @ le_bytes 1 (maxZoom h) @ le_bytes 4 (e7 (minLon h)) @ le_bytes 4 (e7 (minLat h))
     @ le_bytes 4 (e7 (maxLon h)) @ le_bytes 4 (e7 (maxLat h)) @ le_bytes 1 (centerZoom h)
     @ le_bytes 4 (e7 (centerLon h)) @ le_bytes 4 (e7 (centerLat h))"

definition degrees_ok :: "rat \<Rightarrow> bool" where
  "degrees_ok d \<longleftrightarrow> \<bar>d\<bar> \<le> 180 \<and> d = fl (of_int (e7 d) / 10 ^ 7)"

definition u64_ok :: "int \<Rightarrow> bool" where
  "u64_ok x \<longleftrightarrow> 0 \<le> x \<and> x < 2 ^ 64 \<and> fli x = x"

definition u8_ok :: "int \<Rightarrow> bool" where
  "u8_ok x \<longleftrightarrow> 0 \<le> x \<and> x < 2 ^ 8"

definition header_ok :: "header \<Rightarrow> bool" where
  "header_ok h \<longleftrightarrow> 0 \<le> specVersion h \<and> specVersion h \<le> 3
     \<and> list_all u64_ok [rootDirectoryOffset h, rootDirectoryLength h, jsonMetadataOffset h,
         jsonMetadataLength h, leafDirectoryOffset h, leafDirectoryLength h, tileDataOffset h,
         tileDataLength h, numAddressedTiles h, numTileEntries h, numTileContents h]
     \<and> list_all u8_ok [internalCompression h, tileCompression h, tileType h, minZoom h, maxZoom h,
         centerZoom h]
     \<and> list_all degrees_ok [minLon h, minLat h, maxLon h, maxLat h, centerLon h, centerLat h]"

section \<open>Reading the fields back\<close>

lemma get_skip [bytes_simps]:
  "length p \<le> i \<Longrightarrow> getUint8 (p @ v) i = getUint8 v (i - length p)"
  "length p \<le> i \<Longrightarrow> getUint16 (p @ v) i = getUint16 v (i - length p)"
  "length p \<le> i \<Longrightarrow> getUint32 (p @ v) i = getUint32 v (i - length p)"
  "length p \<le> i \<Longrightarrow> getInt32 (p @ v) i = getInt32 v (i - length p)"
  by (auto simp: getUint8_def getUint16_def getUint32_def getInt32_def nth_append Suc_diff_le
      numeral_2_eq_2 numeral_3_eq_3)

lemma getUint64_skip [bytes_simps]:
  "length p \<le> i \<Longrightarrow> getUint64 (p @ v) i = getUint64 v (i - length p)"
  by (simp add: getUint64_def bytes_simps)

lemma le_bytes_8: "le_bytes 8 x = le_bytes 4 x @ le_bytes 4 (x div 2 ^ 32)"
  by (simp add: eval_nat_numeral zdiv_zmult2_eq [symmetric])

lemma div_less_pow: "(x :: int) < 2 ^ 32 * 2 ^ 32 \<Longrightarrow> x div 2 ^ 32 < 2 ^ 32"
  by (simp add: pos_zdiv_mult_2 int_div_less_self div_less_iff_less_mult)

lemma fli_shifted:
  assumes "\<bar>m\<bar> < 2 ^ 53"
  shows "fli (m * 2 ^ k) = m * 2 ^ k"
proof -
  have "fl (of_int (m * 2 ^ k)) = of_int (m * 2 ^ k)"
    by (rule fl_representable[where m = m and e = "int k"]) (use assms in simp_all)
  then show ?thesis by (simp only: of_int_fli [symmetric] of_int_eq_iff)
qed

lemma getUint32_le_mod: "getUint32 (le_bytes 4 x @ r) 0 = Inr (x mod 2 ^ 32)"
proof -
  define y z where "y = x div 256" and "z = y div 256"
  have "x mod 4294967296 = 256 * (y mod 16777216) + x mod 256"
    using zmod_zmult2_eq[of 16777216 x 256] by (simp add: y_def)
  moreover have "y mod 16777216 = 256 * (z mod 65536) + y mod 256"
    using zmod_zmult2_eq[of 65536 y 256] by (simp add: z_def)
  moreover have "z mod 65536 = 256 * (z div 256 mod 256) + z mod 256"
    using zmod_zmult2_eq[of 256 z 256] by simp
  ultimately have "x mod 256 + 256 * (y mod 256) + 65536 * (z mod 256) + 16777216 * (z div 256 mod 256)
      = x mod 4294967296"
    by linarith
  then show ?thesis
    by (simp add: getUint32_def uint_word_of_int_byte eval_nat_numeral y_def z_def)
qed

lemma getInt32_le:
  assumes "- (2 ^ 31) \<le> x" "x < 2 ^ 31"
  shows "getInt32 (le_bytes 4 x @ r) 0 = Inr x"
proof -
  have "to_i32 (take_bit 32 x) = to_i32 x"
    unfolding to_i32_def by (rule bit_eqI) (auto simp: bit_signed_take_bit_iff bit_take_bit_iff)
  then have "to_i32 (x mod 2 ^ 32) = to_i32 x" by (simp only: take_bit_eq_mod)
  with assms show ?thesis by (simp only: getInt32_def getUint32_le_mod map_sum.simps to_i32_exact)
qed

lemma getUint64_le:
  assumes "0 \<le> x" "x < 2 ^ 64"
  shows "getUint64 (le_bytes 8 x @ r) 0 = Inr (fli x)"
proof -
  let ?h = "x div 2 ^ 32" and ?l = "x mod 2 ^ 32"
  have h: "0 \<le> ?h" using assms by (simp add: pos_imp_zdiv_nonneg_iff)
  have "x < 2 ^ 32 * 2 ^ 32" using assms by simp
  then have h': "?h < 2 ^ 32" by (rule div_less_pow)
  have s: "?h * 2 ^ 32 + ?l = x" by simp
  have f: "fli (?h * 2 ^ 32) = ?h * 2 ^ 32"
    using h h' by (intro fli_shifted) simp_all
  have "getUint32 (le_bytes 8 x @ r) 4 = Inr ?h" "getUint32 (le_bytes 8 x @ r) 0 = Inr ?l"
    using h h' getUint32_le_mod[of ?h r] getUint32_le_mod[of x "le_bytes 4 ?h @ r"]
    by (simp_all add: le_bytes_8 bytes_simps)
  then show ?thesis
    by (simp only: getUint64_def f s bind_sum_simps add_0_left add_0_right)
qed

section \<open>Round trip and errors\<close>

lemma e7_range: "\<bar>d\<bar> \<le> 180 \<Longrightarrow> - (2 ^ 31) \<le> e7 d \<and> e7 d < 2 ^ 31"
proof -
  assume d: "\<bar>d\<bar> \<le> 180"
  have "of_int (e7 d) \<le> d * 10 ^ 7 + 1 / 2" "d * 10 ^ 7 - 1 / 2 < of_int (e7 d)"
    unfolding e7_def by (rule of_int_round_le, rule of_int_round_gt)
  then have "of_int (e7 d) < (of_int (2 ^ 31) :: rat)" "(of_int (- (2 ^ 31)) :: rat) \<le> of_int (e7 d)"
    using d by simp_all
  then show ?thesis by (simp only: of_int_less_iff of_int_le_iff)
qed

lemma field_u64: "u64_ok x \<Longrightarrow> getUint64 (le_bytes 8 x @ r) 0 = Inr x"
  by (simp only: u64_ok_def getUint64_le)

lemma field_u8: "u8_ok x \<Longrightarrow> getUint8 (le_bytes 1 x @ r) 0 = Inr x"
  by (simp only: u8_ok_def getUint8_le)

lemma field_degrees:
  "degrees_ok d \<Longrightarrow> getInt32 (le_bytes 4 (e7 d) @ r) 0 = Inr (e7 d)"
  "degrees_ok d \<Longrightarrow> fl (of_int (e7 d) / 10 ^ 7) = d"
  using e7_range[of d] by (simp_all only: degrees_ok_def getInt32_le)

lemma length_header_bytes: "length (header_bytes h) = 127"
  by (simp add: header_bytes_def)

lemma header_u8: "header_ok h \<Longrightarrow> u8_ok (specVersion h) \<and> u8_ok (of_bool (clustered h))"
  by (simp add: header_ok_def u8_ok_def)

lemma header_fields:
  assumes "header_ok h"
  shows
    "getUint8 (header_bytes h @ r) 7 = Inr (specVersion h)"
    "getUint64 (header_bytes h @ r) 8 = Inr (rootDirectoryOffset h)"
    "getUint64 (header_bytes h @ r) 16 = Inr (rootDirectoryLength h)"
    "getUint64 (header_bytes h @ r) 24 = Inr (jsonMetadataOffset h)"
    "getUint64 (header_bytes h @ r) 32 = Inr (jsonMetadataLength h)"
    "getUint64 (header_bytes h @ r) 40 = Inr (leafDirectoryOffset h)"
    "getUint64 (header_bytes h @ r) 48 = Inr (leafDirectoryLength h)"
    "getUint64 (header_bytes h @ r) 56 = Inr (tileDataOffset h)"
    "getUint64 (header_bytes h @ r) 64 = Inr (tileDataLength h)"
    "getUint64 (header_bytes h @ r) 72 = Inr (numAddressedTiles h)"
    "getUint64 (header_bytes h @ r) 80 = Inr (numTileEntries h)"
    "getUint64 (header_bytes h @ r) 88 = Inr (numTileContents h)"
    "getUint8 (header_bytes h @ r) 96 = Inr (of_bool (clustered h))"
    "getUint8 (header_bytes h @ r) 97 = Inr (internalCompression h)"
    "getUint8 (header_bytes h @ r) 98 = Inr (tileCompression h)"
    "getUint8 (header_bytes h @ r) 99 = Inr (tileType h)"
    "getUint8 (header_bytes h @ r) 100 = Inr (minZoom h)"
    "getUint8 (header_bytes h @ r) 101 = Inr (maxZoom h)"
    "getInt32 (header_bytes h @ r) 102 = Inr (e7 (minLon h))"
    "getInt32 (header_bytes h @ r) 106 = Inr (e7 (minLat h))"
    "getInt32 (header_bytes h @ r) 110 = Inr (e7 (maxLon h))"
    "getInt32 (header_bytes h @ r) 114 = Inr (e7 (maxLat h))"
    "getUint8 (header_bytes h @ r) 118 = Inr (centerZoom h)"
    "getInt32 (header_bytes h @ r) 119 = Inr (e7 (centerLon h))"
    "getInt32 (header_bytes h @ r) 123 = Inr (e7 (centerLat h))"
  using assms header_u8[OF assms] unfolding header_ok_def header_bytes_def append_assoc list.pred_inject
  by (simp_all add: get_skip getUint64_skip field_u64 field_u8 field_degrees del: le_bytes.simps One_nat_def)

lemma bytesToHeader_header_bytes:
  assumes "header_ok h"
  shows "bytesToHeader (header_bytes h @ r) tag = Inr (h\<lparr>etag := tag\<rparr>)"
proof -
  have "specVersion h \<le> 3" "degrees_ok (minLon h)" "degrees_ok (minLat h)" "degrees_ok (maxLon h)"
    "degrees_ok (maxLat h)" "degrees_ok (centerLon h)" "degrees_ok (centerLat h)"
    using assms by (simp_all add: header_ok_def)
  then show ?thesis
    by (simp add: bytesToHeader_def header_fields[OF assms] field_degrees(2)[simplified])
qed

text \<open>A read either fails for a range error or gives a value, in range.\<close>

lemma get_cases:
  "getUint8 v i = Inl Range_error \<or> (\<exists>x. getUint8 v i = Inr x)"
  "getUint32 v i = Inl Range_error \<or> (\<exists>x. getUint32 v i = Inr x)"
  "getInt32 v i = Inl Range_error \<or> (\<exists>x. getInt32 v i = Inr x)"
  "getUint64 v i = Inl Range_error \<or> (\<exists>x. getUint64 v i = Inr x)"
  by (auto simp: getUint8_def getUint32_def getInt32_def getUint64_def)

lemma get_available:
  "i < length v \<Longrightarrow> getUint8 v i \<noteq> Inl e"
  "i + 4 \<le> length v \<Longrightarrow> getInt32 v i \<noteq> Inl e"
  "i + 8 \<le> length v \<Longrightarrow> getUint64 v i \<noteq> Inl e"
  by (auto simp: getUint8_def getUint32_def getInt32_def getUint64_def)

lemma getUint64_range:
  assumes "getUint64 v i = Inr x"
  shows "0 \<le> x \<and> x \<le> 2 ^ 64 \<and> fli x = x"
proof -
  from assms obtain h l where hl: "getUint32 v (i + 4) = Inr h" "getUint32 v (i + 0) = Inr l"
    and x: "x = fli (fli (h * 2 ^ 32) + l)"
    by (auto simp: getUint64_def bind_sum_Inr_iff)
  note rng = getUint32_range[OF hl(1)] getUint32_range[OF hl(2)]
  have "fli (h * 2 ^ 32) = h * 2 ^ 32" using rng by (intro fli_shifted) simp
  moreover have "0 \<le> h * 2 ^ 32 + l" "h * 2 ^ 32 + l \<le> 2 ^ 64" using rng by simp_all
  ultimately
  have "fli 0 \<le> x" "x \<le> fli (2 ^ 64)"
    unfolding x by (simp_all only: fli_mono)
  moreover have "fli 0 = 0" by simp
  moreover have "fli (1 * 2 ^ 64) = 1 * 2 ^ 64" by (rule fli_shifted) simp
  ultimately show ?thesis using x by simp
qed

lemma degrees_range:
  assumes "getInt32 v i = Inr x"
  shows "\<bar>fl (of_int x / 10 ^ 7)\<bar> \<le> 215"
proof -
  have "\<bar>(of_int x :: rat)\<bar> \<le> of_int (2 ^ 31)"
    using getInt32_range[OF assms] by (simp only: of_int_abs [symmetric] of_int_le_iff) linarith
  then have "of_int x / 10 ^ 7 \<le> (of_int 215 :: rat)" "of_int (- 215) \<le> (of_int x / 10 ^ 7 :: rat)"
    by simp_all
  then have "fl (of_int x / 10 ^ 7) \<le> of_int 215 \<and> of_int (- 215) \<le> fl (of_int x / 10 ^ 7)"
    by (intro conjI fl_le_int fl_ge_int) simp_all
  then show ?thesis unfolding of_int_numeral of_int_minus by linarith
qed

lemma get_error:
  "getUint8 v i = Inl e \<Longrightarrow> e = Range_error"
  "getInt32 v i = Inl e \<Longrightarrow> e = Range_error"
  "getUint64 v i = Inl e \<Longrightarrow> e = Range_error"
  using get_cases[of v i] by auto

lemma bytesToHeader_error:
  assumes "uint (v ! 7) \<le> 3" "bytesToHeader v tag = Inl e"
  shows "e = Range_error"
proof (cases "getUint8 v 7")
  case (Inr n)
  then have "n \<le> 3" using assms(1) by (simp add: getUint8_def split: if_splits)
  with assms(2) Inr show ?thesis
    by (auto simp: bytesToHeader_def bind_sum_Inl_iff get_error)
next
  case (Inl d)
  with assms(2) show ?thesis by (simp add: bytesToHeader_def get_error)
qed

lemma bytesToHeader_short:
  assumes "uint (v ! 7) \<le> 3" "length v < 127"
  shows "bytesToHeader v tag = Inl Range_error"
proof (cases "bytesToHeader v tag")
  case (Inl e)
  with bytesToHeader_error[OF assms(1)] show ?thesis by simp
next
  case (Inr h)
  have "getInt32 v 123 = Inl Range_error" using assms by (simp add: getInt32_def getUint32_def)
  with Inr show ?thesis by (auto simp: bytesToHeader_def bind_sum_Inr_iff split: if_splits)
qed

definition header_bounds :: "header \<Rightarrow> bool" where
  "header_bounds h \<longleftrightarrow> 0 \<le> specVersion h \<and> specVersion h \<le> 3
     \<and> list_all (\<lambda>x. 0 \<le> x \<and> x \<le> 2 ^ 64 \<and> fli x = x) [rootDirectoryOffset h, rootDirectoryLength h,
         jsonMetadataOffset h, jsonMetadataLength h, leafDirectoryOffset h, leafDirectoryLength h,
         tileDataOffset h, tileDataLength h, numAddressedTiles h, numTileEntries h, numTileContents h]
     \<and> list_all u8_ok [internalCompression h, tileCompression h, tileType h, minZoom h, maxZoom h,
         centerZoom h]
     \<and> list_all (\<lambda>d. \<bar>d\<bar> \<le> 215) [minLon h, minLat h, maxLon h, maxLat h, centerLon h, centerLat h]"

lemma bytesToHeader_bounds:
  assumes "bytesToHeader v tag = Inr h"
  shows "header_bounds h \<and> etag h = tag"
proof -
  from assms obtain ver rdo rdl jmo jml ldo ldl tdo tdl adt nte ntc cl ic tc tt mnz mxz mnlo mnla mxlo mxla cz
      clo cla where r:
      "getUint8 v 7 = Inr ver" "getUint64 v 8 = Inr rdo" "getUint64 v 16 = Inr rdl"
      "getUint64 v 24 = Inr jmo" "getUint64 v 32 = Inr jml" "getUint64 v 40 = Inr ldo"
      "getUint64 v 48 = Inr ldl" "getUint64 v 56 = Inr tdo" "getUint64 v 64 = Inr tdl"
      "getUint64 v 72 = Inr adt" "getUint64 v 80 = Inr nte" "getUint64 v 88 = Inr ntc"
      "getUint8 v 97 = Inr ic" "getUint8 v 98 = Inr tc" "getUint8 v 99 = Inr tt"
      "getUint8 v 100 = Inr mnz" "getUint8 v 101 = Inr mxz" "getInt32 v 102 = Inr mnlo"
      "getInt32 v 106 = Inr mnla" "getInt32 v 110 = Inr mxlo" "getInt32 v 114 = Inr mxla"
      "getUint8 v 118 = Inr cz" "getInt32 v 119 = Inr clo" "getInt32 v 123 = Inr cla"
    and h: "h = \<lparr>specVersion = ver, rootDirectoryOffset = rdo, rootDirectoryLength = rdl,
       jsonMetadataOffset = jmo, jsonMetadataLength = jml, leafDirectoryOffset = ldo,
       leafDirectoryLength = ldl, tileDataOffset = tdo, tileDataLength = tdl,
       numAddressedTiles = adt, numTileEntries = nte, numTileContents = ntc, clustered = cl,
       internalCompression = ic, tileCompression = tc, tileType = tt, minZoom = mnz, maxZoom = mxz,
       minLon = fl (of_int mnlo / 10 ^ 7), minLat = fl (of_int mnla / 10 ^ 7),
       maxLon = fl (of_int mxlo / 10 ^ 7), maxLat = fl (of_int mxla / 10 ^ 7), centerZoom = cz,
       centerLon = fl (of_int clo / 10 ^ 7), centerLat = fl (of_int cla / 10 ^ 7), etag = tag\<rparr>"
    and ver: "ver \<le> 3"
    unfolding bytesToHeader_def by (auto simp: bind_sum_Inr_iff split: if_splits)
  show ?thesis
    unfolding h header_bounds_def u8_ok_def using ver
      getUint8_range[OF r(1)] getUint64_range[OF r(2)] getUint64_range[OF r(3)] getUint64_range[OF
      r(4)] getUint64_range[OF r(5)] getUint64_range[OF r(6)] getUint64_range[OF r(7)]
      getUint64_range[OF r(8)] getUint64_range[OF r(9)] getUint64_range[OF r(10)] getUint64_range[OF
      r(11)] getUint64_range[OF r(12)] getUint8_range[OF r(13)] getUint8_range[OF r(14)]
      getUint8_range[OF r(15)] getUint8_range[OF r(16)] getUint8_range[OF r(17)] degrees_range[OF
      r(18)] degrees_range[OF r(19)] degrees_range[OF r(20)] degrees_range[OF r(21)]
      getUint8_range[OF r(22)] degrees_range[OF r(23)] degrees_range[OF r(24)]
    by (simp del: abs_le_iff)
qed

lemma bytesToHeader_long:
  assumes "127 \<le> length v" "uint (v ! 7) \<le> 3"
  shows "\<exists>h. bytesToHeader v tag = Inr h"
proof (cases "bytesToHeader v tag")
  case (Inl e)
  have "getUint8 v 7 = Inr (uint (v ! 7))" using assms by (simp add: getUint8_def)
  with assms Inl show ?thesis
    by (simp add: bytesToHeader_def bind_sum_Inl_iff get_available)
qed simp

lemma header_magic:
  "getUint16 (header_bytes h @ r) 0 = Inr 19792" "detectVersion (header_bytes h @ r) = Inr 3"
  by (simp_all add: header_bytes_def magic_def getUint16_def detectVersion_def)

section \<open>Properties\<close>

text \<open>
  C16: a header written in the format is read back field by field, and carries the magic number and
  a version that \<^verbatim>\<open>detectVersion\<close> does not take for an old one.
\<close>

theorem header_roundtrip:
  assumes "header_ok h"
  shows "bytesToHeader (header_bytes h @ r) tag = Inr (h\<lparr>etag := tag\<rparr>)
    \<and> getUint16 (header_bytes h @ r) 0 = Inr 19792 \<and> detectVersion (header_bytes h @ r) = Inr 3"
  using bytesToHeader_header_bytes[OF assms] header_magic by simp

definition sample_header :: header where
  "sample_header = \<lparr>specVersion = 3, rootDirectoryOffset = 127, rootDirectoryLength = 246,
     jsonMetadataOffset = 373, jsonMetadataLength = 100, leafDirectoryOffset = 473,
     leafDirectoryLength = 0, tileDataOffset = 473, tileDataLength = 5000000000,
     numAddressedTiles = 85, numTileEntries = 84, numTileContents = 80, clustered = True,
     internalCompression = 1, tileCompression = 2, tileType = 1, minZoom = 0, maxZoom = 3,
     minLon = -180, minLat = -85, maxLon = 180, maxLat = 85, centerZoom = 1, centerLon = 11,
     centerLat = 43, etag = None\<rparr>"

lemma degrees_ok_int: "\<bar>k\<bar> \<le> 180 \<Longrightarrow> degrees_ok (of_int k)"
proof -
  assume k: "\<bar>k\<bar> \<le> 180"
  have "e7 (of_int k) = k * 10 ^ 7"
    using round_of_int[of "k * 10 ^ 7", where ?'a = rat] unfolding e7_def by simp
  with k show ?thesis by (simp add: degrees_ok_def fl_of_int)
qed

lemma header_ok_sample: "header_ok sample_header"
  using degrees_ok_int[of 180] degrees_ok_int[of "-180"] degrees_ok_int[of 85] degrees_ok_int[of "-85"]
    degrees_ok_int[of 11] degrees_ok_int[of 43]
  by (simp add: header_ok_def sample_header_def u64_ok_def u8_ok_def)

lemma header_roundtrip_witness:
  "bytesToHeader (header_bytes sample_header @ [1, 2]) (Some ''x'')
    = Inr (sample_header\<lparr>etag := Some ''x''\<rparr>)"
  using header_roundtrip[OF header_ok_sample, of "[1, 2]"] by blast

text \<open>
  C35: \<^verbatim>\<open>bytesToHeader\<close> on any buffer: it throws a range error exactly when the buffer ends
  before the version, or before the 127th byte with a version it supports; it refuses later versions
  with its own message; otherwise it gives a header whose numbers are in the range of their fields.
\<close>

theorem header_total:
  "(length v < 8 \<longrightarrow> bytesToHeader v tag = Inl Range_error)
   \<and> (8 \<le> length v \<and> 3 < uint (v ! 7) \<longrightarrow> bytesToHeader v tag =
        Inl (Error (''Archive is spec version '' @ num_text (of_int (uint (v ! 7)))
          @ '' but this library supports up to spec version 3'')))
   \<and> (length v < 127 \<and> uint (v ! 7) \<le> 3 \<longrightarrow> bytesToHeader v tag = Inl Range_error)
   \<and> (127 \<le> length v \<and> uint (v ! 7) \<le> 3 \<longrightarrow>
        (\<exists>h. bytesToHeader v tag = Inr h \<and> header_bounds h \<and> etag h = tag))"
proof (intro conjI impI)
  show "bytesToHeader v tag = Inl Range_error" if "length v < 8"
    using that by (simp add: bytesToHeader_def getUint8_def)
  show "bytesToHeader v tag = Inl (Error (''Archive is spec version '' @ num_text (of_int (uint (v ! 7)))
      @ '' but this library supports up to spec version 3''))" if "8 \<le> length v \<and> 3 < uint (v ! 7)"
    using that by (simp add: bytesToHeader_def getUint8_def)
  show "bytesToHeader v tag = Inl Range_error" if "length v < 127 \<and> uint (v ! 7) \<le> 3"
    using that bytesToHeader_short by blast
  show "\<exists>h. bytesToHeader v tag = Inr h \<and> header_bounds h \<and> etag h = tag"
    if "127 \<le> length v \<and> uint (v ! 7) \<le> 3"
    using that bytesToHeader_long bytesToHeader_bounds by blast
qed

lemma header_total_witness:
  "(\<exists>h. bytesToHeader (header_bytes sample_header) None = Inr h \<and> header_bounds h \<and> etag h = None)
    \<and> bytesToHeader [80, 77] None = Inl Range_error"
proof -
  have "127 \<le> length (header_bytes sample_header)" by (simp add: length_header_bytes)
  moreover have "uint (header_bytes sample_header ! 7) \<le> 3"
    by (simp add: header_bytes_def magic_def sample_header_def)
  ultimately show ?thesis
    using header_total[of "header_bytes sample_header" None] header_total[of "[80, 77]" None] by auto
qed

end
