(* ===== verification/V2_Directory.thy ===== *)
theory V2_Directory
  imports Header Binary_Search "HOL-Library.Product_Lexorder"
begin

text \<open>
  The directories of the versions 1 and 2 of the format, the \<^verbatim>\<open>v2.ts\<close> part of
  \<^verbatim>\<open>src/app/static/js/pmtiles.js\<close>: 17-byte entries, their binary search, the sort and rewrite
  of version 1, and the derivation of the leaf a tile is in. Positions are JavaScript numbers: a
  buffer whose length is no multiple of 17 gives fractional ones, which a \<^verbatim>\<open>DataView\<close> truncates.
\<close>

section \<open>Fields\<close>

definition shift_js :: "int \<Rightarrow> nat \<Rightarrow> int" where
  "shift_js n k = fli (n * 2 ^ k)"

definition unshift_js :: "int \<Rightarrow> nat \<Rightarrow> int" where
  "unshift_js n k = \<lfloor>fl (of_int n / 2 ^ k)\<rfloor>"

text \<open>\<^verbatim>\<open>ToIndex\<close>, the conversion of a position that is not negative.\<close>

definition ix :: "rat \<Rightarrow> nat" where
  "ix p = nat (trunc_rat p)"

definition getUint24 :: "bytes \<Rightarrow> rat \<Rightarrow> js_error + int" where
  "getUint24 view pos =
     bind_sum (getUint16 view (ix (fl (pos + 1)))) (\<lambda>h.
     bind_sum (getUint8 view (ix pos)) (\<lambda>l.
     Inr (fli (shift_js h 8 + l))))"

definition getUint48 :: "bytes \<Rightarrow> rat \<Rightarrow> js_error + int" where
  "getUint48 view pos =
     bind_sum (getUint32 view (ix (fl (pos + 2)))) (\<lambda>h.
     bind_sum (getUint16 view (ix pos)) (\<lambda>l.
     Inr (fli (shift_js h 16 + l))))"

section \<open>The search\<close>

definition compare_v2 :: "int \<Rightarrow> rat \<Rightarrow> rat \<Rightarrow> bytes \<Rightarrow> rat \<Rightarrow> js_error + rat" where
  "compare_v2 tz tx ty view i =
     bind_sum (getUint8 view (ix i)) (\<lambda>z.
     if tz \<noteq> z then Inr (of_int (fli (tz - z))) else
     bind_sum (getUint24 view (fl (i + 1))) (\<lambda>x.
     if tx \<noteq> of_int x then Inr (fl (tx - of_int x)) else
     bind_sum (getUint24 view (fl (i + 4))) (\<lambda>y.
     if ty \<noteq> of_int y then Inr (fl (ty - of_int y)) else Inr 0)))"

text \<open>
  The upper bound \<open>n\<close> starts as \<^verbatim>\<open>byteLength / 17 - 1\<close>. The sum \<^verbatim>\<open>n + m\<close> is below \<open>2^31\<close>,
  since no engine has a buffer of \<open>2^31\<close> entries, so \<^verbatim>\<open>>> 1\<close> halves its integer part.
\<close>

function queryView_loop ::
  "bytes \<Rightarrow> int \<Rightarrow> rat \<Rightarrow> rat \<Rightarrow> int \<Rightarrow> rat \<Rightarrow> js_error + (int \<times> int) option" where
  "queryView_loop view z x y m n =
     (if of_int m \<le> n then
        let k = drop_bit 1 \<lfloor>n + of_int m\<rfloor> in
        bind_sum (compare_v2 z x y view (fl (of_int k * 17))) (\<lambda>cmp.
        if cmp > 0 then queryView_loop view z x y (k + 1) n
        else if cmp < 0 then queryView_loop view z x y m (of_int (k - 1))
        else bind_sum (getUint48 view (fl (fl (of_int k * 17) + 7))) (\<lambda>off.
             bind_sum (getUint32 view (ix (fl (fl (of_int k * 17) + 13)))) (\<lambda>l.
             Inr (Some (off, l)))))
      else Inr None)"
  by auto
termination
proof (relation "measure (\<lambda>(view, z, x, y, m, n). nat (\<lfloor>n\<rfloor> + 1 - m))", goal_cases)
  case (2 view z x y m n k cmp)
  have "m \<le> k" using 2(1,2) by (simp add: drop_bit_eq_div) linarith
  moreover have "m \<le> \<lfloor>n\<rfloor>" using 2(1) by linarith
  ultimately show ?case by simp
next
  case (3 view z x y m n k cmp)
  have "k \<le> \<lfloor>n\<rfloor>" using 3(1,2) by (simp add: drop_bit_eq_div) linarith
  moreover have "m \<le> \<lfloor>n\<rfloor>" using 3(1) by linarith
  ultimately show ?case by simp
qed simp

declare queryView_loop.simps [simp del]

definition queryView :: "bytes \<Rightarrow> int \<Rightarrow> rat \<Rightarrow> rat \<Rightarrow> js_error + (int \<times> int) option" where
  "queryView view z x y =
     queryView_loop view z x y 0 (fl (fl (of_nat (length view) / 17) - 1))"

section \<open>Entries\<close>

record v2_entry =
  ez :: int
  ex :: rat
  ey :: rat
  eoffset :: int
  elength :: int
  isDir :: bool

definition queryLeafdir :: "bytes \<Rightarrow> int \<Rightarrow> rat \<Rightarrow> rat \<Rightarrow> js_error + v2_entry option" where
  "queryLeafdir view z x y =
     bind_sum (queryView view (i32_or z 128) x y) (\<lambda>offsetLen. Inr (case offsetLen of
       Some (off, l) \<Rightarrow> Some \<lparr>ez = z, ex = x, ey = y, eoffset = off, elength = l, isDir = True\<rparr>
     | None \<Rightarrow> None))"

definition queryTile :: "bytes \<Rightarrow> int \<Rightarrow> rat \<Rightarrow> rat \<Rightarrow> js_error + v2_entry option" where
  "queryTile view z x y =
     bind_sum (queryView view z x y) (\<lambda>offsetLen. Inr (case offsetLen of
       Some (off, l) \<Rightarrow> Some \<lparr>ez = z, ex = x, ey = y, eoffset = off, elength = l, isDir = False\<rparr>
     | None \<Rightarrow> None))"

definition entrySort :: "v2_entry \<Rightarrow> v2_entry \<Rightarrow> rat" where
  "entrySort a b =
     (if isDir a \<and> \<not> isDir b then 1
      else if \<not> isDir a \<and> isDir b then - 1
      else if ez a \<noteq> ez b then of_int (fli (ez a - ez b))
      else if ex a \<noteq> ex b then fl (ex a - ex b)
      else fl (ey a - ey b))"

definition parseEntry :: "bytes \<Rightarrow> rat \<Rightarrow> js_error + v2_entry" where
  "parseEntry dataview i =
     bind_sum (getUint8 dataview (ix (fl (i * 17)))) (\<lambda>zRaw.
     bind_sum (getUint24 dataview (fl (fl (i * 17) + 1))) (\<lambda>x.
     bind_sum (getUint24 dataview (fl (fl (i * 17) + 4))) (\<lambda>y.
     bind_sum (getUint48 dataview (fl (fl (i * 17) + 7))) (\<lambda>off.
     bind_sum (getUint32 dataview (ix (fl (fl (i * 17) + 13)))) (\<lambda>l.
     Inr \<lparr>ez = i32_and zRaw 127, ex = of_int x, ey = of_int y, eoffset = off, elength = l,
       isDir = (i32_shr zRaw 7 = 1)\<rparr>)))))"

text \<open>
  \<^verbatim>\<open>Array.prototype.sort\<close> is stable; for a comparator that is a total preorder, as
  \<^verbatim>\<open>entrySort\<close> is, every stable sort gives this result.
\<close>

fun js_insert :: "('a \<Rightarrow> 'a \<Rightarrow> rat) \<Rightarrow> 'a \<Rightarrow> 'a list \<Rightarrow> 'a list" where
  "js_insert cmp a [] = [a]"
| "js_insert cmp a (b # bs) = (if cmp a b \<le> 0 then a # b # bs else b # js_insert cmp a bs)"

definition js_sort :: "('a \<Rightarrow> 'a \<Rightarrow> rat) \<Rightarrow> 'a list \<Rightarrow> 'a list" where
  "js_sort cmp as = foldr (js_insert cmp) as []"

text \<open>The 17 bytes \<^verbatim>\<open>createDirectory\<close> writes for an entry; a \<^verbatim>\<open>Uint8Array\<close> keeps 8 bits.\<close>

definition entry_bytes :: "v2_entry \<Rightarrow> bytes" where
  "entry_bytes e = map word_of_int
     [if isDir e then i32_or (ez e) 128 else ez e,
      i32_and (trunc_rat (ex e)) 255,
      i32_and (i32_shr (trunc_rat (ex e)) 8) 255,
      i32_and (i32_shr (trunc_rat (ex e)) 16) 255,
      i32_and (trunc_rat (ey e)) 255,
      i32_and (i32_shr (trunc_rat (ey e)) 8) 255,
      i32_and (i32_shr (trunc_rat (ey e)) 16) 255,
      i32_and (eoffset e) 255,
      i32_and (unshift_js (eoffset e) 8) 255,
      i32_and (unshift_js (eoffset e) 16) 255,
      i32_and (unshift_js (eoffset e) 24) 255,
      i32_and (unshift_js (eoffset e) 32) 255,
      i32_and (unshift_js (eoffset e) 48) 255,
      i32_and (elength e) 255,
      i32_and (i32_shr (elength e) 8) 255,
      i32_and (i32_shr (elength e) 16) 255,
      i32_and (i32_shr (elength e) 24) 255]"

definition createDirectory :: "v2_entry list \<Rightarrow> bytes" where
  "createDirectory entries = concat (map entry_bytes (js_sort entrySort entries))"

function parse_entries :: "bytes \<Rightarrow> nat \<Rightarrow> js_error + v2_entry list" where
  "parse_entries view i =
     (if of_nat i < fl (of_nat (length view) / 17) then
        bind_sum (parseEntry view (of_nat i)) (\<lambda>e.
        bind_sum (parse_entries view (i + 1)) (\<lambda>es. Inr (e # es)))
      else Inr [])"
  by auto
termination
  by (relation "measure (\<lambda>(view, i). nat (\<lceil>fl (of_nat (length view) / 17)\<rceil> - int i))") (auto, linarith)

declare parse_entries.simps [simp del]

definition sortDir :: "bytes \<Rightarrow> js_error + bytes" where
  "sortDir a = bind_sum (parse_entries a 0) (\<lambda>entries. Inr (createDirectory entries))"

definition deriveLeaf :: "bytes \<Rightarrow> int \<Rightarrow> rat \<Rightarrow> rat \<Rightarrow> js_error + (int \<times> rat \<times> rat) option" where
  "deriveLeaf view z x y =
     (if length view < 17 then Inr None
      else
        let numEntries = fl (of_nat (length view) / 17) in
        bind_sum (parseEntry view (fl (numEntries - 1))) (\<lambda>entry.
        if isDir entry then
          let leafLevel = ez entry;
              levelDiff = z - leafLevel;
              s = of_int (i32_shl 1 (nat (to_i32 levelDiff mod 32)));
              leafX = of_int (trunc_rat (fl (x / s)));
              leafY = of_int (trunc_rat (fl (y / s)))
          in Inr (Some (leafLevel, leafX, leafY))
        else Inr None))"

section \<open>The bytes of an entry\<close>

lemma i32_and_255: "i32_and a 255 = take_bit 8 a"
proof -
  have "to_i32 255 = mask 8" by (simp add: mask_eq_exp_minus_1)
  then have "i32_and a 255 = take_bit 8 (to_i32 a)"
    by (simp only: i32_and_def take_bit_eq_mask)
  also have "\<dots> = take_bit 8 a"
    unfolding to_i32_def by (rule take_bit_signed_take_bit) simp
  finally show ?thesis .
qed

lemma byte_of_and: "(word_of_int (i32_and a 255) :: 8 word) = word_of_int a"
  by (simp add: word_of_int_eq_iff i32_and_255)

lemma byte_of_shr:
  assumes "k \<le> 24"
  shows "(word_of_int (i32_and (i32_shr a k) 255) :: 8 word) = word_of_int (a div 2 ^ k)"
proof -
  have "min 31 (k + n) = k + n" if "n < 8" for n using assms that by simp
  then have "take_bit 8 (i32_shr a k) = take_bit 8 (drop_bit k a)"
    by (intro bit_eqI) (auto simp: i32_shr_def to_i32_def bit_take_bit_iff bit_drop_bit_eq
        bit_signed_take_bit_iff cong: conj_cong)
  then show ?thesis by (simp add: byte_of_and word_of_int_eq_iff drop_bit_eq_div)
qed

lemma unshift_exact:
  assumes "\<bar>n\<bar> < 2 ^ 53" "k \<le> 1000"
  shows "unshift_js n k = n div 2 ^ k"
proof -
  have "fl (of_int n / 2 ^ k) = of_int n / 2 ^ k"
    using assms by (intro fl_representable[where m = n and e = "- int k"])
      (simp_all add: power_int_minus divide_inverse)
  then have "unshift_js n k = \<lfloor>of_int n / (of_int (2 ^ k) :: rat)\<rfloor>"
    by (simp add: unshift_js_def)
  then show ?thesis by (simp only: floor_divide_of_int_eq)
qed

text \<open>
  What the six offset bytes hold: the sixth is written as \<^verbatim>\<open>unshift(entry.offset, 48)\<close>, where
  the format has the bits from 40 on.
\<close>

definition kept_offset :: "int \<Rightarrow> int" where
  "kept_offset off = off mod 2 ^ 40 + 2 ^ 40 * (off div 2 ^ 48 mod 2 ^ 8)"

definition v2_ok :: "v2_entry \<Rightarrow> bool" where
  "v2_ok e \<longleftrightarrow> 0 \<le> ez e \<and> ez e < 128 \<and> 0 \<le> ex e \<and> ex e < 2 ^ 24 \<and> of_int \<lfloor>ex e\<rfloor> = ex e
     \<and> 0 \<le> ey e \<and> ey e < 2 ^ 24 \<and> of_int \<lfloor>ey e\<rfloor> = ey e
     \<and> 0 \<le> eoffset e \<and> eoffset e < 2 ^ 53 \<and> 0 \<le> elength e \<and> elength e < 2 ^ 32"

definition zRaw_of :: "v2_entry \<Rightarrow> int" where
  "zRaw_of e = ez e + (if isDir e then 128 else 0)"

lemma or_128_all:
  "list_all (\<lambda>n. i32_or (int n) 128 = int n + 128 \<and> i32_and (int n) 127 = int n \<and> i32_shr (int n) 7 = 0
    \<and> i32_and (int n + 128) 127 = int n \<and> i32_shr (int n + 128) 7 = 1) [0..<128]"
  by code_simp

lemma or_128:
  assumes "0 \<le> z" "z < 128"
  shows "i32_or z 128 = z + 128" "i32_and z 127 = z" "i32_shr z 7 = 0"
    "i32_and (z + 128) 127 = z" "i32_shr (z + 128) 7 = 1"
proof -
  have "nat z \<in> set [0..<128]" using assms by simp
  note or_128_all[unfolded list_all_iff, THEN bspec, OF this]
  with assms show "i32_or z 128 = z + 128" "i32_and z 127 = z" "i32_shr z 7 = 0"
    "i32_and (z + 128) 127 = z" "i32_shr (z + 128) 7 = 1" by simp_all
qed

lemma trunc_rat_floor: "0 \<le> q \<Longrightarrow> trunc_rat q = \<lfloor>q\<rfloor>"
  by (simp add: trunc_rat_def)

lemma kept_offset_concat: "kept_offset off = concat_bit 40 off (take_bit 8 (drop_bit 48 off))"
  by (simp only: kept_offset_def concat_bit_eq take_bit_eq_mod push_bit_eq_mult drop_bit_eq_div mult.commute)

lemma kept_offset_bytes:
  "map word_of_int [off, off div 2 ^ 8, off div 2 ^ 16, off div 2 ^ 24, off div 2 ^ 32, off div 2 ^ 48]
    = le_bytes 6 (kept_offset off)"
proof -
  have le6: "le_bytes 6 x = map word_of_int [drop_bit 0 x, drop_bit 8 x, drop_bit 16 x, drop_bit 24 x,
      drop_bit 32 x, drop_bit 40 x]" for x
    by (simp add: eval_nat_numeral zdiv_zmult2_eq [symmetric] drop_bit_eq_div)
  have "(word_of_int (drop_bit k (kept_offset off)) :: 8 word) = word_of_int (drop_bit k off)" if "k + 8 \<le> 40" for k
  proof -
    have "take_bit 8 (drop_bit k (kept_offset off)) = take_bit 8 (drop_bit k off)"
      using that unfolding kept_offset_concat
      by (intro bit_eqI) (auto simp: bit_take_bit_iff bit_drop_bit_eq bit_concat_bit_iff)
    then show ?thesis by (simp add: word_of_int_eq_iff)
  qed
  from this[of 0] this[of 8] this[of 16] this[of 24] this[of 32]
  have low: "(word_of_int (kept_offset off) :: 8 word) = word_of_int off"
    "(word_of_int (drop_bit 8 (kept_offset off)) :: 8 word) = word_of_int (drop_bit 8 off)"
    "(word_of_int (drop_bit 16 (kept_offset off)) :: 8 word) = word_of_int (drop_bit 16 off)"
    "(word_of_int (drop_bit 24 (kept_offset off)) :: 8 word) = word_of_int (drop_bit 24 off)"
    "(word_of_int (drop_bit 32 (kept_offset off)) :: 8 word) = word_of_int (drop_bit 32 off)"
    by simp_all
  have "take_bit 8 (drop_bit 40 (kept_offset off)) = take_bit 8 (drop_bit 48 off)"
    unfolding kept_offset_concat
    by (intro bit_eqI) (auto simp: bit_take_bit_iff bit_drop_bit_eq bit_concat_bit_iff add.commute)
  then have "(word_of_int (drop_bit 40 (kept_offset off)) :: 8 word) = word_of_int (drop_bit 48 off)"
    by (simp add: word_of_int_eq_iff)
  with low show ?thesis
    unfolding le6 by (simp add: drop_bit_eq_div)
qed

lemma byte_of_shr':
  "k \<le> 24 \<Longrightarrow> (word_of_int (i32_shr a k) :: 8 word) = word_of_int (a div 2 ^ k)"
  using byte_of_shr[of k a] by (simp add: byte_of_and)

lemma entry_bytes_fields:
  assumes "v2_ok e"
  shows "entry_bytes e = le_bytes 1 (zRaw_of e) @ le_bytes 3 \<lfloor>ex e\<rfloor> @ le_bytes 3 \<lfloor>ey e\<rfloor>
    @ le_bytes 6 (kept_offset (eoffset e)) @ le_bytes 4 (elength e)"
proof -
  note ok = assms[unfolded v2_ok_def]
  have z: "(if isDir e then i32_or (ez e) 128 else ez e) = zRaw_of e"
    using ok by (simp add: zRaw_of_def or_128)
  have u: "unshift_js (eoffset e) k = eoffset e div 2 ^ k" if "k \<le> 1000" for k
    using ok that by (intro unshift_exact) simp_all
  have le3: "le_bytes 3 x = map word_of_int [x, x div 2 ^ 8, x div 2 ^ 16]" for x
    by (simp add: numeral_3_eq_3 zdiv_zmult2_eq [symmetric])
  have le4: "le_bytes 4 x = map word_of_int [x, x div 2 ^ 8, x div 2 ^ 16, x div 2 ^ 24]" for x
    by (simp add: eval_nat_numeral zdiv_zmult2_eq [symmetric])
  show ?thesis
    unfolding kept_offset_bytes[symmetric] le3 le4
    using ok by (simp add: entry_bytes_def z u byte_of_and byte_of_shr' trunc_rat_floor)
qed

section \<open>Reading entries back\<close>

text \<open>At the positions of a buffer the fields are those of integer arithmetic.\<close>

definition u24 :: "bytes \<Rightarrow> nat \<Rightarrow> js_error + int" where
  "u24 v i = bind_sum (getUint16 v (i + 1)) (\<lambda>h. bind_sum (getUint8 v i) (\<lambda>l. Inr (h * 2 ^ 8 + l)))"

definition u48 :: "bytes \<Rightarrow> nat \<Rightarrow> js_error + int" where
  "u48 v i = bind_sum (getUint32 v (i + 2)) (\<lambda>h. bind_sum (getUint16 v i) (\<lambda>l. Inr (h * 2 ^ 16 + l)))"

lemma ix_nat [simp]: "ix (of_nat i) = i"
  using trunc_rat_of_int[of "int i"] by (simp add: ix_def)

lemma fl_nat: "i \<le> 2 ^ 53 \<Longrightarrow> fl (of_nat i) = of_nat i"
  using fl_of_int[of "int i"] by simp

lemma fl_nat_add: "i + numeral k \<le> 2 ^ 53 \<Longrightarrow> fl (of_nat i + numeral k) = of_nat (i + numeral k)"
  using fl_nat[of "i + numeral k"] by simp

lemma fl_nat_Suc: "i + 1 \<le> 2 ^ 53 \<Longrightarrow> fl (of_nat i + 1) = of_nat (i + 1)"
  using fl_nat[of "i + 1"] by (simp add: add.commute)

lemma getUint24_nat:
  assumes "i < 2 ^ 52"
  shows "getUint24 v (of_nat i) = u24 v i"
proof -
  have p: "fl (of_nat i + 1) = of_nat (i + 1)" using assms by (intro fl_nat_Suc) simp
  have "fli (shift_js h 8 + l) = h * 2 ^ 8 + l"
    if "getUint16 v (i + 1) = Inr h" "getUint8 v i = Inr l" for h l
    using getUint16_range[OF that(1)] getUint8_range[OF that(2)] by (simp add: shift_js_def)
  then show ?thesis
    unfolding getUint24_def u24_def p ix_nat by (intro bind_sum_cong) simp_all
qed

lemma getUint48_nat:
  assumes "i < 2 ^ 52"
  shows "getUint48 v (of_nat i) = u48 v i"
proof -
  have p: "fl (of_nat i + 2) = of_nat (i + 2)" using assms by (intro fl_nat_add) simp
  have "fli (shift_js h 16 + l) = h * 2 ^ 16 + l"
    if "getUint32 v (i + 2) = Inr h" "getUint16 v i = Inr l" for h l
    using getUint32_range[OF that(1)] getUint16_range[OF that(2)] by (simp add: shift_js_def)
  then show ?thesis
    unfolding getUint48_def u48_def p ix_nat by (intro bind_sum_cong) simp_all
qed

lemma u_skip:
  "length p \<le> i \<Longrightarrow> u24 (p @ v) i = u24 v (i - length p)"
  "length p \<le> i \<Longrightarrow> u48 (p @ v) i = u48 v (i - length p)"
  by (simp_all add: u24_def u48_def get_skip Suc_diff_le)

lemma u24_le:
  assumes "0 \<le> x" "x < 2 ^ 24"
  shows "u24 (le_bytes 3 x @ r) 0 = Inr x"
proof -
  have le: "le_bytes 3 x = le_bytes 1 (x mod 2 ^ 8) @ le_bytes 2 (x div 2 ^ 8)"
    by (simp add: eval_nat_numeral word_of_int_eq_iff take_bit_eq_mod)
  have "getUint8 (le_bytes 1 (x mod 2 ^ 8) @ le_bytes 2 (x div 2 ^ 8) @ r) 0 = Inr (x mod 2 ^ 8)"
    by (rule getUint8_le) simp_all
  moreover have "getUint16 (le_bytes 1 (x mod 2 ^ 8) @ le_bytes 2 (x div 2 ^ 8) @ r) 1 = Inr (x div 2 ^ 8)"
    using assms by (subst get_skip(2)) (simp_all add: getUint16_le pos_imp_zdiv_nonneg_iff div_less_iff_less_mult)
  ultimately show ?thesis by (simp add: u24_def le del: le_bytes.simps)
qed

lemma u48_le:
  assumes "0 \<le> x" "x < 2 ^ 48"
  shows "u48 (le_bytes 6 x @ r) 0 = Inr x"
proof -
  have m: "x mod 65536 mod 256 = x mod 256" "x mod 65536 div 256 = x div 256 mod 256"
    using zmod_zmult2_eq[of 256 x 256] by simp_all
  have le: "le_bytes 6 x = le_bytes 2 (x mod 2 ^ 16) @ le_bytes 4 (x div 2 ^ 16)"
    by (simp add: eval_nat_numeral zdiv_zmult2_eq [symmetric])
      (simp add: word_of_int_eq_iff take_bit_eq_mod m)
  have "getUint16 (le_bytes 2 (x mod 2 ^ 16) @ le_bytes 4 (x div 2 ^ 16) @ r) 0 = Inr (x mod 2 ^ 16)"
    by (rule getUint16_le) simp_all
  moreover have "getUint32 (le_bytes 2 (x mod 2 ^ 16) @ le_bytes 4 (x div 2 ^ 16) @ r) 2 = Inr (x div 2 ^ 16)"
    using assms by (subst get_skip(3)) (simp_all add: getUint32_le pos_imp_zdiv_nonneg_iff div_less_iff_less_mult)
  ultimately show ?thesis by (simp only: u48_def le append_assoc add_0_left bind_sum_simps) simp
qed

lemma kept_offset_range: "0 \<le> kept_offset off" "kept_offset off < 2 ^ 48"
proof -
  have "0 \<le> off mod 2 ^ 40" "off mod 2 ^ 40 < 2 ^ 40" "0 \<le> off div 2 ^ 48 mod 2 ^ 8"
    "off div 2 ^ 48 mod 2 ^ 8 < 2 ^ 8" by simp_all
  then show "0 \<le> kept_offset off" "kept_offset off < 2 ^ 48"
    unfolding kept_offset_def by simp_all
qed

lemma kept_offset_small: "0 \<le> off \<Longrightarrow> off < 2 ^ 40 \<Longrightarrow> kept_offset off = off"
  by (simp add: kept_offset_def)

lemma length_entry_bytes [simp]: "length (entry_bytes e) = 17"
  by (simp add: entry_bytes_def)

text \<open>The five fields of an entry that starts at position \<open>i\<close>.\<close>

lemma entry_fields:
  assumes "v2_ok e" "length pre = i"
  shows "getUint8 (pre @ entry_bytes e @ rest) i = Inr (zRaw_of e)"
    "u24 (pre @ entry_bytes e @ rest) (i + 1) = Inr \<lfloor>ex e\<rfloor>"
    "u24 (pre @ entry_bytes e @ rest) (i + 4) = Inr \<lfloor>ey e\<rfloor>"
    "u48 (pre @ entry_bytes e @ rest) (i + 7) = Inr (kept_offset (eoffset e))"
    "getUint32 (pre @ entry_bytes e @ rest) (i + 13) = Inr (elength e)"
proof -
  have z: "0 \<le> zRaw_of e" "zRaw_of e < 2 ^ 8" using assms(1) by (simp_all add: v2_ok_def zRaw_of_def)
  have xy: "0 \<le> \<lfloor>ex e\<rfloor>" "\<lfloor>ex e\<rfloor> < 2 ^ 24" "0 \<le> \<lfloor>ey e\<rfloor>" "\<lfloor>ey e\<rfloor> < 2 ^ 24"
    using assms(1) by (simp_all add: v2_ok_def floor_less_iff)
  have l: "0 \<le> elength e" "elength e < 2 ^ 32" using assms(1) by (simp_all add: v2_ok_def)
  note rules = entry_bytes_fields[OF assms(1)] get_skip u_skip length_le_bytes append_assoc assms(2)
    getUint8_le[OF z] u24_le[OF xy(1,2)] u24_le[OF xy(3,4)] u48_le[OF kept_offset_range] getUint32_le[OF l]
  show "getUint8 (pre @ entry_bytes e @ rest) i = Inr (zRaw_of e)"
    "u24 (pre @ entry_bytes e @ rest) (i + 1) = Inr \<lfloor>ex e\<rfloor>"
    "u24 (pre @ entry_bytes e @ rest) (i + 4) = Inr \<lfloor>ey e\<rfloor>"
    "u48 (pre @ entry_bytes e @ rest) (i + 7) = Inr (kept_offset (eoffset e))"
    "getUint32 (pre @ entry_bytes e @ rest) (i + 13) = Inr (elength e)"
    by (simp_all add: rules del: le_bytes.simps One_nat_def)
qed

lemma parse_entry_bytes:
  assumes "v2_ok e" "length pre = i * 17" "i < 2 ^ 45"
  shows "parseEntry (pre @ entry_bytes e @ rest) (of_nat i) = Inr (e\<lparr>eoffset := kept_offset (eoffset e)\<rparr>)"
proof -
  have p: "fl (of_nat i * 17) = of_nat (i * 17)"
    using fl_nat[of "i * 17"] assms(3) by simp
  have q: "fl (of_nat (i * 17) + 1) = of_nat (i * 17 + 1)" "fl (of_nat (i * 17) + 4) = of_nat (i * 17 + 4)"
    "fl (of_nat (i * 17) + 7) = of_nat (i * 17 + 7)" "fl (of_nat (i * 17) + 13) = of_nat (i * 17 + 13)"
    using assms(3) by (intro fl_nat_add fl_nat_Suc; simp)+
  have r: "i * 17 + 1 < 2 ^ 52" "i * 17 + 4 < 2 ^ 52" "i * 17 + 7 < 2 ^ 52" using assms(3) by simp_all
  have z: "i32_and (zRaw_of e) 127 = ez e" "(i32_shr (zRaw_of e) 7 = 1) = isDir e"
    using assms(1) by (simp_all add: v2_ok_def zRaw_of_def or_128)
  have xy: "of_int \<lfloor>ex e\<rfloor> = ex e" "of_int \<lfloor>ey e\<rfloor> = ey e" using assms(1) by (simp_all add: v2_ok_def)
  show ?thesis
    by (simp only: parseEntry_def p q ix_nat getUint24_nat[OF r(1)] getUint24_nat[OF r(2)]
        getUint48_nat[OF r(3)] entry_fields[OF assms(1,2)] bind_sum_simps z xy) simp
qed

text \<open>A directory as the concatenation of its entries, taken apart at one of them.\<close>

definition dir_bytes :: "v2_entry list \<Rightarrow> bytes" where
  "dir_bytes es = concat (map entry_bytes es)"

lemma length_dir_bytes [simp]: "length (dir_bytes es) = 17 * length es"
  unfolding dir_bytes_def by (induction es) simp_all

lemma dir_bytes_at:
  assumes "k < length es"
  shows "dir_bytes es = dir_bytes (take k es) @ entry_bytes (es ! k) @ dir_bytes (drop (Suc k) es)"
proof -
  have "es = take k es @ [es ! k] @ drop (Suc k) es" using assms by (simp add: id_take_nth_drop)
  then have "dir_bytes es = dir_bytes (take k es @ [es ! k] @ drop (Suc k) es)" by simp
  then show ?thesis by (simp add: dir_bytes_def)
qed

section \<open>The binary search\<close>

definition v2_key :: "v2_entry \<Rightarrow> int \<times> int \<times> int" where
  "v2_key e = (zRaw_of e, \<lfloor>ex e\<rfloor>, \<lfloor>ey e\<rfloor>)"

definition cmp_v2 :: "int \<times> int \<times> int \<Rightarrow> v2_entry \<Rightarrow> rat" where
  "cmp_v2 t e = (case t of (tz, tx, ty) \<Rightarrow>
     if tz \<noteq> zRaw_of e then of_int (fli (tz - zRaw_of e))
     else if of_int tx \<noteq> ex e then fl (of_int tx - ex e)
     else if of_int ty \<noteq> ey e then fl (of_int ty - ey e) else 0)"

lemma v2_ok_int:
  assumes "v2_ok e"
  shows "ex e = of_int \<lfloor>ex e\<rfloor>" "ey e = of_int \<lfloor>ey e\<rfloor>"
  using assms by (auto simp: v2_ok_def)

interpretation v2_search: ordered_search v2_key v2_ok cmp_v2
proof
  fix e :: v2_entry and t :: "int \<times> int \<times> int"
  assume "v2_ok e"
  note i = v2_ok_int[OF this]
  obtain tz tx ty where t: "t = (tz, tx, ty)" by (cases t) auto
  have c: "cmp_v2 (tz, tx, ty) e = (if tz \<noteq> zRaw_of e then of_int (fli (tz - zRaw_of e))
     else if tx \<noteq> \<lfloor>ex e\<rfloor> then fl (of_int tx - of_int \<lfloor>ex e\<rfloor>)
     else if ty \<noteq> \<lfloor>ey e\<rfloor> then fl (of_int ty - of_int \<lfloor>ey e\<rfloor>) else 0)"
    unfolding cmp_v2_def prod.case by (subst i, subst (2) i, subst i(2), subst (2) i(2)) (simp del: of_int_floor_cancel)
  show "0 < cmp_v2 t e \<longleftrightarrow> v2_key e < t" "cmp_v2 t e < 0 \<longleftrightarrow> t < v2_key e"
    unfolding t c v2_key_def by (auto simp: fl_diff_sign fli_sign)
qed

lemma compare_at:
  assumes "k < length es" "v2_ok (es ! k)" "length es < 2 ^ 45"
  shows "compare_v2 tz (of_int tx) (of_int ty) (dir_bytes es) (of_nat (k * 17)) = Inr (cmp_v2 (tz, tx, ty) (es ! k))"
proof -
  have q: "fl (of_nat (k * 17) + 1) = of_nat (k * 17 + 1)" "fl (of_nat (k * 17) + 4) = of_nat (k * 17 + 4)"
    using assms(1,3) by (intro fl_nat_add fl_nat_Suc; simp)+
  have r: "k * 17 + 1 < 2 ^ 52" "k * 17 + 4 < 2 ^ 52" using assms(1,3) by simp_all
  have l: "length (dir_bytes (take k es)) = k * 17" using assms(1) by simp
  note f = entry_fields[OF assms(2) l, of "dir_bytes (drop (Suc k) es)", folded dir_bytes_at[OF assms(1)]]
  note i = v2_ok_int[OF assms(2)]
  show ?thesis
    unfolding compare_v2_def q ix_nat getUint24_nat[OF r(1)] getUint24_nat[OF r(2)] f bind_sum_simps
      i[symmetric] cmp_v2_def prod.case by simp
qed

text \<open>One round of the loop, at the middle of the range.\<close>

lemma queryView_loop_step:
  assumes "list_all v2_ok es" and "length es < 2 ^ 45" and "m \<le> n" and "drop_bit 1 (n + m) = int j" and "j < length es"
  shows "queryView_loop (dir_bytes es) tz (of_int tx) (of_int ty) m (of_int n)
    = (if 0 < cmp_v2 (tz, tx, ty) (es ! j) then queryView_loop (dir_bytes es) tz (of_int tx) (of_int ty) (int j + 1) (of_int n)
       else if cmp_v2 (tz, tx, ty) (es ! j) < 0
         then queryView_loop (dir_bytes es) tz (of_int tx) (of_int ty) m (of_int (int j - 1))
       else Inr (Some (kept_offset (eoffset (es ! j)), elength (es ! j))))"
proof -
  have ok: "v2_ok (es ! j)" using assms(1,5) by (simp add: list_all_length)
  have p: "fl (of_int (int j) * 17) = of_nat (j * 17)"
    using fl_nat[of "j * 17"] assms(2,5) by simp
  have q: "fl (of_nat (j * 17) + 7) = of_nat (j * 17 + 7)" "fl (of_nat (j * 17) + 13) = of_nat (j * 17 + 13)"
    using assms(2,5) by (intro fl_nat_add; simp)+
  have r: "j * 17 + 7 < 2 ^ 52" using assms(2,5) by simp
  have l: "length (dir_bytes (take j es)) = j * 17" using assms(5) by simp
  note f = entry_fields[OF ok l, of "dir_bytes (drop (Suc j) es)", folded dir_bytes_at[OF assms(5)]]
  have fn: "\<lfloor>of_int n + of_int m :: rat\<rfloor> = n + m" by (simp flip: of_int_add)
  have le: "of_int m \<le> (of_int n :: rat)" using assms(3) by simp
  show ?thesis
    by (subst queryView_loop.simps)
      (simp only: fn assms(4) Let_def p compare_at[OF assms(5) ok assms(2)] bind_sum_simps q ix_nat
        getUint48_nat[OF r] f le if_True)
qed

lemma queryView_loop_correct:
  assumes "ordered_by v2_key es" "list_all v2_ok es" "length es < 2 ^ 45" "narrowed v2_key es t m n"
    "t = (tz, tx, ty)"
  shows "queryView_loop (dir_bytes es) tz (of_int tx) (of_int ty) m (of_int n)
    = Inr (map_option (\<lambda>e. (kept_offset (eoffset e), elength e)) (find (\<lambda>e. v2_key e = t) es))"
  using assms(4)
proof (induction "nat (n + 1 - m)" arbitrary: m n rule: less_induct)
  case less
  show ?case
  proof (cases "m \<le> n")
    case False
    then have "find (\<lambda>e. v2_key e = t) es = None"
      using narrowed_absent[OF less.prems] by (simp add: find_None_iff)
    with False show ?thesis by (subst queryView_loop.simps) simp
  next
    case True
    define k where "k = drop_bit 1 (n + m)"
    have k: "m \<le> k" "k \<le> n"
      using True by (simp_all add: k_def drop_bit_eq_div)
    note nth = narrowed_nth[OF less.prems k]
    have kj: "int (nat k) = k" "nat k < length es" using nth by simp_all
    have ok: "v2_ok (es ! nat k)" using assms(2) kj(2) by (simp add: list_all_length)
    have "drop_bit 1 (n + m) = int (nat k)" unfolding kj(1) by (simp only: k_def)
    note step = queryView_loop_step[OF assms(2,3) True this kj(2), of tz tx ty, folded assms(5), unfolded kj(1)]
    consider "0 < cmp_v2 t (es ! nat k)" | "\<not> 0 < cmp_v2 t (es ! nat k)" "cmp_v2 t (es ! nat k) < 0"
      | "\<not> 0 < cmp_v2 t (es ! nat k)" "\<not> cmp_v2 t (es ! nat k) < 0"
      by linarith
    then show ?thesis
    proof cases
      case 1
      then show ?thesis
        using less.hyps[OF _ v2_search.step_right[OF assms(1) less.prems k ok 1]] k
        by (simp add: step)
    next
      case 2
      then show ?thesis
        using less.hyps[OF _ v2_search.step_left[OF assms(1) less.prems k ok 2(2)]] k
        by (simp add: step)
    next
      case 3
      note hit = v2_search.step_hit[OF less.prems k ok 3]
      have "find (\<lambda>e. v2_key e = t) es = Some (es ! nat k)"
        using hit by (intro find_unique ordered_by_inj[OF assms(1)]) simp_all
      with 3 show ?thesis by (simp add: step)
    qed
  qed
qed

section \<open>Sorting\<close>

lemma entrySort_le:
  assumes "v2_ok a" "v2_ok b"
  shows "entrySort a b \<le> 0 \<longleftrightarrow> v2_key a \<le> v2_key b"
proof -
  note i = v2_ok_int[OF assms(1)] v2_ok_int[OF assms(2)]
  have z: "0 \<le> ez a" "ez a < 128" "0 \<le> ez b" "ez b < 128" using assms by (simp_all add: v2_ok_def)
  have x: "ex a = ex b \<longleftrightarrow> \<lfloor>ex a\<rfloor> = \<lfloor>ex b\<rfloor>" "ey a = ey b \<longleftrightarrow> \<lfloor>ey a\<rfloor> = \<lfloor>ey b\<rfloor>"
    using i by metis+
  have dx: "fl (ex a - ex b) \<le> 0 \<longleftrightarrow> \<lfloor>ex a\<rfloor> \<le> \<lfloor>ex b\<rfloor>" "fl (ey a - ey b) \<le> 0 \<longleftrightarrow> \<lfloor>ey a\<rfloor> \<le> \<lfloor>ey b\<rfloor>"
    using i fl_diff_sign(1)[of "\<lfloor>ex a\<rfloor>" "\<lfloor>ex b\<rfloor>"] fl_diff_sign(1)[of "\<lfloor>ey a\<rfloor>" "\<lfloor>ey b\<rfloor>"]
    by (metis linorder_not_le)+
  have dz: "(of_int (fli (ez a - ez b)) :: rat) \<le> 0 \<longleftrightarrow> ez a \<le> ez b"
    using fli_sign(1)[of "ez a - ez b"] by (simp add: not_less [symmetric])
  show ?thesis
    unfolding entrySort_def v2_key_def zRaw_of_def less_eq_prod_def
    using z by (cases "isDir a"; cases "isDir b") (auto simp: x dx dz)
qed

lemma js_insert_insort:
  assumes "v2_ok a" "list_all v2_ok es"
  shows "js_insert entrySort a es = insort_key v2_key a es"
  using assms by (induction es) (simp_all add: entrySort_le)

lemma js_sort_sort_key:
  assumes "list_all v2_ok es"
  shows "js_sort entrySort es = sort_key v2_key es"
  using assms
proof (induction es)
  case (Cons e es)
  then have ok: "v2_ok e" "list_all v2_ok (sort_key v2_key es)" by (simp_all add: list_all_iff)
  from Cons have "js_sort entrySort es = sort_key v2_key es" by simp
  then have "js_sort entrySort (e # es) = js_insert entrySort e (sort_key v2_key es)"
    by (simp add: js_sort_def)
  with js_insert_insort[OF ok] show ?case by simp
qed (simp add: js_sort_def)

lemma createDirectory_bytes:
  "list_all v2_ok es \<Longrightarrow> createDirectory es = dir_bytes (sort_key v2_key es)"
  by (simp add: createDirectory_def js_sort_sort_key dir_bytes_def)

lemma ordered_sort:
  assumes "distinct (map v2_key es)"
  shows "ordered_by v2_key (sort_key v2_key es)"
proof -
  have "distinct (map v2_key (sort_key v2_key es))"
    using assms by (simp add: distinct_map)
  then have "sorted_wrt (<) (map v2_key (sort_key v2_key es))"
    by (simp add: strict_sorted_iff)
  then show ?thesis by (simp add: ordered_by_def sorted_wrt_map)
qed

lemma set_dir: "list_all v2_ok (sort_key v2_key es) = list_all v2_ok es"
  by (simp add: list_all_iff)

text \<open>The first upper bound of the search, and the number of entries.\<close>

lemma entry_count:
  assumes "length es < 2 ^ 45"
  shows "fl (of_nat (length (dir_bytes es)) / 17) = of_nat (length es)"
    "fl (of_nat (length es) - 1) = of_int (int (length es) - 1)"
proof -
  have "(of_nat (17 * length es) / 17 :: rat) = of_nat (length es)" by simp
  then show "fl (of_nat (length (dir_bytes es)) / 17) = of_nat (length es)"
    using assms by (simp add: fl_nat)
  have "(of_nat (length es) - 1 :: rat) = of_int (int (length es) - 1)" by simp
  then show "fl (of_nat (length es) - 1) = of_int (int (length es) - 1)"
    using fl_of_int[of "int (length es) - 1"] assms by simp
qed

lemma find_perm:
  assumes "set ds = set es" "distinct (map f es)" 
  shows "find (\<lambda>e. f e = t) ds = find (\<lambda>e. f e = t) es"
proof (cases "find (\<lambda>e. f e = t) es")
  case None
  then have "find (\<lambda>e. f e = t) ds = None" using assms(1) by (simp add: find_None_iff)
  with None show ?thesis by simp
next
  case (Some e)
  then have e: "e \<in> set es" "f e = t" by (auto simp: find_Some_iff)
  have "find (\<lambda>e. f e = t) ds = Some e"
    using e assms by (intro find_unique) (auto simp: distinct_map inj_on_def)
  with Some show ?thesis by simp
qed

lemma queryView_created:
  assumes "list_all v2_ok es" "distinct (map v2_key es)" "length es < 2 ^ 45"
  shows "queryView (createDirectory es) z (of_int x) (of_int y)
    = Inr (map_option (\<lambda>e. (kept_offset (eoffset e), elength e)) (find (\<lambda>e. v2_key e = (z, x, y)) es))"
proof -
  let ?ds = "sort_key v2_key es"
  have len: "length ?ds < 2 ^ 45" using assms(3) by simp
  have "queryView (dir_bytes ?ds) z (of_int x) (of_int y)
    = queryView_loop (dir_bytes ?ds) z (of_int x) (of_int y) 0 (of_int (int (length ?ds) - 1))"
    unfolding queryView_def entry_count[OF len] ..
  also have "\<dots> = Inr (map_option (\<lambda>e. (kept_offset (eoffset e), elength e))
      (find (\<lambda>e. v2_key e = (z, x, y)) ?ds))"
    by (rule queryView_loop_correct[OF ordered_sort[OF assms(2)] _ len narrowed_init refl])
      (simp add: set_dir assms(1))
  also have "find (\<lambda>e. v2_key e = (z, x, y)) ?ds = find (\<lambda>e. v2_key e = (z, x, y)) es"
    by (rule find_perm) (simp_all add: assms(2))
  finally show ?thesis by (simp add: createDirectory_bytes assms(1))
qed

section \<open>Parsing a whole directory\<close>

lemma parse_entries_dir:
  assumes "list_all v2_ok es" "length es < 2 ^ 45" "i \<le> length es"
  shows "parse_entries (dir_bytes es) i
    = Inr (map (\<lambda>e. e\<lparr>eoffset := kept_offset (eoffset e)\<rparr>) (drop i es))"
  using assms(3)
proof (induction "length es - i" arbitrary: i)
  case 0
  then show ?case
    by (subst parse_entries.simps) (simp add: entry_count[OF assms(2)] del: length_dir_bytes)
next
  case (Suc n)
  then have i: "i < length es" by simp
  have ok: "v2_ok (es ! i)" using assms(1) i by (simp add: list_all_length)
  have l: "length (dir_bytes (take i es)) = i * 17" using i by simp
  have p: "parseEntry (dir_bytes es) (of_nat i) = Inr ((es ! i)\<lparr>eoffset := kept_offset (eoffset (es ! i))\<rparr>)"
    using parse_entry_bytes[OF ok l, of "dir_bytes (drop (Suc i) es)"] dir_bytes_at[OF i] i assms(2) by simp
  have "parse_entries (dir_bytes es) (Suc i)
    = Inr (map (\<lambda>e. e\<lparr>eoffset := kept_offset (eoffset e)\<rparr>) (drop (Suc i) es))"
    using Suc by simp
  with i p show ?case
    by (subst parse_entries.simps)
      (simp add: entry_count[OF assms(2)] Cons_nth_drop_Suc [symmetric] del: length_dir_bytes)
qed

lemma parse_created:
  assumes "list_all v2_ok es" "length es < 2 ^ 45"
  shows "parse_entries (createDirectory es) 0
    = Inr (map (\<lambda>e. e\<lparr>eoffset := kept_offset (eoffset e)\<rparr>) (sort_key v2_key es))"
  using parse_entries_dir[of "sort_key v2_key es" 0] assms
  by (simp add: createDirectory_bytes set_dir)

text \<open>What \<^verbatim>\<open>parseEntry\<close> reads can always be written again.\<close>

lemma u24_range: "u24 v i = Inr x \<Longrightarrow> 0 \<le> x \<and> x < 2 ^ 24"
  using getUint16_range getUint8_range by (force simp: u24_def bind_sum_Inr_iff)

lemma u48_range: "u48 v i = Inr x \<Longrightarrow> 0 \<le> x \<and> x < 2 ^ 48"
  using getUint32_range getUint16_range by (force simp: u48_def bind_sum_Inr_iff)

lemma parseEntry_ok:
  assumes "parseEntry v (of_nat i) = Inr e" "i < 2 ^ 45"
  shows "v2_ok e \<and> eoffset e < 2 ^ 48"
proof -
  have p: "fl (of_nat i * 17) = of_nat (i * 17)"
    using fl_nat[of "i * 17"] assms(2) by simp
  have q: "fl (of_nat (i * 17) + 1) = of_nat (i * 17 + 1)" "fl (of_nat (i * 17) + 4) = of_nat (i * 17 + 4)"
    "fl (of_nat (i * 17) + 7) = of_nat (i * 17 + 7)" "fl (of_nat (i * 17) + 13) = of_nat (i * 17 + 13)"
    using assms(2) by (intro fl_nat_add fl_nat_Suc; simp)+
  have r: "i * 17 + 1 < 2 ^ 52" "i * 17 + 4 < 2 ^ 52" "i * 17 + 7 < 2 ^ 52" using assms(2) by simp_all
  from assms(1) obtain z x y off l where
      f: "getUint8 v (i * 17) = Inr z" "u24 v (i * 17 + 1) = Inr x" "u24 v (i * 17 + 4) = Inr y"
        "u48 v (i * 17 + 7) = Inr off" "getUint32 v (i * 17 + 13) = Inr l"
    and e: "e = \<lparr>ez = i32_and z 127, ex = of_int x, ey = of_int y, eoffset = off, elength = l,
       isDir = (i32_shr z 7 = 1)\<rparr>"
    unfolding parseEntry_def p q ix_nat getUint24_nat[OF r(1)] getUint24_nat[OF r(2)] getUint48_nat[OF r(3)]
    by (auto simp: bind_sum_Inr_iff)
  have z: "0 \<le> i32_and z 127 \<and> i32_and z 127 < 128"
  proof -
    have "i32_and z 127 = to_i32 z AND 127" by (simp add: i32_and_def)
    moreover have "0 \<le> to_i32 z AND 127" "to_i32 z AND 127 \<le> 127"
      by (simp, rule AND_upper2) simp
    ultimately show ?thesis by simp
  qed
  show ?thesis
    using z u24_range[OF f(2)] u24_range[OF f(3)] u48_range[OF f(4)] getUint32_range[OF f(5)]
    by (simp add: e v2_ok_def)
qed

lemma parseEntry_available:
  assumes "i * 17 + 17 \<le> length v" "i < 2 ^ 45"
  shows "\<exists>e. parseEntry v (of_nat i) = Inr e"
proof -
  have p: "fl (of_nat i * 17) = of_nat (i * 17)"
    using fl_nat[of "i * 17"] assms(2) by simp
  have q: "fl (of_nat (i * 17) + 1) = of_nat (i * 17 + 1)" "fl (of_nat (i * 17) + 4) = of_nat (i * 17 + 4)"
    "fl (of_nat (i * 17) + 7) = of_nat (i * 17 + 7)" "fl (of_nat (i * 17) + 13) = of_nat (i * 17 + 13)"
    using assms(2) by (intro fl_nat_add fl_nat_Suc; simp)+
  have r: "i * 17 + 1 < 2 ^ 52" "i * 17 + 4 < 2 ^ 52" "i * 17 + 7 < 2 ^ 52" using assms(2) by simp_all
  show ?thesis
    unfolding parseEntry_def p q ix_nat getUint24_nat[OF r(1)] getUint24_nat[OF r(2)] getUint48_nat[OF r(3)]
    using assms(1) by (simp add: u24_def u48_def getUint8_def getUint16_def getUint32_def)
qed

lemma parse_entries_total:
  assumes "length v = 17 * n" "n < 2 ^ 45" "i \<le> n"
  shows "\<exists>es. parse_entries v i = Inr es \<and> length es = n - i \<and> list_all (\<lambda>e. v2_ok e \<and> eoffset e < 2 ^ 48) es"
  using assms(3)
proof (induction "n - i" arbitrary: i)
  case 0
  have "(of_nat (17 * n) / 17 :: rat) = of_nat n" by simp
  with 0 assms show ?case by (subst parse_entries.simps) (simp add: fl_nat)
next
  case (Suc m)
  then have i: "i < n" and m: "m = n - Suc i" by simp_all
  have n: "(of_nat (17 * n) / 17 :: rat) = of_nat n" by simp
  obtain e where e: "parseEntry v (of_nat i) = Inr e"
    using parseEntry_available[of i v] i assms by auto
  obtain es where "parse_entries v (Suc i) = Inr es" "length es = n - Suc i"
    "list_all (\<lambda>e. v2_ok e \<and> eoffset e < 2 ^ 48) es"
    using Suc(1)[OF m] i by auto
  with i e n assms parseEntry_ok[OF e] show ?case
    by (subst parse_entries.simps) (simp add: fl_nat)
qed

lemma parse_error:
  "parseEntry v r = Inl e \<Longrightarrow> e = Range_error"
  by (auto simp: parseEntry_def getUint24_def getUint48_def bind_sum_Inl_iff getUint8_def getUint16_def
      getUint32_def split: if_splits)

lemma parse_entries_error: "parse_entries v i = Inl e \<Longrightarrow> e = Range_error"
proof (induction v i rule: parse_entries.induct)
  case (1 v i)
  from 1(2) show ?case
    by (subst (asm) parse_entries.simps) (auto simp: bind_sum_Inl_iff parse_error dest: 1(1) split: if_splits)
qed

text \<open>A buffer that ends inside an entry.\<close>

lemma parse_entries_ragged:
  assumes "length v = 17 * n + r" "0 < r" "r < 17" "n < 2 ^ 45" "i \<le> n"
  shows "parse_entries v i = Inl Range_error"
proof -
  have "fl (of_int (32 * int n + 1) * 2 powi - 5) = of_int (32 * int n + 1) * 2 powi - 5"
    using assms(4) by (intro fl_representable[where m = "32 * int n + 1" and e = "- 5"]) simp_all
  then have "fl (of_nat n + 1 / 32) = of_nat n + 1 / 32"
    by (simp add: power_int_minus field_simps)
  moreover have "(of_nat n + 1 / 32 :: rat) \<le> of_nat (length v) / 17"
  proof -
    have "(1::rat) \<le> of_nat r" using assms(2) by simp
    then show ?thesis using assms(1) by simp
  qed
  ultimately have n: "of_nat n < fl (of_nat (length v) / 17)"
    using fl_mono[of "of_nat n + 1 / 32" "of_nat (length v) / 17"] by simp
  have no: "parseEntry v (of_nat n) \<noteq> Inr e" for e
  proof -
    have p: "fl (of_nat n * 17) = of_nat (n * 17)" using fl_nat[of "n * 17"] assms(4) by simp
    have "fl (of_nat (n * 17) + 13) = of_nat (n * 17 + 13)" using assms(4) by (intro fl_nat_add) simp
    moreover have "getUint32 v (n * 17 + 13) = Inl Range_error" using assms(1,3) by (simp add: getUint32_def)
    ultimately show ?thesis
      by (auto simp: parseEntry_def p bind_sum_Inr_iff simp del: of_nat_mult of_nat_add)
  qed
  have "parse_entries v i \<noteq> Inr es" for es
    using assms(5)
  proof (induction "n - i" arbitrary: i es)
    case 0
    with n no show ?case by (subst parse_entries.simps) (simp add: bind_sum_Inr_iff)
  next
    case (Suc m)
    have "(of_nat i :: rat) < of_nat n" using Suc(2) by simp
    with n have "of_nat i < fl (of_nat (length v) / 17)" by linarith
    with Suc(1)[of "Suc i"] Suc(2) show ?case
      by (subst parse_entries.simps) (auto simp: bind_sum_Inr_iff)
  qed
  then show ?thesis
    using parse_entries_error[of v i] by (cases "parse_entries v i") auto
qed

lemma kept_all:
  "list_all (\<lambda>e. 0 \<le> eoffset e \<and> eoffset e < 2 ^ 40) es
    \<Longrightarrow> map (\<lambda>e. e\<lparr>eoffset := kept_offset (eoffset e)\<rparr>) es = es"
  by (induction es) (simp_all add: kept_offset_small)

lemma v2_key_eq:
  assumes "v2_ok e" "0 \<le> z" "z < 128"
  shows "v2_key e = (z, x, y) \<longleftrightarrow> \<not> isDir e \<and> ez e = z \<and> ex e = of_int x \<and> ey e = of_int y"
    "v2_key e = (z + 128, x, y) \<longleftrightarrow> isDir e \<and> ez e = z \<and> ex e = of_int x \<and> ey e = of_int y"
proof -
  have z: "0 \<le> ez e" "ez e < 128" using assms(1) by (simp_all add: v2_ok_def)
  have xy: "\<lfloor>ex e\<rfloor> = x \<longleftrightarrow> ex e = of_int x" "\<lfloor>ey e\<rfloor> = y \<longleftrightarrow> ey e = of_int y"
    using v2_ok_int[OF assms(1)] by (metis floor_of_int)+
  show "v2_key e = (z, x, y) \<longleftrightarrow> \<not> isDir e \<and> ez e = z \<and> ex e = of_int x \<and> ey e = of_int y"
    "v2_key e = (z + 128, x, y) \<longleftrightarrow> isDir e \<and> ez e = z \<and> ex e = of_int x \<and> ey e = of_int y"
    using z assms(2,3) by (auto simp: v2_key_def zRaw_of_def xy)
qed

lemma find_cong_set: "(\<And>e. e \<in> set es \<Longrightarrow> P e = Q e) \<Longrightarrow> find P es = find Q es"
  by (induction es) auto

lemma trunc_div_power2:
  assumes "0 \<le> w" "w < 2 ^ 53" "k \<le> 30"
  shows "of_int (trunc_rat (fl (of_int w / of_int (2 ^ k)))) = (of_int (w div 2 ^ k) :: rat)"
proof -
  have "fl (of_int w / 2 ^ k) = of_int w / 2 ^ k"
    using assms by (intro fl_representable[where m = w and e = "- int k"])
      (simp_all add: power_int_minus divide_inverse)
  then have "trunc_rat (fl (of_int w / of_int (2 ^ k))) = \<lfloor>of_int w / (of_int (2 ^ k) :: rat)\<rfloor>"
    using assms(1) by (simp add: trunc_rat_floor)
  then show ?thesis by (simp only: floor_divide_of_int_eq)
qed

section \<open>Properties\<close>

lemma lookup_created:
  assumes "list_all v2_ok es" "distinct (map v2_key es)" "length es < 2 ^ 45"
    "list_all (\<lambda>e. eoffset e < 2 ^ 40) es" "0 \<le> z" "z < 128"
  shows "queryTile (createDirectory es) z (of_int x) (of_int y)
      = Inr (find (\<lambda>e. \<not> isDir e \<and> ez e = z \<and> ex e = of_int x \<and> ey e = of_int y) es)
    \<and> queryLeafdir (createDirectory es) z (of_int x) (of_int y)
      = Inr (find (\<lambda>e. isDir e \<and> ez e = z \<and> ex e = of_int x \<and> ey e = of_int y) es)"
proof -
  have ok: "v2_ok e" "0 \<le> eoffset e" "eoffset e < 2 ^ 40" if "e \<in> set es" for e
    using assms(1,4) that by (auto simp: list_all_iff v2_ok_def)
  have f: "find (\<lambda>e. v2_key e = (z, x, y)) es
        = find (\<lambda>e. \<not> isDir e \<and> ez e = z \<and> ex e = of_int x \<and> ey e = of_int y) es"
      "find (\<lambda>e. v2_key e = (z + 128, x, y)) es
        = find (\<lambda>e. isDir e \<and> ez e = z \<and> ex e = of_int x \<and> ey e = of_int y) es"
    using v2_key_eq[OF ok(1) assms(5,6)] by (auto intro: find_cong_set)
  have found: "(case map_option (\<lambda>e. (kept_offset (eoffset e), elength e)) (find P es) of
        Some (off, l) \<Rightarrow> Some \<lparr>ez = z, ex = of_int x, ey = of_int y, eoffset = off, elength = l, isDir = b\<rparr>
      | None \<Rightarrow> None) = find P es"
    if "\<And>e. P e \<Longrightarrow> isDir e = b \<and> ez e = z \<and> ex e = of_int x \<and> ey e = of_int y" for P b
  proof (cases "find P es")
    case (Some e)
    then have "P e" "e \<in> set es" by (auto simp: find_Some_iff)
    with that ok[of e] Some show ?thesis by (simp add: kept_offset_small)
  qed simp
  show ?thesis
    unfolding queryTile_def queryLeafdir_def or_128(1)[OF assms(5,6)] queryView_created[OF assms(1-3)] f
    by (simp only: bind_sum_simps sum.inject) (intro conjI found, auto)
qed

text \<open>
  C21: a directory written by \<^verbatim>\<open>createDirectory\<close> answers every query: \<^verbatim>\<open>queryTile\<close> finds
  exactly the tile entries and \<^verbatim>\<open>queryLeafdir\<close> exactly the directory entries that were put in,
  in whatever order, when their offsets are below \<open>2^40\<close>.
\<close>

theorem v2_lookup:
  assumes "list_all v2_ok es" "distinct (map v2_key es)" "length es < 2 ^ 45"
    "list_all (\<lambda>e. eoffset e < 2 ^ 40) es" "0 \<le> z" "z < 128"
  shows "queryTile (createDirectory es) z (of_int x) (of_int y)
      = Inr (find (\<lambda>e. \<not> isDir e \<and> ez e = z \<and> ex e = of_int x \<and> ey e = of_int y) es)
    \<and> queryLeafdir (createDirectory es) z (of_int x) (of_int y)
      = Inr (find (\<lambda>e. isDir e \<and> ez e = z \<and> ex e = of_int x \<and> ey e = of_int y) es)"
  using assms by (rule lookup_created)

definition sample_entries :: "v2_entry list" where
  "sample_entries =
     [\<lparr>ez = 7, ex = 3, ey = 4, eoffset = 900, elength = 34, isDir = True\<rparr>,
      \<lparr>ez = 1, ex = 1, ey = 0, eoffset = 500, elength = 60, isDir = False\<rparr>,
      \<lparr>ez = 0, ex = 0, ey = 0, eoffset = 300, elength = 50, isDir = False\<rparr>]"

lemma sample_entries_ok:
  "list_all v2_ok sample_entries" "distinct (map v2_key sample_entries)" "length sample_entries < 2 ^ 45"
  "list_all (\<lambda>e. eoffset e < 2 ^ 40) sample_entries"
  by (simp_all add: sample_entries_def v2_ok_def v2_key_def zRaw_of_def)

lemma v2_lookup_witness:
  "queryTile (createDirectory sample_entries) 1 1 0
     = Inr (Some \<lparr>ez = 1, ex = 1, ey = 0, eoffset = 500, elength = 60, isDir = False\<rparr>)
   \<and> queryTile (createDirectory sample_entries) 7 3 4 = Inr None
   \<and> queryLeafdir (createDirectory sample_entries) 7 3 4
     = Inr (Some \<lparr>ez = 7, ex = 3, ey = 4, eoffset = 900, elength = 34, isDir = True\<rparr>)"
  using v2_lookup[OF sample_entries_ok, of 1 1 0] v2_lookup[OF sample_entries_ok, of 7 3 4]
  by (simp add: sample_entries_def)

text \<open>
  C22: \<^verbatim>\<open>sortDir\<close> rewrites a version 1 directory: a buffer of whole entries gives a directory
  of the same length that holds exactly the same entries in the order of the search (directories last,
  then by zoom and coordinates, equal keys as they were) when all offsets are below \<open>2^40\<close>; of any
  larger offset \<^verbatim>\<open>createDirectory\<close> loses the bits from 40 on (the byte above them is written in
  their place, \<open>kept_offset\<close>), and nothing else of the entry changes. A buffer that ends inside an entry
  makes it throw.
\<close>

theorem sortDir_correct:
  assumes "length a = 17 * n + r" "r < 17" "n < 2 ^ 45"
  shows "if r = 0 then \<exists>b es. sortDir a = Inr b \<and> length b = length a \<and> parse_entries a 0 = Inr es
      \<and> (list_all (\<lambda>e. eoffset e < 2 ^ 40) es \<longrightarrow> parse_entries b 0 = Inr (sort_key v2_key es))
      \<and> parse_entries b 0 = Inr (map (\<lambda>e. e\<lparr>eoffset := kept_offset (eoffset e)\<rparr>) (sort_key v2_key es))
    else sortDir a = Inl Range_error"
proof (cases "r = 0")
  case True
  with assms(1) have "length a = 17 * n" by simp
  from parse_entries_total[OF this assms(3), of 0] obtain es where
    es: "parse_entries a 0 = Inr es" "length es = n" "list_all v2_ok es"
    by (auto simp: list_all_iff)
  have "length (createDirectory es) = 17 * n"
    by (simp add: createDirectory_bytes es)
  moreover have "map (\<lambda>e. e\<lparr>eoffset := kept_offset (eoffset e)\<rparr>) (sort_key v2_key es) = sort_key v2_key es"
    if "list_all (\<lambda>e. eoffset e < 2 ^ 40) es"
    using that es(3) by (intro kept_all) (simp add: list_all_iff v2_ok_def)
  ultimately show ?thesis
    using True assms es by (simp add: sortDir_def parse_created)
next
  case False
  with parse_entries_ragged[OF assms(1) _ assms(2,3), of 0] show ?thesis
    by (simp add: sortDir_def)
qed

definition unsorted_dir :: bytes where
  "unsorted_dir = [1, 1, 0, 0, 0, 0, 0, 9, 0, 0, 0, 0, 0, 8, 0, 0, 0] @ [0, 0, 0, 0, 0, 0, 0, 1, 0, 0, 0, 0, 0, 8, 0, 0, 0]"

lemma parse_unsorted_dir:
  "parse_entries unsorted_dir 0 = Inr [\<lparr>ez = 1, ex = 1, ey = 0, eoffset = 9, elength = 8, isDir = False\<rparr>,
     \<lparr>ez = 0, ex = 0, ey = 0, eoffset = 1, elength = 8, isDir = False\<rparr>]"
  by code_simp

lemma sortDir_correct_witness:
  "(\<exists>b. sortDir unsorted_dir = Inr b \<and> length b = 34
      \<and> parse_entries b 0 = Inr [\<lparr>ez = 0, ex = 0, ey = 0, eoffset = 1, elength = 8, isDir = False\<rparr>,
          \<lparr>ez = 1, ex = 1, ey = 0, eoffset = 9, elength = 8, isDir = False\<rparr>])
   \<and> sortDir (replicate 35 7) = Inl Range_error"
proof -
  have n: "length unsorted_dir = 17 * 2 + 0" by (simp add: unsorted_dir_def)
  from sortDir_correct[OF this] obtain b es where "sortDir unsorted_dir = Inr b" "length b = length unsorted_dir"
    "parse_entries unsorted_dir 0 = Inr es"
    "list_all (\<lambda>e. eoffset e < 2 ^ 40) es \<longrightarrow> parse_entries b 0 = Inr (sort_key v2_key es)"
    by auto
  with n have "\<exists>b. sortDir unsorted_dir = Inr b \<and> length b = 34
      \<and> parse_entries b 0 = Inr [\<lparr>ez = 0, ex = 0, ey = 0, eoffset = 1, elength = 8, isDir = False\<rparr>,
          \<lparr>ez = 1, ex = 1, ey = 0, eoffset = 9, elength = 8, isDir = False\<rparr>]"
    by (auto simp: parse_unsorted_dir v2_key_def zRaw_of_def)
  then show ?thesis using sortDir_correct[of "replicate 35 7" 2 1] by simp
qed

text \<open>
  The sixth offset byte is written from the wrong bits (\<^verbatim>\<open>unshift(entry.offset, 48)\<close> where
  the format has 40): an entry with an offset of \<open>2^40\<close> or more is read back from a rewritten
  directory with another offset.
\<close>

theorem v2_offset_lost:
  assumes "v2_ok e" "2 ^ 40 \<le> eoffset e"
  shows "\<exists>e'. parse_entries (createDirectory [e]) 0 = Inr [e'] \<and> eoffset e' \<noteq> eoffset e"
proof -
  have "parse_entries (createDirectory [e]) 0 = Inr [e\<lparr>eoffset := kept_offset (eoffset e)\<rparr>]"
    using parse_created[of "[e]"] assms(1) by simp
  moreover have "kept_offset (eoffset e) \<noteq> eoffset e"
  proof
    let ?h = "eoffset e div 2 ^ 40"
    assume k: "kept_offset (eoffset e) = eoffset e"
    have h: "0 < ?h"
      using assms by (simp add: pos_imp_zdiv_pos_iff)
    have d: "eoffset e div 2 ^ 48 = ?h div 2 ^ 8" by (simp add: zdiv_zmult2_eq [symmetric])
    have "eoffset e mod 2 ^ 40 + 2 ^ 40 * ?h = eoffset e" by (rule mod_mult_div_eq)
    with k have "2 ^ 40 * (?h div 2 ^ 8 mod 2 ^ 8) = 2 ^ 40 * ?h"
      unfolding kept_offset_def d by linarith
    then have "?h div 2 ^ 8 mod 2 ^ 8 = ?h"
      by (simp only: mult_cancel_left power_not_zero[OF zero_neq_numeral[symmetric]] simp_thms)
    moreover have "?h div 2 ^ 8 mod 2 ^ 8 \<le> ?h div 2 ^ 8" using h by (intro zmod_le_nonneg_dividend) (simp add: pos_imp_zdiv_nonneg_iff)
    moreover have "?h div 2 ^ 8 < ?h" using h by (intro int_div_less_self) simp_all
    ultimately show False by linarith
  qed
  ultimately show ?thesis by simp
qed

lemma v2_offset_lost_witness:
  "\<exists>e'. parse_entries (createDirectory [\<lparr>ez = 3, ex = 1, ey = 2, eoffset = 2 ^ 40 + 5, elength = 9,
        isDir = False\<rparr>]) 0 = Inr [e'] \<and> eoffset e' \<noteq> 2 ^ 40 + 5"
  using v2_offset_lost[of "\<lparr>ez = 3, ex = 1, ey = 2, eoffset = 2 ^ 40 + 5, elength = 9, isDir = False\<rparr>"]
  by (simp add: v2_ok_def)

lemma deriveLeaf_last:
  assumes "list_all v2_ok es" "v2_ok d" "length es < 2 ^ 44" "isDir d \<Longrightarrow> ez d \<le> z \<and> z \<le> ez d + 30"
    "0 \<le> x" "x < 2 ^ 53" "0 \<le> y" "y < 2 ^ 53"
  shows "deriveLeaf (dir_bytes (es @ [d])) z (of_int x) (of_int y) = Inr
      (if isDir d
       then Some (ez d, of_int (x div 2 ^ nat (z - ez d)), of_int (y div 2 ^ nat (z - ez d)))
       else None)"
proof -
  let ?n = "length es" and ?k = "nat (z - ez d)"
  have len: "length (es @ [d]) < 2 ^ 45" using assms(3) by simp
  have num: "fl (of_nat (Suc ?n) - 1) = of_nat ?n"
    using entry_count(2)[OF len] by simp
  have p: "parseEntry (dir_bytes (es @ [d])) (of_nat ?n) = Inr (d\<lparr>eoffset := kept_offset (eoffset d)\<rparr>)"
    using parse_entry_bytes[OF assms(2), of "dir_bytes es" ?n "[]"] assms(3) by (simp add: dir_bytes_def [symmetric])
      (simp add: dir_bytes_def)
  have k: "?k \<le> 30" "to_i32 (z - ez d) mod 32 = z - ez d" "i32_shl 1 ?k = 2 ^ ?k" if "isDir d"
  proof -
    show k: "?k \<le> 30" and "to_i32 (z - ez d) mod 32 = z - ez d"
      using assms(4)[OF that] by (auto simp: nat_le_iff)
    show "i32_shl 1 ?k = 2 ^ ?k" using k by (simp add: i32_shl_def push_bit_eq_mult)
  qed
  have "deriveLeaf (dir_bytes (es @ [d])) z (of_int x) (of_int y)
      = bind_sum (parseEntry (dir_bytes (es @ [d])) (fl (of_nat (Suc ?n) - 1))) (\<lambda>entry.
        if isDir entry then
          let s = of_int (i32_shl 1 (nat (to_i32 (z - ez entry) mod 32)))
          in Inr (Some (ez entry, of_int (trunc_rat (fl (of_int x / s))), of_int (trunc_rat (fl (of_int y / s)))))
        else Inr None)"
    unfolding deriveLeaf_def entry_count(1)[OF len] Let_def by simp
  also have "\<dots> = Inr (if isDir d
       then Some (ez d, of_int (x div 2 ^ ?k), of_int (y div 2 ^ ?k)) else None)"
    unfolding num p bind_sum_simps Let_def
    using k trunc_div_power2[OF assms(5,6) k(1)] trunc_div_power2[OF assms(7,8) k(1)] by simp
  finally show ?thesis .
qed

text \<open>
  \<^verbatim>\<open>deriveLeaf\<close> looks at the last entry, where the directories are: when it is one, the
  leaf of a tile at or below its zoom level is the ancestor of the tile on that level; when it is a
  tile, or there is no entry, there is no leaf.
\<close>

theorem deriveLeaf_correct:
  assumes "list_all v2_ok es" "v2_ok d" "length es < 2 ^ 44" "ez d \<le> z" "z \<le> ez d + 30"
    "0 \<le> x" "x < 2 ^ 53" "0 \<le> y" "y < 2 ^ 53"
  shows "deriveLeaf (dir_bytes (es @ [d])) z (of_int x) (of_int y) = Inr
      (if isDir d
       then Some (ez d, of_int (x div 2 ^ nat (z - ez d)), of_int (y div 2 ^ nat (z - ez d)))
       else None)
    \<and> deriveLeaf (dir_bytes []) z (of_int x) (of_int y) = Inr None"
  using deriveLeaf_last[OF assms(1-3) _ assms(6-9)] assms(4,5) by (simp add: deriveLeaf_def dir_bytes_def)

lemma deriveLeaf_correct_witness:
  "deriveLeaf (dir_bytes [\<lparr>ez = 0, ex = 0, ey = 0, eoffset = 300, elength = 50, isDir = False\<rparr>,
      \<lparr>ez = 7, ex = 3, ey = 4, eoffset = 900, elength = 34, isDir = True\<rparr>]) 9 13 19
    = Inr (Some (7, 3, 4))"
  using deriveLeaf_correct[of "[\<lparr>ez = 0, ex = 0, ey = 0, eoffset = 300, elength = 50, isDir = False\<rparr>]"
      "\<lparr>ez = 7, ex = 3, ey = 4, eoffset = 900, elength = 34, isDir = True\<rparr>" 9 13 19]
  by (simp add: v2_ok_def)

end
