(* ===== verification/Fetch_Source.thy ===== *)
theory Fetch_Source
  imports Bytes Js_Value
begin

text \<open>
  Where the bytes come from: \<^verbatim>\<open>FileSource\<close> and \<^verbatim>\<open>FetchSource\<close> of
  \<^verbatim>\<open>src/app/static/js/pmtiles.js\<close>. The network is a parameter, a function from the
  requests made so far and the next request to an answer: \<^verbatim>\<open>fetch\<close> rejects, or gives a
  response whose body may still fail to arrive. The state of the source is the object's fields and
  the list of requests it has made.
\<close>

section \<open>Requests and responses\<close>

type_synonym headers = "(string \<times> string) list"

text \<open>Header names are kept in lower case, as \<^verbatim>\<open>Headers\<close> does; \<^verbatim>\<open>set\<close> replaces every value.\<close>

definition headers_set :: "string \<Rightarrow> string \<Rightarrow> headers \<Rightarrow> headers" where
  "headers_set n v hs = filter (\<lambda>(m, w). m \<noteq> n) hs @ [(n, v)]"

record request =
  req_url :: string
  req_headers :: headers
  req_cache :: "string option"

record response =
  status :: int
  h_etag :: "string option"
  h_content_range :: "string option"
  h_content_length :: "string option"
  h_cache_control :: "string option"
  h_expires :: "string option"
  body :: "js_error + bytes"

type_synonym network = "request list \<Rightarrow> request \<Rightarrow> js_error + response"

text \<open>What \<^verbatim>\<open>getBytes\<close> resolves to.\<close>

record range_response =
  rr_data :: bytes
  rr_etag :: "string option"
  rr_cache_control :: "string option"
  rr_expires :: "string option"

section \<open>FetchSource\<close>

record fetch_source =
  url :: string
  customHeaders :: headers
  mustReload :: bool
  chromeWindowsNoCache :: bool
  requests :: "request list"

definition contains :: "string \<Rightarrow> string \<Rightarrow> bool" where
  "contains s p \<longleftrightarrow> list_ex (\<lambda>i. starts_with p (drop i s)) [0..<Suc (length s)]"

text \<open>The constructor; the user agent is \<open>None\<close> where there is no \<^verbatim>\<open>navigator\<close>.\<close>

definition new_FetchSource :: "string \<Rightarrow> headers \<Rightarrow> string option \<Rightarrow> fetch_source" where
  "new_FetchSource u hs navigator =
     (let userAgent = (case navigator of Some ua \<Rightarrow> ua | None \<Rightarrow> []);
          isWindows = contains userAgent ''Windows'';
          isChromiumBased = list_ex (contains userAgent) [''Chrome'', ''Chromium'', ''Edg'', ''OPR'', ''Brave'']
      in \<lparr>url = u, customHeaders = hs, mustReload = False,
          chromeWindowsNoCache = (isWindows \<and> isChromiumBased), requests = []\<rparr>)"

definition getKey :: "fetch_source \<Rightarrow> string" where
  "getKey s = url s"

definition setHeaders :: "headers \<Rightarrow> fetch_source \<Rightarrow> fetch_source" where
  "setHeaders hs s = s\<lparr>customHeaders := hs\<rparr>"

definition range_text :: "int \<Rightarrow> int \<Rightarrow> string" where
  "range_text from to = ''bytes='' @ num_text (of_int from) @ ''-'' @ num_text (of_int to)"

definition perform :: "network \<Rightarrow> request \<Rightarrow> fetch_source \<Rightarrow> (js_error + response) \<times> fetch_source" where
  "perform net r s = (net (requests s) r, s\<lparr>requests := requests s @ [r]\<rparr>)"

text \<open>
  The second request, made when the archive is shorter than the first range and the server answers
  416. It carries the range only, not the custom headers.
\<close>

definition retry_416 ::
  "network \<Rightarrow> int \<Rightarrow> response \<Rightarrow> fetch_source \<Rightarrow> (js_error + response) \<times> fetch_source" where
  "retry_416 net off resp s =
     (if off = 0 \<and> status resp = 416 then
        (case h_content_range resp of
           None \<Rightarrow> (Inl (Error ''Missing content-length on 416 response''), s)
         | Some contentRange \<Rightarrow>
             if contentRange = [] \<or> \<not> starts_with ''bytes */'' contentRange then
               (Inl (Error ''Missing content-length on 416 response''), s)
             else
               let actualLength = to_number (drop 8 contentRange) in
               perform net
                 \<lparr>req_url = url s,
                  req_headers = [(''range'', ''bytes=0-'' @ num_string (jsub actualLength (Fin 1)))],
                  req_cache = Some ''reload''\<rparr> s)
      else (Inr resp, s))"

definition strong_etag :: "response \<Rightarrow> string option" where
  "strong_etag resp = (case h_etag resp of
     Some t \<Rightarrow> if starts_with ''W/'' t then None else Some t
   | None \<Rightarrow> None)"

definition nonempty :: "string option \<Rightarrow> string option" where
  "nonempty t = (if t = Some [] then None else t)"

text \<open>The checks on the final response and what is made of it.\<close>

definition etag_differs :: "string option \<Rightarrow> string option \<Rightarrow> bool" where
  "etag_differs expected new \<longleftrightarrow>
     nonempty expected \<noteq> None \<and> nonempty new \<noteq> None \<and> new \<noteq> expected"

definition finish :: "int \<Rightarrow> string option \<Rightarrow> response \<Rightarrow> fetch_source \<Rightarrow>
    (js_error + range_response) \<times> fetch_source" where
  "finish l tag resp s =
     (let newEtag = strong_etag resp in
      if status resp = 416 \<or> etag_differs tag newEtag then
        (Inl Etag_mismatch, s\<lparr>mustReload := True\<rparr>)
      else if status resp \<ge> 300 then
        (Inl (Error (''Bad response code: '' @ num_text (of_int (status resp)))), s)
      else
        let contentLength = h_content_length resp in
        if status resp = 200 \<and> (case nonempty contentLength of
             None \<Rightarrow> True
           | Some cl \<Rightarrow> jless (Fin (of_int l)) (to_number cl)) then
          (Inl (Error (''Server returned no content-length header or content-length exceeding request. ''
             @ ''Check that your storage backend supports HTTP Byte Serving.'')), s)
        else (case body resp of
           Inl e \<Rightarrow> (Inl e, s)
         | Inr a \<Rightarrow> (Inr \<lparr>rr_data = a, rr_etag = nonempty newEtag,
             rr_cache_control = nonempty (h_cache_control resp), rr_expires = nonempty (h_expires resp)\<rparr>, s)))"

definition getBytes :: "network \<Rightarrow> int \<Rightarrow> int \<Rightarrow> string option \<Rightarrow> fetch_source \<Rightarrow>
    (js_error + range_response) \<times> fetch_source" where
  "getBytes net off l tag s =
     (let requestHeaders = headers_set ''range'' (range_text off (fli (fli (off + l) - 1))) (customHeaders s);
          cache = (if mustReload s then Some ''reload''
                   else if chromeWindowsNoCache s then Some ''no-store'' else None)
      in case perform net \<lparr>req_url = url s, req_headers = requestHeaders, req_cache = cache\<rparr> s of
           (Inl e, s) \<Rightarrow> (Inl e, s)
         | (Inr resp, s) \<Rightarrow>
             (case retry_416 net off resp s of
                (Inl e, s) \<Rightarrow> (Inl e, s)
              | (Inr resp, s) \<Rightarrow> finish l tag resp s))"

section \<open>FileSource\<close>

text \<open>
  A local file: its name and its content. \<^verbatim>\<open>Blob.slice\<close> counts from the end when an argument
  is negative and clamps both to the size.
\<close>

record file_source =
  file_name :: string
  content :: bytes

definition file_getKey :: "file_source \<Rightarrow> string" where
  "file_getKey f = file_name f"

definition clamp_index :: "int \<Rightarrow> int \<Rightarrow> int" where
  "clamp_index n i = (if i < 0 then max (n + i) 0 else min i n)"

definition blob_slice :: "bytes \<Rightarrow> int \<Rightarrow> int \<Rightarrow> bytes" where
  "blob_slice b from to =
     (let n = int (length b); f = clamp_index n from; t = clamp_index n to
      in take (nat (max (t - f) 0)) (drop (nat f) b))"

definition file_getBytes :: "file_source \<Rightarrow> int \<Rightarrow> int \<Rightarrow> js_error + range_response" where
  "file_getBytes f off l =
     Inr \<lparr>rr_data = blob_slice (content f) off (fli (off + l)), rr_etag = None,
       rr_cache_control = None, rr_expires = None\<rparr>"

section \<open>What every source promises\<close>

text \<open>
  The interface the reader is written against: inside the archive a range is answered with its bytes
  (as many as there are), under the version the archive has, and the archive stays what it is.
\<close>

locale byte_source =
  fixes get :: "int \<Rightarrow> int \<Rightarrow> string option \<Rightarrow> 's \<Rightarrow> (js_error + range_response) \<times> 's"
    and archive :: "'s \<Rightarrow> bytes"
    and version :: "'s \<Rightarrow> string option"
    and ok :: "'s \<Rightarrow> bool"
  assumes get_range:
    "ok s \<Longrightarrow> 0 \<le> off \<Longrightarrow> off < int (length (archive s)) \<Longrightarrow> 0 < l \<Longrightarrow> off + l < 2 ^ 53
      \<Longrightarrow> tag = None \<or> tag = version s
      \<Longrightarrow> \<exists>r s'. get off l tag s = (Inr r, s') \<and> rr_data r = take (nat l) (drop (nat off) (archive s))
        \<and> rr_etag r = version s \<and> ok s' \<and> archive s' = archive s \<and> version s' = version s"

text \<open>A local file.\<close>

definition file_get :: "int \<Rightarrow> int \<Rightarrow> string option \<Rightarrow> file_source \<Rightarrow>
    (js_error + range_response) \<times> file_source" where
  "file_get off l tag f = (file_getBytes f off l, f)"

lemma blob_slice_take:
  assumes "0 \<le> off" "0 \<le> l"
  shows "blob_slice b off (off + l) = take (nat l) (drop (nat off) b)"
proof (cases "off \<le> int (length b)")
  case True
  have "min (off + l) (int (length b)) - off = min l (int (length b) - off)" by linarith
  with True assms show ?thesis
    by (simp add: blob_slice_def clamp_index_def Let_def min_def nat_diff_distrib' split: if_splits)
next
  case False
  with assms show ?thesis by (simp add: blob_slice_def clamp_index_def Let_def)
qed

interpretation local_file: byte_source file_get content "\<lambda>_. None" "\<lambda>_. True"
  by unfold_locales (simp add: file_get_def file_getBytes_def blob_slice_take)

text \<open>
  A server that answers ranges, as RFC 9110 has it: 206 with the part of the range that exists, 416
  with the length when the range starts behind the end, the whole representation without a range.
\<close>

definition range_bounds :: "string \<Rightarrow> int \<times> int" where
  "range_bounds r =
     (let s = drop 6 r; a = takeWhile is_digit s; c = takeWhile is_digit (drop (length a + 1) s)
      in (digits_value a, digits_value c))"

definition range_reply :: "bytes \<Rightarrow> string option \<Rightarrow> string option \<Rightarrow> response" where
  "range_reply b tag r =
     (let total = num_text (of_int (int (length b)));
          full = \<lparr>status = 200, h_etag = tag, h_content_range = None, h_content_length = Some total,
                  h_cache_control = None, h_expires = None, body = Inr b\<rparr>
      in case r of
        None \<Rightarrow> full
      | Some r \<Rightarrow>
          (case range_bounds r of (from, to) \<Rightarrow>
            if from < int (length b) then
              full\<lparr>status := 206, body := Inr (take (nat (to - from + 1)) (drop (nat from) b))\<rparr>
            else full\<lparr>status := 416, h_content_range := Some (''bytes */'' @ total), body := Inr []\<rparr>))"

definition serves :: "network \<Rightarrow> bytes \<Rightarrow> string option \<Rightarrow> bool" where
  "serves net b tag \<longleftrightarrow>
     (\<forall>hist req. net hist req = Inr (range_reply b tag (map_of (req_headers req) ''range'')))"

definition strong :: "string option \<Rightarrow> bool" where
  "strong tag \<longleftrightarrow> tag \<noteq> Some [] \<and> (\<forall>t. tag = Some t \<longrightarrow> \<not> starts_with ''W/'' t)"

text \<open>The world of a \<^verbatim>\<open>FetchSource\<close>: the network, what it serves, and the object.\<close>

record http_world =
  net :: network
  served :: bytes
  served_etag :: "string option"
  fetcher :: fetch_source

definition http_ok :: "http_world \<Rightarrow> bool" where
  "http_ok w \<longleftrightarrow> serves (net w) (served w) (served_etag w) \<and> strong (served_etag w)"

definition http_get :: "int \<Rightarrow> int \<Rightarrow> string option \<Rightarrow> http_world \<Rightarrow>
    (js_error + range_response) \<times> http_world" where
  "http_get off l tag w =
     (case getBytes (net w) off l tag (fetcher w) of (r, f) \<Rightarrow> (r, w\<lparr>fetcher := f\<rparr>))"

lemma digits_value_nonneg: "list_all is_digit ds \<Longrightarrow> 0 \<le> digits_value ds"
proof (induction ds rule: rev_induct)
  case Nil
  then show ?case by (simp add: digits_value_def)
next
  case (snoc c ds)
  then show ?case by (simp add: digits_value_append is_digit_def)
qed

lemma num_text_exact:
  assumes "0 \<le> i" "i < 2 ^ 53"
  shows "list_all is_digit (num_text (of_int i))" "digits_value (num_text (of_int i)) = i"
proof -
  define v where "v = digits_value (num_text (of_int i))"
  have f: "fl (of_int i) = of_int i" using assms by (simp add: fl_of_int)
  note n = num_text_int[OF this]
  show "list_all is_digit (num_text (of_int i))" using n assms by simp
  have v: "fl (of_int v) = of_int i" using n assms by (simp add: v_def)
  have "v \<le> 2 ^ 53"
  proof (rule ccontr)
    assume "\<not> v \<le> 2 ^ 53"
    then have "(of_int (2 ^ 53) :: rat) \<le> of_int v" by (simp only: of_int_le_iff) 
    then have "of_int (2 ^ 53) \<le> fl (of_int v)" by (intro fl_ge_int) simp
    with v have "(of_int (2 ^ 53) :: rat) \<le> of_int i" by simp
    then show False using assms(2) by (simp only: of_int_le_iff)
  qed
  moreover have "0 \<le> v" using n assms by (simp add: v_def digits_value_nonneg)
  ultimately have "fl (of_int v) = of_int v" by (simp add: fl_of_int)
  with v show "digits_value (num_text (of_int i)) = i" by (simp add: v_def)
qed


lemma range_bounds_text:
  assumes "0 \<le> from" "from < 2 ^ 53" "0 \<le> to" "to < 2 ^ 53"
  shows "range_bounds (range_text from to) = (from, to)"
proof -
  note f = num_text_exact[OF assms(1,2)] and t = num_text_exact[OF assms(3,4)]
  have tf: "takeWhile is_digit (num_text (of_int from) @ CHR ''-'' # r) = num_text (of_int from)" for r
    using takeWhile_digits[OF f(1)] by simp
  have tt: "takeWhile is_digit (num_text (of_int to)) = num_text (of_int to)"
    using takeWhile_all_digits[OF t(1)] by simp
  show ?thesis
    by (simp add: range_bounds_def range_text_def Let_def tf tt f t)
qed

lemma range_reply_inside:
  assumes "0 \<le> off" "off < int (length b)" "0 < l" "off + l < 2 ^ 53"
  shows "\<exists>resp. range_reply b tag (Some (range_text off (off + l - 1))) = resp \<and> status resp = 206
    \<and> h_etag resp = tag \<and> body resp = Inr (take (nat l) (drop (nat off) b))"
  using assms by (simp add: range_reply_def Let_def range_bounds_text)

lemma map_of_headers_set: "map_of (headers_set n v hs) n = Some v"
proof -
  have "map_of (filter (\<lambda>(m, w). m \<noteq> n) hs) n = None" by (auto simp: map_of_eq_None_iff)
  then show ?thesis by (simp add: headers_set_def map_add_def)
qed

lemma http_get_range:
  assumes "http_ok w" "0 \<le> off" "off < int (length (served w))" "0 < l" "off + l < 2 ^ 53"
    "tag = None \<or> tag = served_etag w"
  shows "\<exists>r w'. http_get off l tag w = (Inr r, w') \<and> rr_data r = take (nat l) (drop (nat off) (served w))
    \<and> rr_etag r = served_etag w \<and> http_ok w' \<and> served w' = served w \<and> served_etag w' = served_etag w"
proof -
  let ?s = "fetcher w" and ?range = "range_text off (off + l - 1)"
  have p: "fli (fli (off + l) - 1) = off + l - 1" using assms(2,4,5) by simp
  obtain req where req: "map_of (req_headers req) ''range'' = Some ?range"
    and g: "getBytes (net w) off l tag ?s =
      (case perform (net w) req ?s of
           (Inl e, s) \<Rightarrow> (Inl e, s)
         | (Inr resp, s) \<Rightarrow>
             (case retry_416 (net w) off resp s of
                (Inl e, s) \<Rightarrow> (Inl e, s)
              | (Inr resp, s) \<Rightarrow> finish l tag resp s))"
    unfolding getBytes_def p Let_def by (metis map_of_headers_set request.select_convs(2))
  from range_reply_inside[OF assms(2-5), of "served_etag w"] obtain resp where
    resp: "range_reply (served w) (served_etag w) (Some ?range) = resp" "status resp = 206"
      "h_etag resp = served_etag w" "body resp = Inr (take (nat l) (drop (nat off) (served w)))"
    by blast
  have "net w (requests ?s) req = Inr resp"
    using assms(1) req resp(1) by (simp add: http_ok_def serves_def)
  then have per: "perform (net w) req ?s = (Inr resp, ?s\<lparr>requests := requests ?s @ [req]\<rparr>)"
    by (simp add: perform_def)
  have et: "strong_etag resp = served_etag w" "nonempty (served_etag w) = served_etag w"
    using assms(1) resp(3) by (auto simp: strong_etag_def http_ok_def strong_def nonempty_def split: option.splits)
  have "\<not> etag_differs tag (served_etag w)" using assms(6) by (auto simp: etag_differs_def nonempty_def)
  then show ?thesis
    using assms(1) resp
    by (simp add: http_get_def g per retry_416_def finish_def Let_def et http_ok_def)
qed

interpretation http: byte_source http_get served served_etag http_ok
  by unfold_locales (rule http_get_range)

section \<open>What getBytes does on any network\<close>

definition first_request :: "int \<Rightarrow> int \<Rightarrow> fetch_source \<Rightarrow> request" where
  "first_request off l s =
     \<lparr>req_url = url s,
      req_headers = headers_set ''range'' (range_text off (fli (fli (off + l) - 1))) (customHeaders s),
      req_cache = (if mustReload s then Some ''reload''
                   else if chromeWindowsNoCache s then Some ''no-store'' else None)\<rparr>"

lemma getBytes_unfold:
  "getBytes n off l tag s =
     (let s1 = s\<lparr>requests := requests s @ [first_request off l s]\<rparr> in
      case n (requests s) (first_request off l s) of
        Inl e \<Rightarrow> (Inl e, s1)
      | Inr resp \<Rightarrow>
          (case retry_416 n off resp s1 of
             (Inl e, s2) \<Rightarrow> (Inl e, s2)
           | (Inr resp, s2) \<Rightarrow> finish l tag resp s2))"
  by (simp add: getBytes_def first_request_def perform_def Let_def split: sum.split)

lemma retry_416_cases:
  assumes "retry_416 n off resp s = (r, s')"
  shows "(s' = s \<and> (r = Inr resp \<or> r = Inl (Error ''Missing content-length on 416 response'')))
    \<or> (\<exists>cr req. off = 0 \<and> status resp = 416 \<and> h_content_range resp = Some cr \<and> starts_with ''bytes */'' cr
        \<and> req = \<lparr>req_url = url s,
             req_headers = [(''range'', ''bytes=0-'' @ num_string (jsub (to_number (drop 8 cr)) (Fin 1)))],
             req_cache = Some ''reload''\<rparr>
        \<and> r = n (requests s) req \<and> s' = s\<lparr>requests := requests s @ [req]\<rparr>)"
  using assms by (auto simp: retry_416_def perform_def Let_def split: if_splits option.splits)

lemma retry_416_response:
  assumes "retry_416 n off resp s = (Inr resp2, s')" "n h q = Inr resp"
  shows "\<exists>hist req. n hist req = Inr resp2" "mustReload s' = mustReload s"
proof -
  note c = retry_416_cases[OF assms(1)]
  then show "mustReload s' = mustReload s" by auto
  from c consider "Inr resp2 = (Inr resp :: js_error + response)" | req where "Inr resp2 = n (requests s) req"
    by blast
  then show "\<exists>hist req. n hist req = Inr resp2"
  proof cases
    case 1 with assms(2) show ?thesis by (intro exI[of _ h] exI[of _ q]) simp
  next
    case 2 then show ?thesis by (intro exI[of _ "requests s"] exI[of _ req]) simp
  qed
qed

lemma finish_cases:
  assumes "finish l tag resp s = (r, s')"
  shows "(r = Inl Etag_mismatch \<and> s' = s\<lparr>mustReload := True\<rparr>
          \<and> (status resp = 416 \<or> etag_differs tag (strong_etag resp)))
    \<or> (s' = s \<and> status resp \<noteq> 416 \<and> \<not> etag_differs tag (strong_etag resp)
        \<and> (case r of
             Inl e \<Rightarrow> (\<exists>m. e = Error m) \<or> body resp = Inl e
           | Inr rr \<Rightarrow> status resp < 300 \<and> body resp = Inr (rr_data rr) \<and> rr_etag rr = nonempty (strong_etag resp)
               \<and> (status resp = 200 \<longrightarrow> (\<exists>cl. h_content_length resp = Some cl
                    \<and> \<not> jless (Fin (of_int l)) (to_number cl)))))"
  using assms by (auto simp: finish_def Let_def nonempty_def split: if_splits option.splits sum.splits)

text \<open>
  The network of the hypotheses: it fails for reasons of its own, never with the exception of the
  reader.
\<close>

definition net_errors :: "network \<Rightarrow> bool" where
  "net_errors n \<longleftrightarrow> (\<forall>hist req. n hist req \<noteq> Inl Etag_mismatch
     \<and> (\<forall>resp. n hist req = Inr resp \<longrightarrow> body resp \<noteq> Inl Etag_mismatch))"

lemma getBytes_trace:
  assumes "getBytes n off l tag s = (r, s')"
  shows "(requests s' = requests s @ [first_request off l s]
      \<or> (\<exists>req. requests s' = requests s @ [first_request off l s, req] \<and> off = 0
           \<and> map fst (req_headers req) = [''range''] \<and> req_cache req = Some ''reload''))
    \<and> url s' = url s \<and> customHeaders s' = customHeaders s
    \<and> chromeWindowsNoCache s' = chromeWindowsNoCache s
    \<and> (mustReload s' \<longleftrightarrow> mustReload s \<or> (mustReload s' \<and> r = Inl Etag_mismatch))"
proof -
  let ?s1 = "s\<lparr>requests := requests s @ [first_request off l s]\<rparr>"
  show ?thesis
  proof (cases "n (requests s) (first_request off l s)")
    case (Inl e)
    with assms show ?thesis by (auto simp: getBytes_unfold Let_def)
  next
    case (Inr resp)
    obtain r1 s2 where r1: "retry_416 n off resp ?s1 = (r1, s2)" by force
    note c = retry_416_cases[OF r1]
    show ?thesis
    proof (cases r1)
      case (Inl e)
      with assms Inr r1 have "r = Inl e" "s' = s2" by (simp_all add: getBytes_unfold Let_def)
      with c show ?thesis by auto
    next
      case (Inr resp2)
      with assms \<open>n _ _ = Inr resp\<close> r1 have "finish l tag resp2 s2 = (r, s')"
        by (simp add: getBytes_unfold Let_def)
      from finish_cases[OF this] c show ?thesis by auto
    qed
  qed
qed

text \<open>
  The request a result comes from: the first one, for the range that was asked for, or the second one,
  for the length that the 416 response to the first one gave. \<open>hist\<close> are the requests made before it.
\<close>

definition answers_range :: "network \<Rightarrow> int \<Rightarrow> int \<Rightarrow> fetch_source \<Rightarrow> request list \<Rightarrow> request \<Rightarrow> bool" where
  "answers_range n off l s hist req \<longleftrightarrow>
     hist = requests s \<and> req = first_request off l s
     \<or> (\<exists>short cr. off = 0 \<and> hist = requests s @ [first_request off l s]
          \<and> n (requests s) (first_request off l s) = Inr short \<and> status short = 416
          \<and> h_content_range short = Some cr \<and> starts_with ''bytes */'' cr
          \<and> req = \<lparr>req_url = url s,
               req_headers = [(''range'', ''bytes=0-'' @ num_string (jsub (to_number (drop 8 cr)) (Fin 1)))],
               req_cache = Some ''reload''\<rparr>)"

lemma getBytes_result:
  assumes "getBytes n off l tag s = (Inr rr, s')"
  shows "\<exists>hist req resp. requests s' = hist @ [req] \<and> answers_range n off l s hist req
    \<and> n hist req = Inr resp \<and> body resp = Inr (rr_data rr) \<and> status resp < 300
    \<and> \<not> etag_differs tag (strong_etag resp) \<and> rr_etag rr = nonempty (strong_etag resp)
    \<and> (status resp = 200 \<longrightarrow>
        (\<exists>cl. h_content_length resp = Some cl \<and> \<not> jless (Fin (of_int l)) (to_number cl)))"
proof -
  let ?s1 = "s\<lparr>requests := requests s @ [first_request off l s]\<rparr>"
  from assms obtain resp where resp: "n (requests s) (first_request off l s) = Inr resp"
    by (auto simp: getBytes_unfold Let_def split: sum.splits)
  obtain r1 s2 where r1: "retry_416 n off resp ?s1 = (r1, s2)" by force
  from assms resp r1 obtain resp2 where r2: "r1 = Inr resp2" and f: "finish l tag resp2 s2 = (Inr rr, s')"
    by (auto simp: getBytes_unfold Let_def split: sum.splits)
  have "s' = s2" using finish_cases[OF f] by simp
  moreover have "\<exists>hist req. requests s2 = hist @ [req] \<and> answers_range n off l s hist req \<and> n hist req = Inr resp2"
    using retry_416_cases[OF r1]
  proof (elim disjE conjE exE)
    assume "s2 = ?s1" "r1 = Inr resp"
    with resp r2 show ?thesis
      by (intro exI[of _ "requests s"] exI[of _ "first_request off l s"]) (simp add: answers_range_def)
  next
    fix cr req assume "r1 = n (requests ?s1) req" "s2 = ?s1\<lparr>requests := requests ?s1 @ [req]\<rparr>"
      and a: "off = 0" "status resp = 416" "h_content_range resp = Some cr" "starts_with ''bytes */'' cr"
        "req = \<lparr>req_url = url ?s1,
           req_headers = [(''range'', ''bytes=0-'' @ num_string (jsub (to_number (drop 8 cr)) (Fin 1)))],
           req_cache = Some ''reload''\<rparr>"
    moreover have "answers_range n off l s (requests ?s1) req"
      unfolding answers_range_def using a resp by auto
    ultimately show ?thesis
      using r2 by (intro exI[of _ "requests ?s1"] exI[of _ req]) simp
  qed (use r2 in simp)
  ultimately show ?thesis using finish_cases[OF f] by auto
qed

lemma first_request_range:
  assumes "0 \<le> off" "0 < l" "off + l < 2 ^ 53"
  shows "map_of (req_headers (first_request off l s)) ''range'' = Some (range_text off (off + l - 1))"
proof -
  have "fli (off + l) = off + l" "fli (off + l - 1) = off + l - 1" using assms by (simp_all add: fli_exact)
  then show ?thesis by (simp add: first_request_def map_of_headers_set)
qed

section \<open>Properties\<close>

text \<open>
  C23: the bytes \<^verbatim>\<open>getBytes\<close> resolves to are the body of the network's response to the last
  request of the call, which is the request for the range that was asked for, or the second request
  after a 416 response for the length this response gave. Its status is below 300. When the response
  names a version (an entity tag that is neither empty nor weak), that is the version of the result, and
  it is the expected one if one was expected; otherwise the result has no version. A full response
  (status 200) is only taken when it says its length and that is not more than was asked for.
\<close>

theorem fetch_safe:
  assumes "getBytes n off l tag s = (Inr rr, s')"
  shows "\<exists>hist req resp. requests s' = hist @ [req] \<and> answers_range n off l s hist req
    \<and> n hist req = Inr resp \<and> body resp = Inr (rr_data rr) \<and> status resp < 300
    \<and> (\<forall>t. rr_etag rr = Some t \<longleftrightarrow> h_etag resp = Some t \<and> t \<noteq> [] \<and> \<not> starts_with ''W/'' t)
    \<and> (\<forall>t e. h_etag resp = Some t \<and> t \<noteq> [] \<and> \<not> starts_with ''W/'' t \<and> tag = Some e \<and> e \<noteq> [] \<longrightarrow> t = e)
    \<and> (status resp = 200 \<longrightarrow>
        (\<exists>cl. h_content_length resp = Some cl \<and> \<not> jless (Fin (of_int l)) (to_number cl)))
    \<and> (0 \<le> off \<and> 0 < l \<and> off + l < 2 ^ 53 \<and> hist = requests s \<longrightarrow>
        req_url req = url s \<and> map_of (req_headers req) ''range'' = Some (range_text off (off + l - 1)))"
proof -
  from getBytes_result[OF assms] obtain hist req resp where
    r: "requests s' = hist @ [req]" "answers_range n off l s hist req" "n hist req = Inr resp"
      "body resp = Inr (rr_data rr)" "status resp < 300"
      "\<not> etag_differs tag (strong_etag resp)" "rr_etag rr = nonempty (strong_etag resp)"
      "status resp = 200 \<longrightarrow>
        (\<exists>cl. h_content_length resp = Some cl \<and> \<not> jless (Fin (of_int l)) (to_number cl))"
    by blast
  have tag: "nonempty (strong_etag resp) = Some t \<longleftrightarrow> h_etag resp = Some t \<and> t \<noteq> [] \<and> \<not> starts_with ''W/'' t" for t
    by (auto simp: nonempty_def strong_etag_def split: option.splits)
  have 1: "rr_etag rr = Some t \<longleftrightarrow> h_etag resp = Some t \<and> t \<noteq> [] \<and> \<not> starts_with ''W/'' t" for t
    using r(7) tag by simp
  have 2: "t = e" if "h_etag resp = Some t" "t \<noteq> []" "\<not> starts_with ''W/'' t" "tag = Some e" "e \<noteq> []" for t e
    using r(6) that by (simp add: etag_differs_def nonempty_def strong_etag_def)
  have 3: "req_url req = url s \<and> map_of (req_headers req) ''range'' = Some (range_text off (off + l - 1))"
    if "0 \<le> off" "0 < l" "off + l < 2 ^ 53" "hist = requests s"
    using r(2) that(4) first_request_range[OF that(1-3)] by (simp add: answers_range_def first_request_def)
  show ?thesis
    by (intro exI[of _ hist] exI[of _ req] exI[of _ resp] conjI allI impI r 1 2 3; (elim conjE)?; (assumption | rule r(8)[rule_format])?)
qed

definition demo_net :: network where
  "demo_net hist req = Inr (range_reply [1, 2, 3, 4, 5] (Some ''v1'') (map_of (req_headers req) ''range''))"

definition demo_source :: fetch_source where
  "demo_source = new_FetchSource ''https://host/map.pmtiles'' [(''authorization'', ''t'')] None"

lemma demo_result:
  "fst (getBytes demo_net 1 3 (Some ''v1'') demo_source)
    = Inr \<lparr>rr_data = [2, 3, 4], rr_etag = Some ''v1'', rr_cache_control = None, rr_expires = None\<rparr>"
  "getBytes demo_net 1 3 (Some ''v0'') demo_source
    = (Inl Etag_mismatch, snd (getBytes demo_net 1 3 (Some ''v0'') demo_source))"
  "mustReload (snd (getBytes demo_net 1 3 (Some ''v0'') demo_source))"
  by code_simp+

lemma fetch_safe_witness:
  "\<exists>hist req resp. requests (snd (getBytes demo_net 1 3 (Some ''v1'') demo_source)) = hist @ [req]
    \<and> demo_net hist req = Inr resp \<and> body resp = Inr [2, 3, 4] \<and> status resp < 300 \<and> h_etag resp = Some ''v1''"
proof -
  obtain s' where "getBytes demo_net 1 3 (Some ''v1'') demo_source
      = (Inr \<lparr>rr_data = [2, 3, 4], rr_etag = Some ''v1'', rr_cache_control = None, rr_expires = None\<rparr>, s')"
    using demo_result(1) by (metis surjective_pairing)
  from fetch_safe[OF this] this show ?thesis by auto
qed

text \<open>
  C24: a version mismatch is remembered: \<^verbatim>\<open>mustReload\<close> is set exactly by a call that throws
  \<^verbatim>\<open>EtagMismatch\<close>, no call resets it, and every call made while it is set asks the network to
  bypass the HTTP cache.
\<close>

theorem fetch_reload:
  assumes "net_errors n" "getBytes n off l tag s = (r, s')"
  shows "(mustReload s' \<longleftrightarrow> mustReload s \<or> r = Inl Etag_mismatch)
    \<and> (mustReload s \<longrightarrow> (\<exists>reqs. requests s' = requests s @ reqs \<and> reqs \<noteq> []
         \<and> list_all (\<lambda>q. req_cache q = Some ''reload'') reqs))"
proof
  have "mustReload s'" if "r = Inl Etag_mismatch"
  proof -
    let ?s1 = "s\<lparr>requests := requests s @ [first_request off l s]\<rparr>"
    from assms that obtain resp where resp: "n (requests s) (first_request off l s) = Inr resp"
      by (auto simp: getBytes_unfold Let_def net_errors_def split: sum.splits)
    obtain r1 s2 where r1: "retry_416 n off resp ?s1 = (r1, s2)" by force
    have ne: "Inl Etag_mismatch \<noteq> n h q" for h q using assms(1) by (metis net_errors_def)
    have "r1 \<noteq> Inl Etag_mismatch" using retry_416_cases[OF r1] by (auto simp: ne)
    with assms(2) that resp r1 obtain resp2 where r2: "r1 = Inr resp2"
      and f: "finish l tag resp2 s2 = (Inl Etag_mismatch, s')"
      by (auto simp: getBytes_unfold Let_def split: sum.splits)
    have "\<exists>hist req. n hist req = Inr resp2" by (rule retry_416_response(1)[OF r1[unfolded r2] resp])
    then have "body resp2 \<noteq> Inl Etag_mismatch" using assms(1) by (auto simp: net_errors_def)
    with finish_cases[OF f] show ?thesis by auto
  qed
  with getBytes_trace[OF assms(2)] show "mustReload s' \<longleftrightarrow> mustReload s \<or> r = Inl Etag_mismatch"
    by blast
  show "mustReload s \<longrightarrow> (\<exists>reqs. requests s' = requests s @ reqs \<and> reqs \<noteq> []
         \<and> list_all (\<lambda>q. req_cache q = Some ''reload'') reqs)"
    using getBytes_trace[OF assms(2)] by (auto simp: first_request_def)
qed

lemma net_errors_demo: "net_errors demo_net"
  by (auto simp: net_errors_def demo_net_def range_reply_def Let_def split: option.splits prod.splits)

lemma fetch_reload_witness:
  "mustReload (snd (getBytes demo_net 1 3 (Some ''v0'') demo_source)) \<and> \<not> mustReload demo_source"
proof -
  have "\<not> mustReload demo_source" by (simp add: demo_source_def new_FetchSource_def Let_def)
  with fetch_reload[OF net_errors_demo demo_result(2)] show ?thesis by blast
qed

text \<open>
  A call makes one request, or two when the archive turns out to be shorter than a first range
  (offset 0, status 416). The second request carries the range and nothing else: the custom headers,
  an authorization for example, are not sent with it.
\<close>

theorem fetch_requests:
  "let s' = snd (getBytes n off l tag s) in
     requests s' = requests s @ [first_request off l s]
     \<or> (\<exists>req. requests s' = requests s @ [first_request off l s, req] \<and> off = 0
          \<and> map fst (req_headers req) = [''range''] \<and> req_cache req = Some ''reload'')"
proof -
  obtain r s' where g: "getBytes n off l tag s = (r, s')" by force
  from getBytes_trace[OF g] show ?thesis unfolding g by (auto simp: Let_def)
qed

end
