(* ===== verification/Lru_Map.thy ===== *)
theory Lru_Map
  imports Js_Prelude "HOL-Library.AList"
begin

text \<open>
  What the two caches of \<^verbatim>\<open>src/app/static/js/pmtiles.js\<close> share: a \<^verbatim>\<open>Map\<close> from keys to
  slots, which iterates in the order of insertion (\<open>AList.update\<close> replaces a value in place or
  appends, as \<^verbatim>\<open>set\<close> does), a counter that stamps every use of a slot, and the search of the
  slot used least recently. Stamps are unbounded integers: the counter of the code is exact for the
  first \<open>2^53\<close> uses.
\<close>

record 'd slot =
  lastUsed :: int
  data :: 'd

type_synonym 'd slots = "(string \<times> 'd slot) list"

text \<open>The loop of \<^verbatim>\<open>prune\<close>: the first key with the least stamp.\<close>

definition min_step :: "(string \<times> int) option \<Rightarrow> string \<times> 'd slot \<Rightarrow> (string \<times> int) option" where
  "min_step m p = (case m of
     None \<Rightarrow> Some (fst p, lastUsed (snd p))
   | Some (k, u) \<Rightarrow> if lastUsed (snd p) < u then Some (fst p, lastUsed (snd p)) else m)"

definition min_key :: "'d slots \<Rightarrow> string option" where
  "min_key c = map_option fst (foldl min_step None c)"

text \<open>\<^verbatim>\<open>if (minKey) this.cache.delete(minKey)\<close>: the empty key is never deleted.\<close>

definition delete_min :: "'d slots \<Rightarrow> 'd slots" where
  "delete_min c = (case min_key c of
     None \<Rightarrow> c
   | Some k \<Rightarrow> if k = [] then c else AList.delete k c)"

definition keys :: "(string \<times> 'v) list \<Rightarrow> string list" where
  "keys c = map fst c"

text \<open>A cache in order: one slot per key, and stamps that are distinct and below the counter.\<close>

definition stamped :: "int \<Rightarrow> 'd slots \<Rightarrow> bool" where
  "stamped n c \<longleftrightarrow> distinct (keys c) \<and> distinct (map (lastUsed \<circ> snd) c) \<and> (\<forall>p\<in>set c. lastUsed (snd p) < n)"

section \<open>The search of the least stamp\<close>

lemma min_step_Some: "\<exists>k u. min_step m p = Some (k, u)"
  by (cases m) (auto simp: min_step_def)

lemma foldl_min_step:
  "c \<noteq> [] \<or> m \<noteq> None \<Longrightarrow>
    \<exists>k u. foldl min_step m c = Some (k, u)
      \<and> (Some (k, u) = m \<or> (\<exists>s. (k, s) \<in> set c \<and> lastUsed s = u))
      \<and> (\<forall>p\<in>set c. u \<le> lastUsed (snd p)) \<and> (\<forall>k' u'. m = Some (k', u') \<longrightarrow> u \<le> u')"
proof (induction c arbitrary: m)
  case Nil
  then show ?case by (cases m) auto
next
  case (Cons p c)
  obtain k1 u1 where m1: "min_step m p = Some (k1, u1)"
    by (metis (no_types) min_step_Some)
  from Cons.IH[of "min_step m p"] obtain k u where
    f: "foldl min_step (min_step m p) c = Some (k, u)"
    and src: "(k, u) = (k1, u1) \<or> (\<exists>s. (k, s) \<in> set c \<and> lastUsed s = u)"
    and le: "\<forall>p\<in>set c. u \<le> lastUsed (snd p)" and u1: "u \<le> u1"
    by (auto simp: m1)
  have s1: "Some (k1, u1) = m \<or> (k1, u1) = (fst p, lastUsed (snd p))"
    and l1: "u1 \<le> lastUsed (snd p)" "\<forall>k' u'. m = Some (k', u') \<longrightarrow> u1 \<le> u'"
    using m1 by (auto simp: min_step_def split: option.splits if_splits)
  have "Some (k, u) = m \<or> (\<exists>s. (k, s) \<in> set (p # c) \<and> lastUsed s = u)"
    using src s1 by (cases p) auto
  moreover have "\<forall>q\<in>set (p # c). u \<le> lastUsed (snd q)" "\<forall>k' u'. m = Some (k', u') \<longrightarrow> u \<le> u'"
    using le u1 l1 by auto
  ultimately show ?case using f by auto
qed

lemma min_key_Some:
  assumes "c \<noteq> []"
  obtains k s where "min_key c = Some k" "(k, s) \<in> set c" "\<forall>p\<in>set c. lastUsed s \<le> lastUsed (snd p)"
  using foldl_min_step[of c None] assms by (auto simp: min_key_def)

lemma min_key_Nil [simp]: "min_key [] = None"
  by (simp add: min_key_def)

lemma min_key_in: "min_key c = Some k \<Longrightarrow> k \<in> set (keys c)"
  by (cases "c = []") (force elim!: min_key_Some simp: keys_def)+

section \<open>Keys and sizes\<close>

lemma keys_update: "keys (AList.update k v c) = (if k \<in> set (keys c) then keys c else keys c @ [k])"
  by (induction c) (auto simp: keys_def)

lemma keys_delete: "keys (AList.delete k c) = filter (\<lambda>k'. k' \<noteq> k) (keys c)"
  by (induction c) (auto simp: keys_def AList.delete_eq)

lemma map_of_None_keys: "map_of c k = None \<longleftrightarrow> k \<notin> set (keys c)"
  by (simp add: keys_def map_of_eq_None_iff)

lemma length_keys [simp]: "length (keys c) = length c"
  by (simp add: keys_def)

lemma length_update:
  "length (AList.update k v c) = (if k \<in> set (keys c) then length c else Suc (length c))"
  using arg_cong[OF keys_update, of length k v c] by (simp add: length_keys split: if_splits)

lemma length_update_le: "length (AList.update (k :: string) v c) \<le> Suc (length c)"
  by (simp add: length_update)

lemma length_delete:
  assumes "distinct (keys c)" and "k \<in> set (keys c)"
  shows "Suc (length (AList.delete k c)) = length c"
proof -
  have "remove1 k (keys c) = keys (AList.delete k c)"
    unfolding keys_delete using assms(1) by (simp add: distinct_remove1_removeAll removeAll_filter_not_eq neq_commute)
  then have "length (AList.delete k c) = length (keys c) - 1"
    using assms(2) by (metis length_keys length_remove1)
  with assms(2) show ?thesis by (cases c) (auto simp: keys_def)
qed

lemma set_update: "distinct (keys c) \<Longrightarrow> set (AList.update k v c) = {p \<in> set c. fst p \<noteq> k} \<union> {(k, v)}"
  by (induction c) (force simp: keys_def)+

lemma set_delete: "set (AList.delete k c) = {p \<in> set c. fst p \<noteq> k}"
  by (auto simp: AList.delete_eq)

lemma length_delete_min:
  assumes "distinct (keys c)" and "c \<noteq> []" and "[] \<notin> set (keys c)"
  shows "Suc (length (delete_min c)) = length c"
proof -
  obtain k s where m: "min_key c = Some k" "(k, s) \<in> set c"
    using assms(2) by (rule min_key_Some)
  then have k: "k \<in> set (keys c)"
    by (force simp: keys_def)
  with assms have "Suc (length (AList.delete k c)) = length c"
    by (intro length_delete) auto
  moreover have "k \<noteq> []" using assms(3) k by auto
  ultimately show ?thesis by (simp add: delete_min_def m)
qed

lemma keys_delete_min: "set (keys (delete_min c)) \<subseteq> set (keys c)"
  by (auto simp: delete_min_def keys_delete split: option.split)

lemma set_delete_min: "set (delete_min c) \<subseteq> set c"
  by (auto simp: delete_min_def set_delete split: option.split)

lemma length_delete_min_le: "length (delete_min c) \<le> length c"
  by (auto simp: delete_min_def length_delete_le split: option.split)

section \<open>Stamps\<close>

lemma stamped_Nil [simp]: "stamped n []"
  by (simp add: stamped_def keys_def)

lemma stamped_mono: "stamped n c \<Longrightarrow> n \<le> m \<Longrightarrow> stamped m c"
  by (force simp: stamped_def)

lemma map_inj_filter: "distinct (map f xs) \<Longrightarrow> distinct (map f (filter P xs))"
  by (induction xs) auto

lemma stamped_delete: "stamped n c \<Longrightarrow> stamped n (AList.delete k c)"
  unfolding stamped_def by (auto simp: AList.delete_eq keys_def intro: map_inj_filter)

lemma stamped_delete_min: "stamped n c \<Longrightarrow> stamped n (delete_min c)"
  by (auto simp: delete_min_def stamped_delete split: option.split)

lemma stamps_update:
  "(lastUsed \<circ> snd) ` set (AList.update k \<lparr>lastUsed = n, data = d\<rparr> c) \<subseteq> insert n ((lastUsed \<circ> snd) ` set c)"
  by (induction c) auto

lemma stamped_update:
  assumes "stamped n c"
  shows "stamped (n + 1) (AList.update k \<lparr>lastUsed = n, data = d\<rparr> c)"
proof -
  have d: "distinct (keys c)" "distinct (map (lastUsed \<circ> snd) c)" "\<forall>p\<in>set c. lastUsed (snd p) < n"
    using assms by (auto simp: stamped_def)
  have "distinct (map (lastUsed \<circ> snd) (AList.update k \<lparr>lastUsed = n, data = d\<rparr> c))"
    using d(2,3)
  proof (induction c)
    case (Cons p c)
    have "distinct (map (lastUsed \<circ> snd) (AList.update k \<lparr>lastUsed = n, data = d\<rparr> c))"
      by (rule Cons.IH) (use Cons.prems in simp_all)
    moreover have "lastUsed (snd p) \<notin> (lastUsed \<circ> snd) ` set (AList.update k \<lparr>lastUsed = n, data = d\<rparr> c)"
      using Cons.prems stamps_update[of k n d c] by auto
    moreover have "n \<notin> (lastUsed \<circ> snd) ` set c"
      using Cons.prems by auto
    ultimately show ?case using Cons.prems by (cases p) (auto simp: comp_def)
  qed simp
  moreover have "distinct (keys (AList.update k \<lparr>lastUsed = n, data = d\<rparr> c))"
    using d(1) by (simp add: keys_update)
  moreover have "\<forall>p\<in>set (AList.update k \<lparr>lastUsed = n, data = d\<rparr> c). lastUsed (snd p) < n + 1"
    using d(1,3) by (force simp: set_update)
  ultimately show ?thesis by (simp add: stamped_def)
qed

text \<open>With distinct stamps, what is deleted is the one slot used least recently.\<close>

lemma delete_min_lru:
  assumes "stamped n c" and "c \<noteq> []" and "[] \<notin> set (keys c)"
  obtains k s where "(k, s) \<in> set c" "delete_min c = AList.delete k c"
    "\<forall>p\<in>set c. fst p \<noteq> k \<longrightarrow> lastUsed s < lastUsed (snd p)"
proof -
  obtain k s where m: "min_key c = Some k" "(k, s) \<in> set c" "\<forall>p\<in>set c. lastUsed s \<le> lastUsed (snd p)"
    using assms(2) by (rule min_key_Some)
  have "lastUsed s < lastUsed (snd p)" if "p \<in> set c" "fst p \<noteq> k" for p
  proof -
    have "inj_on (lastUsed \<circ> snd) (set c)"
      using assms(1) by (simp add: stamped_def distinct_map)
    with that m(2) have "lastUsed s \<noteq> lastUsed (snd p)"
      by (metis comp_apply fst_conv inj_onD snd_conv)
    with m(3) that show ?thesis by force
  qed
  moreover have "k \<noteq> []" using assms(3) m(2) by (force simp: keys_def)
  ultimately show ?thesis using that m by (simp add: delete_min_def)
qed

section \<open>A cache object\<close>

record 'd lru =
  cache :: "'d slots"
  maxCacheEntries :: int
  counter :: int

text \<open>
  \<^verbatim>\<open>this.cache.get(k)\<close>, and on a hit the new stamp; \<^verbatim>\<open>this.cache.set(k, ...)\<close> with one.
\<close>

definition lru_hit :: "string \<Rightarrow> ('d, 'z) lru_scheme \<Rightarrow> ('d \<times> ('d, 'z) lru_scheme) option" where
  "lru_hit k c = (case map_of (cache c) k of
     None \<Rightarrow> None
   | Some s \<Rightarrow> Some (data s, c\<lparr>cache := AList.update k (s\<lparr>lastUsed := counter c\<rparr>) (cache c),
       counter := counter c + 1\<rparr>))"

definition lru_set :: "string \<Rightarrow> 'd \<Rightarrow> ('d, 'z) lru_scheme \<Rightarrow> ('d, 'z) lru_scheme" where
  "lru_set k d c = c\<lparr>cache := AList.update k \<lparr>lastUsed = counter c, data = d\<rparr> (cache c),
     counter := counter c + 1\<rparr>"

definition lru_delete :: "string \<Rightarrow> ('d, 'z) lru_scheme \<Rightarrow> ('d, 'z) lru_scheme" where
  "lru_delete k c = c\<lparr>cache := AList.delete k (cache c)\<rparr>"

definition lru_ok :: "('d, 'z) lru_scheme \<Rightarrow> bool" where
  "lru_ok c \<longleftrightarrow> stamped (counter c) (cache c) \<and> [] \<notin> set (keys (cache c))"

lemma slot_touch: "s\<lparr>lastUsed := n\<rparr> = \<lparr>lastUsed = n, data = data s\<rparr>"
  by (cases s) simp

lemma lru_hit_Some:
  assumes "lru_hit k c = Some (d, c')"
  obtains s where "map_of (cache c) k = Some s" "d = data s" "c' = lru_set k d c"
  using assms by (auto simp: lru_hit_def lru_set_def slot_touch split: option.splits)

lemma lru_hit_None: "lru_hit k c = None \<longleftrightarrow> k \<notin> set (keys (cache c))"
  by (simp add: lru_hit_def map_of_None_keys[symmetric] split: option.split)

lemma lru_set_ok: "lru_ok c \<Longrightarrow> k \<noteq> [] \<Longrightarrow> lru_ok (lru_set k d c)"
  by (auto simp: lru_ok_def lru_set_def stamped_update keys_update)

lemma lru_delete_ok: "lru_ok c \<Longrightarrow> lru_ok (lru_delete k c)"
  by (auto simp: lru_ok_def lru_delete_def stamped_delete keys_delete)

lemma lru_set_keys: "set (keys (cache (lru_set k d c))) = insert k (set (keys (cache c)))"
  by (auto simp: lru_set_def keys_update)

lemma lru_set_length:
  "length (cache (lru_set k d c)) = (if k \<in> set (keys (cache c)) then length (cache c) else Suc (length (cache c)))"
  by (simp add: lru_set_def length_update)

lemma lru_set_cell: "map_of (cache (lru_set k d c)) = (map_of (cache c))(k \<mapsto> \<lparr>lastUsed = counter c, data = d\<rparr>)"
  by (simp add: lru_set_def update_conv')

lemma lru_hit_keys: "lru_hit k c = Some (d, c') \<Longrightarrow> keys (cache c') = keys (cache c)"
  by (auto simp: lru_hit_def keys_update map_of_None_keys[symmetric] split: option.splits)

lemma lru_hit_length: "lru_hit k c = Some (d, c') \<Longrightarrow> length (cache c') = length (cache c)"
  using lru_hit_keys[of k c d c'] by (metis length_keys)

lemma lru_hit_ok: "lru_ok c \<Longrightarrow> k \<noteq> [] \<Longrightarrow> lru_hit k c = Some (d, c') \<Longrightarrow> lru_ok c'"
  by (erule lru_hit_Some) (simp add: lru_set_ok)

lemma lru_prune_ok: "lru_ok c \<Longrightarrow> lru_ok (c\<lparr>cache := delete_min (cache c)\<rparr>)"
  using keys_delete_min[of "cache c"] by (auto simp: lru_ok_def stamped_delete_min)

lemma lru_prune_length:
  "lru_ok c \<Longrightarrow> cache c \<noteq> [] \<Longrightarrow> Suc (length (delete_min (cache c))) = length (cache c)"
  by (rule length_delete_min) (auto simp: lru_ok_def stamped_def)

lemma map_of_delete_min:
  "map_of (delete_min c) k = Some s \<Longrightarrow> map_of c k = Some s"
  by (auto simp: delete_min_def delete_conv' split: option.splits if_splits)

end
