(* ===== verification/Archive_Env.thy ===== *)
theory Archive_Env
  imports Directory V2_Directory Fetch_Source
begin

text \<open>
  What the caches and the reader of \<^verbatim>\<open>src/app/static/js/pmtiles.js\<close> fetch: the header with the
  root directory, one directory, and the header of a version 1 or 2 archive. Asynchronous code is
  modelled from one suspension to the next; a function here is the run of one such call, which
  threads the state of the source.
\<close>

section \<open>The environment\<close>

text \<open>
  What the code is given: the source (its \<^verbatim>\<open>getBytes\<close> and \<^verbatim>\<open>getKey\<close>), the
  decompressors of the cache and of the \<^verbatim>\<open>PMTiles\<close> object, \<^verbatim>\<open>decompressSync\<close>, and the
  JSON parser behind the UTF-8 decoder of the platform.
\<close>

record 's env =
  e_get :: "int \<Rightarrow> int \<Rightarrow> string option \<Rightarrow> 's \<Rightarrow> (js_error + range_response) \<times> 's"
  e_key :: string
  e_decompress :: "bytes \<Rightarrow> int \<Rightarrow> js_error + bytes"
  e_tile_decompress :: "bytes \<Rightarrow> int \<Rightarrow> js_error + bytes"
  e_inflate :: "bytes \<Rightarrow> js_error + bytes"
  e_json :: "bytes \<Rightarrow> js_error + jsval"

definition bind_st ::
  "(js_error + 'a) \<times> 's \<Rightarrow> ('a \<Rightarrow> 's \<Rightarrow> (js_error + 'b) \<times> 's) \<Rightarrow> (js_error + 'b) \<times> 's" where
  "bind_st m f = (case m of (Inl e, s) \<Rightarrow> (Inl e, s) | (Inr v, s) \<Rightarrow> f v s)"

lemma bind_st_simps [simp]:
  "bind_st (Inl e, s) f = (Inl e, s)"
  "bind_st (Inr v, s) f = f v s"
  by (simp_all add: bind_st_def)

section \<open>Decompression\<close>

text \<open>
  The enumeration \<^verbatim>\<open>Compression\<close> and \<^verbatim>\<open>defaultDecompress\<close>. The platform's
  \<^verbatim>\<open>DecompressionStream\<close> is a parameter (\<open>None\<close> where it does not exist), as is the inflate
  routine \<^verbatim>\<open>decompressSync\<close> it falls back to.
\<close>

datatype compression = Unknown | No_compression | Gzip | Brotli | Zstd

definition compression_code :: "compression \<Rightarrow> int" where
  "compression_code c = (case c of Unknown \<Rightarrow> 0 | No_compression \<Rightarrow> 1 | Gzip \<Rightarrow> 2 | Brotli \<Rightarrow> 3 | Zstd \<Rightarrow> 4)"

definition defaultDecompress ::
  "(bytes \<Rightarrow> js_error + bytes) option \<Rightarrow> (bytes \<Rightarrow> js_error + bytes) \<Rightarrow> bytes \<Rightarrow> int \<Rightarrow> js_error + bytes" where
  "defaultDecompress stream decompressSync buf c =
     (if c = compression_code No_compression \<or> c = compression_code Unknown then Inr buf
      else if c = compression_code Gzip then
        (case stream of None \<Rightarrow> decompressSync buf | Some gunzip \<Rightarrow> gunzip buf)
      else Inl (Error ''Compression method not supported''))"

section \<open>Headers of the versions 1 and 2\<close>

record v2_header =
  v2_specVersion :: int
  v2_rootOffset :: int
  v2_rootLength :: int
  v2_metadataOffset :: int
  v2_metadataLength :: int
  v2_tileCompression :: int
  v2_tileType :: int
  v2_minZoom :: jsnum
  v2_maxZoom :: jsnum
  v2_minLon :: jsnum
  v2_minLat :: jsnum
  v2_maxLon :: jsnum
  v2_maxLat :: jsnum
  v2_centerZoom :: jsnum
  v2_centerLon :: jsnum
  v2_centerLat :: jsnum
  v2_etag :: "string option"

definition js_to_number :: "jsval \<Rightarrow> jsnum" where
  "js_to_number v = (case v of Undef \<Rightarrow> NaN | Null \<Rightarrow> Fin 0 | Bool b \<Rightarrow> Fin (of_bool b) | Num a \<Rightarrow> a
     | Str s \<Rightarrow> to_number s | Arr vs \<Rightarrow> to_number (to_string v) | Obj ps \<Rightarrow> NaN)"

text \<open>A property of a value, the \<^verbatim>\<open>in\<close> operator, and \<^verbatim>\<open>split(',')\<close>.\<close>

definition read_prop :: "jsval \<Rightarrow> string \<Rightarrow> js_error + jsval" where
  "read_prop v k = (if v = Null \<or> v = Undef then Inl Type_error else Inr (get_prop v k))"

definition has_key :: "string \<Rightarrow> jsval \<Rightarrow> js_error + bool" where
  "has_key k v = (case v of Obj ps \<Rightarrow> Inr (k \<in> fst ` set ps) | Arr vs \<Rightarrow> Inr False | _ \<Rightarrow> Inl Type_error)"

fun split_comma :: "string \<Rightarrow> string list" where
  "split_comma [] = [[]]"
| "split_comma (c # s) =
     (if c = CHR '','' then [] # split_comma s
      else (case split_comma s of t # ts \<Rightarrow> (c # t) # ts | [] \<Rightarrow> [[c]]))"

definition split_prop :: "jsval \<Rightarrow> js_error + string list" where
  "split_prop v = (case v of Str s \<Rightarrow> Inr (split_comma s) | _ \<Rightarrow> Inl Type_error)"

definition nth_number :: "string list \<Rightarrow> nat \<Rightarrow> jsnum" where
  "nth_number ss i = (if i < length ss then to_number (ss ! i) else NaN)"

definition zoom_prop :: "jsval \<Rightarrow> string \<Rightarrow> js_error + jsnum" where
  "zoom_prop meta k =
     bind_sum (has_key k meta) (\<lambda>present.
     Inr (if present then js_to_number (get_prop meta k) else Fin 0))"

definition bounds_prop :: "jsval \<Rightarrow> js_error + jsnum \<times> jsnum \<times> jsnum \<times> jsnum" where
  "bounds_prop meta =
     (let v = get_prop meta ''bounds'' in
      if truthy v then
        bind_sum (split_prop v) (\<lambda>ss.
        Inr (nth_number ss 0, nth_number ss 1, nth_number ss 2, nth_number ss 3))
      else Inr (Fin (- 180), Fin (- 85), Fin 180, Fin 85))"

definition center_prop :: "jsval \<Rightarrow> js_error + jsnum \<times> jsnum \<times> jsnum" where
  "center_prop meta =
     (let v = get_prop meta ''center'' in
      if truthy v then
        bind_sum (split_prop v) (\<lambda>ss. Inr (nth_number ss 0, nth_number ss 1, nth_number ss 2))
      else Inr (Fin 0, Fin 0, Fin 0))"

definition parse_v2_header :: "(bytes \<Rightarrow> js_error + jsval) \<Rightarrow> range_response \<Rightarrow> js_error + v2_header" where
  "parse_v2_header json resp =
     (let v = rr_data resp in
      bind_sum (getUint32 v 4) (\<lambda>jsonSize.
      bind_sum (getUint16 v 8) (\<lambda>rootEntries.
      bind_sum (if 10 + jsonSize \<le> int (length v) then json (slice v 10 (10 + jsonSize)) else Inl Range_error)
        (\<lambda>meta.
      bind_sum (read_prop meta ''compression'') (\<lambda>comp.
      let tileCompr = (if comp = Str ''gzip'' then compression_code Gzip else compression_code Unknown) in
      bind_sum (zoom_prop meta ''minzoom'') (\<lambda>minz.
      bind_sum (zoom_prop meta ''maxzoom'') (\<lambda>maxz.
      bind_sum (bounds_prop meta) (\<lambda>(lon0, lat0, lon1, lat1).
      bind_sum (center_prop meta) (\<lambda>(clon, clat, cz).
      bind_sum (getUint16 v 2) (\<lambda>spec.
      Inr \<lparr>v2_specVersion = spec, v2_rootOffset = 10 + jsonSize, v2_rootLength = rootEntries * 17,
        v2_metadataOffset = 10, v2_metadataLength = jsonSize, v2_tileCompression = tileCompr,
        v2_tileType = 1, v2_minZoom = minz, v2_maxZoom = maxz, v2_minLon = lon0, v2_minLat = lat0,
        v2_maxLon = lon1, v2_maxLat = lat1, v2_centerZoom = cz, v2_centerLon = clon,
        v2_centerLat = clat, v2_etag = rr_etag resp\<rparr>))))))))))"

definition v2_getHeader :: "'s env \<Rightarrow> 's \<Rightarrow> (js_error + v2_header) \<times> 's" where
  "v2_getHeader env s =
     bind_st (e_get env 0 512000 None s) (\<lambda>resp s. (parse_v2_header (e_json env) resp, s))"

section \<open>The header and the root directory\<close>

datatype any_header = V3 header | V2 v2_header

definition h_spec :: "any_header \<Rightarrow> int" where
  "h_spec h = (case h of V3 a \<Rightarrow> specVersion a | V2 b \<Rightarrow> v2_specVersion b)"

definition h_rootOffset :: "any_header \<Rightarrow> int" where
  "h_rootOffset h = (case h of V3 a \<Rightarrow> rootDirectoryOffset a | V2 b \<Rightarrow> v2_rootOffset b)"

definition h_rootLength :: "any_header \<Rightarrow> int" where
  "h_rootLength h = (case h of V3 a \<Rightarrow> rootDirectoryLength a | V2 b \<Rightarrow> v2_rootLength b)"

definition h_tag :: "any_header \<Rightarrow> string option" where
  "h_tag h = (case h of V3 a \<Rightarrow> etag a | V2 b \<Rightarrow> v2_etag b)"

definition h_internalCompression :: "any_header \<Rightarrow> int" where
  "h_internalCompression h = (case h of V3 a \<Rightarrow> internalCompression a | V2 b \<Rightarrow> compression_code No_compression)"

text \<open>The key of a directory in a cache.\<close>

definition dir_key :: "string \<Rightarrow> string option \<Rightarrow> int \<Rightarrow> int \<Rightarrow> string" where
  "dir_key key tag off l =
     key @ ''|'' @ (case tag of Some t \<Rightarrow> t | None \<Rightarrow> []) @ ''|'' @ num_text (of_int off) @ ''|''
       @ num_text (of_int l)"

type_synonym root_entry = "string \<times> entry list"

definition parse_root :: "'s env \<Rightarrow> range_response \<Rightarrow> js_error + any_header \<times> root_entry option" where
  "parse_root env resp =
     (let d = rr_data resp in
      bind_sum (bytesToHeader (slice d 0 HEADER_SIZE_BYTES) (rr_etag resp)) (\<lambda>h.
      let rootDirData = slice d (rootDirectoryOffset h) (fli (rootDirectoryOffset h + rootDirectoryLength h));
          dirKey = dir_key (e_key env) (etag h) (rootDirectoryOffset h) (rootDirectoryLength h) in
      bind_sum (e_decompress env rootDirData (internalCompression h)) (\<lambda>raw.
      bind_sum (deserializeIndex raw) (\<lambda>rootDir.
      Inr (V3 h, Some (dirKey, rootDir))))))"

definition getHeaderAndRoot :: "'s env \<Rightarrow> 's \<Rightarrow> (js_error + any_header \<times> root_entry option) \<times> 's" where
  "getHeaderAndRoot env s =
     bind_st (e_get env 0 16384 None s) (\<lambda>resp s.
     let d = rr_data resp in
     bind_st (getUint16 d 0, s) (\<lambda>m s.
     if m \<noteq> 19792 then (Inl (Error ''Wrong magic number for PMTiles archive''), s) else
     bind_st (detectVersion d, s) (\<lambda>v s.
     if v < 3 then bind_st (v2_getHeader env s) (\<lambda>h s. (Inr (V2 h, None), s))
     else (parse_root env resp, s))))"

definition fetch_directory :: "'s env \<Rightarrow> int \<Rightarrow> int \<Rightarrow> any_header \<Rightarrow> 's \<Rightarrow> (js_error + entry list) \<times> 's" where
  "fetch_directory env off l h s =
     bind_st (e_get env off l (h_tag h) s) (\<lambda>resp s.
     bind_st (e_decompress env (rr_data resp) (h_internalCompression h), s) (\<lambda>raw s.
     bind_st (deserializeIndex raw, s) (\<lambda>directory s.
     if length directory = 0 then (Inl (Error ''Empty directory is invalid''), s)
     else (Inr directory, s))))"

definition fetch_buffer :: "'s env \<Rightarrow> int \<Rightarrow> int \<Rightarrow> any_header \<Rightarrow> 's \<Rightarrow> (js_error + bytes) \<times> 's" where
  "fetch_buffer env off l h s =
     bind_st (e_get env off l (h_tag h) s) (\<lambda>resp s. (Inr (rr_data resp), s))"

section \<open>What a cache holds\<close>

datatype cached = C_header any_header | C_dir "entry list" | C_bytes bytes

text \<open>
  A slot read as what the caller expects. The key of a source holds headers only, and the keys of
  ranges hold what was fetched for them; a slot of another kind, which takes two sources with
  colliding keys, is an error of the model.
\<close>

definition as_header :: "cached \<Rightarrow> js_error + any_header" where
  "as_header v = (case v of C_header h \<Rightarrow> Inr h | _ \<Rightarrow> Inl Type_error)"

definition as_dir :: "cached \<Rightarrow> js_error + entry list" where
  "as_dir v = (case v of C_dir es \<Rightarrow> Inr es | _ \<Rightarrow> Inl Type_error)"

definition as_bytes :: "cached \<Rightarrow> js_error + bytes" where
  "as_bytes v = (case v of C_bytes b \<Rightarrow> Inr b | _ \<Rightarrow> Inl Type_error)"

lemma as_simps [simp]:
  "as_header (C_header h) = Inr h" "as_dir (C_dir es) = Inr es" "as_bytes (C_bytes b) = Inr b"
  by (simp_all add: as_header_def as_dir_def as_bytes_def)

text \<open>A computation on the source alone, run beside the cache.\<close>

definition on_source :: "('s \<Rightarrow> 'a \<times> 's) \<Rightarrow> 'c \<times> 's \<Rightarrow> 'a \<times> 'c \<times> 's" where
  "on_source f st = (case st of (c, s) \<Rightarrow> case f s of (r, s') \<Rightarrow> (r, c, s'))"

text \<open>The operations the reader calls on its cache.\<close>

record ('c, 's) cache_ops =
  c_getHeader :: "'s env \<Rightarrow> 'c \<times> 's \<Rightarrow> (js_error + any_header) \<times> 'c \<times> 's"
  c_getDirectory :: "'s env \<Rightarrow> int \<Rightarrow> int \<Rightarrow> any_header \<Rightarrow> 'c \<times> 's \<Rightarrow> (js_error + entry list) \<times> 'c \<times> 's"
  c_getArrayBuffer :: "'s env \<Rightarrow> int \<Rightarrow> int \<Rightarrow> any_header \<Rightarrow> 'c \<times> 's \<Rightarrow> (js_error + bytes) \<times> 'c \<times> 's"
  c_invalidate :: "'s env \<Rightarrow> 'c \<times> 's \<Rightarrow> 'c \<times> 's"

section \<open>An example\<close>

text \<open>An environment for the witnesses: a file of one header and a root directory, uncompressed.\<close>

definition demo_file :: bytes where
  "demo_file = header_bytes (sample_header\<lparr>rootDirectoryOffset := 127, rootDirectoryLength := 5,
     internalCompression := 1, tileCompression := 1, tileDataOffset := 132, minZoom := 0, maxZoom := 0\<rparr>)
     @ [1, 0, 1, 2, 1] @ [7, 9]"

definition demo_disk :: file_source where
  "demo_disk = \<lparr>file_name = ''demo'', content = demo_file\<rparr>"

definition demo_env :: "file_source env" where
  "demo_env = \<lparr>e_get = file_get, e_key = ''demo'', e_decompress = defaultDecompress None (\<lambda>_. Inl Type_error),
     e_tile_decompress = defaultDecompress None (\<lambda>_. Inl Type_error), e_inflate = (\<lambda>_. Inl Type_error),
     e_json = (\<lambda>_. Inr Null)\<rparr>"

lemma demo_root:
  "fst (getHeaderAndRoot demo_env demo_disk)
     = Inr (V3 (sample_header\<lparr>rootDirectoryOffset := 127, rootDirectoryLength := 5,
     internalCompression := 1, tileCompression := 1, tileDataOffset := 132, minZoom := 0, maxZoom := 0\<rparr>),
       Some (''demo||127|5'', [\<lparr>tileId = 0, offset = 0, len = 2, runLength = 1\<rparr>]))"
  by code_simp

end
