(* ===== verification/Resolved_Cache.thy ===== *)
theory Resolved_Cache
  imports Archive_Env Lru_Map
begin

text \<open>
  The class \<^verbatim>\<open>ResolvedValueCache\<close> of \<^verbatim>\<open>src/app/static/js/pmtiles.js\<close>: a cache of values. An
  operation looks its key up, and on a miss fetches the value, stores it and prunes. The state is the
  cache together with the state of the source.
\<close>

type_synonym rcache = "cached lru"

definition new_ResolvedValueCache :: "int \<Rightarrow> rcache" where
  "new_ResolvedValueCache n = \<lparr>cache = [], maxCacheEntries = n, counter = 1\<rparr>"

definition rv_prune :: "rcache \<Rightarrow> rcache" where
  "rv_prune c =
     (if int (length (cache c)) > maxCacheEntries c then c\<lparr>cache := delete_min (cache c)\<rparr> else c)"

definition rv_store_header :: "string \<Rightarrow> any_header \<times> root_entry option \<Rightarrow> rcache \<Rightarrow> rcache" where
  "rv_store_header k res c =
     (let c = (case snd res of Some (dirKey, rootDir) \<Rightarrow> lru_set dirKey (C_dir rootDir) c | None \<Rightarrow> c)
      in rv_prune (lru_set k (C_header (fst res)) c))"

text \<open>
  What the three operations have in common: a hit gives the slot a new stamp; on a miss the value is
  fetched and stored, and nothing is stored when the fetch throws.
\<close>

definition rv_lookup :: "string \<Rightarrow> (cached \<Rightarrow> js_error + 'a) \<Rightarrow> ('s \<Rightarrow> (js_error + 'r) \<times> 's) \<Rightarrow> ('r \<Rightarrow> 'a)
    \<Rightarrow> ('r \<Rightarrow> rcache \<Rightarrow> rcache) \<Rightarrow> rcache \<times> 's \<Rightarrow> (js_error + 'a) \<times> rcache \<times> 's" where
  "rv_lookup cacheKey read fetch result store st =
     (case lru_hit cacheKey (fst st) of
        Some (d, c) \<Rightarrow> (read d, c, snd st)
      | None \<Rightarrow> bind_st (on_source fetch st) (\<lambda>r (c, s). (Inr (result r), store r c, s)))"

definition rv_getHeader :: "'s env \<Rightarrow> rcache \<times> 's \<Rightarrow> (js_error + any_header) \<times> rcache \<times> 's" where
  "rv_getHeader env = rv_lookup (e_key env) as_header (getHeaderAndRoot env) fst (rv_store_header (e_key env))"

definition rv_getDirectory ::
  "'s env \<Rightarrow> int \<Rightarrow> int \<Rightarrow> any_header \<Rightarrow> rcache \<times> 's \<Rightarrow> (js_error + entry list) \<times> rcache \<times> 's" where
  "rv_getDirectory env off l h =
     (let cacheKey = dir_key (e_key env) (h_tag h) off l in
      rv_lookup cacheKey as_dir (fetch_directory env off l h) id
        (\<lambda>directory c. rv_prune (lru_set cacheKey (C_dir directory) c)))"

definition rv_getArrayBuffer ::
  "'s env \<Rightarrow> int \<Rightarrow> int \<Rightarrow> any_header \<Rightarrow> rcache \<times> 's \<Rightarrow> (js_error + bytes) \<times> rcache \<times> 's" where
  "rv_getArrayBuffer env off l h =
     (let cacheKey = dir_key (e_key env) (h_tag h) off l in
      rv_lookup cacheKey as_bytes (fetch_buffer env off l h) id
        (\<lambda>b c. rv_prune (lru_set cacheKey (C_bytes b) c)))"

definition rv_invalidate :: "'s env \<Rightarrow> rcache \<times> 's \<Rightarrow> rcache \<times> 's" where
  "rv_invalidate env st = (lru_delete (e_key env) (fst st), snd st)"

definition resolved_ops :: "(rcache, 's) cache_ops" where
  "resolved_ops = \<lparr>c_getHeader = rv_getHeader, c_getDirectory = rv_getDirectory,
     c_getArrayBuffer = rv_getArrayBuffer, c_invalidate = rv_invalidate\<rparr>"

section \<open>Order and size of the cache\<close>

lemma dir_key_nonempty [simp]: "dir_key k t off l \<noteq> []"
  by (simp add: dir_key_def)

lemma rv_prune_ok: "lru_ok c \<Longrightarrow> lru_ok (rv_prune c)"
  by (simp add: rv_prune_def lru_prune_ok)

lemma rv_prune_length:
  "lru_ok c \<Longrightarrow> 0 \<le> maxCacheEntries c \<Longrightarrow> length (cache (rv_prune c))
     = (if int (length (cache c)) > maxCacheEntries c then length (cache c) - 1 else length (cache c))"
  using lru_prune_length[of c] by (cases "cache c = []") (auto simp: rv_prune_def)

lemma rv_prune_max [simp]: "maxCacheEntries (rv_prune c) = maxCacheEntries c"
  by (simp add: rv_prune_def)

lemma lru_set_max [simp]: "maxCacheEntries (lru_set k d c) = maxCacheEntries c"
  by (simp add: lru_set_def)

lemma lru_hit_max: "lru_hit k c = Some (d, c') \<Longrightarrow> maxCacheEntries c' = maxCacheEntries c"
  by (auto elim!: lru_hit_Some)

lemma rv_store_header_ok: "lru_ok c \<Longrightarrow> k \<noteq> [] \<Longrightarrow> (\<And>dk d. ro = Some (dk, d) \<Longrightarrow> dk \<noteq> [])
    \<Longrightarrow> lru_ok (rv_store_header k (h, ro) c)"
  by (auto simp: rv_store_header_def intro!: rv_prune_ok lru_set_ok split: option.splits prod.splits)

lemma root_key_nonempty: "fst (getHeaderAndRoot env s) = Inr (h, Some (dk, d)) \<Longrightarrow> dk \<noteq> []"
  by (auto simp: getHeaderAndRoot_def bind_st_def parse_root_def bind_sum_def Let_def
      split: prod.splits sum.splits if_splits)

lemma rv_lookup_cases:
  obtains (hit) d c' where "lru_hit k c = Some (d, c')" "rv_lookup k read fetch result store (c, s) = (read d, c', s)"
  | (miss) r s' where "lru_hit k c = None" "fetch s = (Inr r, s')"
      "rv_lookup k read fetch result store (c, s) = (Inr (result r), store r c, s')"
  | (failed) e s' where "lru_hit k c = None" "fetch s = (Inl e, s')"
      "rv_lookup k read fetch result store (c, s) = (Inl e, c, s')"
proof (cases "lru_hit k c")
  case None
  then show thesis
    using miss failed by (cases "fetch s"; cases "fst (fetch s)") (auto simp: rv_lookup_def on_source_def)
next
  case (Some p)
  then show thesis using hit by (cases p) (auto simp: rv_lookup_def)
qed

text \<open>One insertion and the prune after it keep a cache within its limit, and never grow a full one.\<close>

lemma rv_insert_length:
  assumes "lru_ok c" and "0 \<le> maxCacheEntries c" and "k \<noteq> []"
  shows "int (length (cache (rv_prune (lru_set k d c)))) \<le> max (int (length (cache c))) (maxCacheEntries c)"
  using rv_prune_length[of "lru_set k d c"] lru_set_ok[OF assms(1,3), of d] assms(2)
  by (auto simp: lru_set_length)

lemma rv_store_header_length:
  assumes "lru_ok c" and "0 \<le> maxCacheEntries c" and "k \<noteq> []" and "\<And>dk d. ro = Some (dk, d) \<Longrightarrow> dk \<noteq> []"
  shows "int (length (cache (rv_store_header k (h, ro) c)))
    \<le> max (int (length (cache c)) + 1) (maxCacheEntries c)"
proof (cases ro)
  case None
  then show ?thesis using rv_insert_length[OF assms(1-3), of "C_header h"] by (simp add: rv_store_header_def)
next
  case (Some r)
  obtain dk d where r: "r = (dk, d)" by fastforce
  with Some assms(4) have "lru_ok (lru_set dk (C_dir d) c)"
    by (intro lru_set_ok assms(1)) blast
  from rv_insert_length[OF this _ assms(3), of "C_header h"] assms(2) show ?thesis
    by (auto simp: rv_store_header_def Some r lru_set_length split: if_splits)
qed

text \<open>A property of the cache that hits and the stores of a miss keep is kept by a lookup.\<close>

lemma rv_lookup_keeps:
  assumes "Q c" and "\<And>d c'. lru_hit k c = Some (d, c') \<Longrightarrow> Q c'"
    and "\<And>r s'. fetch s = (Inr r, s') \<Longrightarrow> Q (store r c)"
  shows "Q (fst (snd (rv_lookup k read fetch result store (c, s))))"
  using assms by (cases rule: rv_lookup_cases[of k c read fetch result store s]) auto

definition rv_invariant :: "int \<Rightarrow> int \<Rightarrow> rcache \<Rightarrow> bool" where
  "rv_invariant n m c \<longleftrightarrow> lru_ok c \<and> maxCacheEntries c = n \<and> int (length (cache c)) \<le> max n m"

lemma rv_invariant_hit:
  "rv_invariant n m c \<Longrightarrow> k \<noteq> [] \<Longrightarrow> lru_hit k c = Some (d, c') \<Longrightarrow> rv_invariant n m c'"
  using lru_hit_ok[of c k d c'] lru_hit_length[of k c d c'] lru_hit_max[of k c d c'] by (simp add: rv_invariant_def)

lemma rv_invariant_insert:
  "rv_invariant n m c \<Longrightarrow> k \<noteq> [] \<Longrightarrow> 0 \<le> n \<Longrightarrow> rv_invariant n m (rv_prune (lru_set k d c))"
  using rv_insert_length[of c k d] lru_set_ok[of c k d] by (auto simp: rv_invariant_def rv_prune_ok)

lemma rv_store_header_max [simp]: "maxCacheEntries (rv_store_header k r c) = maxCacheEntries c"
  by (auto simp: rv_store_header_def Let_def split: option.split)

lemma rv_getDirectory_full:
  assumes "lru_ok c" and "0 \<le> maxCacheEntries c" and "maxCacheEntries c \<le> int (length (cache c))"
  shows "length (cache c) \<le> length (cache (fst (snd (rv_getDirectory env off l h (c, s)))))"
proof -
  let ?k = "dir_key (e_key env) (h_tag h) off l"
  have "length (cache c) \<le> length (cache (rv_prune (lru_set ?k (C_dir es) c)))" if "lru_hit ?k c = None" for es
    using that assms rv_prune_length[of "lru_set ?k (C_dir es) c"] lru_set_ok[of c ?k "C_dir es"]
    by (auto simp: lru_set_length lru_hit_None)
  then show ?thesis
    by (cases rule: rv_lookup_cases[of ?k c as_dir "fetch_directory env off l h" id
          "\<lambda>d c. rv_prune (lru_set ?k (C_dir d) c)" s])
      (auto simp: rv_getDirectory_def Let_def lru_hit_length)
qed

section \<open>Properties\<close>

text \<open>
  C38: The value cache with a limit of n slots. Reading directories and buffers keeps it in order and
  keeps it at n slots, or at the number it has when that is more. Reading the header may add one slot
  beyond that, because a header miss stores two values and prunes one. Dropping the header never
  adds any. All of it holds whatever the source answers, errors included.
\<close>

theorem rv_bounds:
  assumes "rv_invariant n m c" and "0 \<le> n" and "e_key env \<noteq> []"
  shows "rv_invariant n m (fst (snd (rv_getDirectory env off l h (c, s))))
    \<and> rv_invariant n m (fst (snd (rv_getArrayBuffer env off l h (c, s))))
    \<and> rv_invariant n (max n m + 1) (fst (snd (rv_getHeader env (c, s))))
    \<and> rv_invariant n m (fst (rv_invalidate env (c, s)))"
proof (intro conjI)
  show "rv_invariant n m (fst (snd (rv_getDirectory env off l h (c, s))))"
    and "rv_invariant n m (fst (snd (rv_getArrayBuffer env off l h (c, s))))"
    unfolding rv_getDirectory_def rv_getArrayBuffer_def Let_def
    by (rule rv_lookup_keeps, rule assms(1),
        erule rv_invariant_hit[OF assms(1) dir_key_nonempty],
        rule rv_invariant_insert[OF assms(1) dir_key_nonempty assms(2)])+
  have wide: "rv_invariant n (max n m + 1) c" using assms(1) by (auto simp: rv_invariant_def)
  show "rv_invariant n (max n m + 1) (fst (snd (rv_getHeader env (c, s))))"
    unfolding rv_getHeader_def
  proof (rule rv_lookup_keeps)
    show "rv_invariant n (max n m + 1) c" by (rule wide)
  next
    fix d c' assume "lru_hit (e_key env) c = Some (d, c')"
    then show "rv_invariant n (max n m + 1) c'" by (rule rv_invariant_hit[OF wide assms(3)])
  next
    fix r s' assume "getHeaderAndRoot env s = (Inr r, s')"
    then have "\<And>dk d. snd r = Some (dk, d) \<Longrightarrow> dk \<noteq> []"
      using root_key_nonempty[of env s "fst r"] by (cases r) force
    then show "rv_invariant n (max n m + 1) (rv_store_header (e_key env) r c)"
      using assms rv_store_header_length[of c "e_key env" "snd r" "fst r"]
        rv_store_header_ok[of c "e_key env" "snd r" "fst r"]
      by (auto simp: rv_invariant_def split: if_splits)
  qed
  show "rv_invariant n m (fst (rv_invalidate env (c, s)))"
    using assms lru_delete_ok[of c "e_key env"] length_delete_le[of "e_key env" "cache c"]
    by (auto simp: rv_invariant_def rv_invalidate_def lru_delete_def)
qed

lemma rv_bounds_witness:
  "rv_invariant 3 0 (fst (snd (rv_getDirectory demo_env 127 5 (V3 sample_header)
     (new_ResolvedValueCache 3, demo_disk))))"
proof -
  have "rv_invariant 3 0 (new_ResolvedValueCache 3)"
    by (simp add: rv_invariant_def new_ResolvedValueCache_def lru_ok_def keys_def)
  moreover have "e_key demo_env \<noteq> []" by (simp add: demo_env_def)
  ultimately show ?thesis by (intro rv_bounds[THEN conjunct1]) simp_all
qed

text \<open>
  The limit of the value cache is no bound on its size. When the header of an archive is read
  that is not in the cache, and neither is its root directory, a full cache grows by one slot, and
  it stays that size: no later prune takes it back below.
\<close>

theorem rv_header_grows:
  assumes "lru_ok c" and "0 \<le> maxCacheEntries c" and "maxCacheEntries c \<le> int (length (cache c))"
    and "e_key env \<notin> set (keys (cache c))" and "e_key env \<noteq> []" and "e_key env \<noteq> dirKey"
    and "dirKey \<notin> set (keys (cache c))"
    and "fst (getHeaderAndRoot env s) = Inr (h, Some (dirKey, rootDir))"
  shows "let c' = fst (snd (rv_getHeader env (c, s))) in
    length (cache c') = length (cache c) + 1
    \<and> length (cache c') \<le> length (cache (fst (snd (rv_getDirectory env' off l h' (c', s')))))"
proof -
  have k: "dirKey \<noteq> []" using assms(8) by (rule root_key_nonempty)
  have miss: "lru_hit (e_key env) c = None" using assms(4) by (simp add: lru_hit_None)
  define c2 where "c2 = lru_set (e_key env) (C_header h) (lru_set dirKey (C_dir rootDir) c)"
  have ok: "lru_ok c2" and m: "maxCacheEntries c2 = maxCacheEntries c" and l: "length (cache c2) = length (cache c) + 2"
    using assms(1,4-7) k by (simp_all add: c2_def lru_set_ok lru_set_length lru_set_keys)
  then have n: "length (cache (rv_prune c2)) = length (cache c) + 1"
    using assms(2,3) by (simp add: rv_prune_length)
  have c': "fst (snd (rv_getHeader env (c, s))) = rv_prune c2"
    using miss assms(8)
    by (cases rule: rv_lookup_cases[of "e_key env" c as_header "getHeaderAndRoot env" fst "rv_store_header (e_key env)" s])
      (auto simp: rv_getHeader_def rv_store_header_def c2_def)
  have "length (cache (rv_prune c2)) \<le> length (cache (fst (snd (rv_getDirectory env' off l h' (rv_prune c2, s')))))"
    by (rule rv_getDirectory_full) (use ok m n assms(2,3) in \<open>simp_all add: rv_prune_ok\<close>)
  then show ?thesis by (simp add: c' n Let_def)
qed

lemma rv_header_grows_witness:
  "length (cache (fst (snd (rv_getHeader demo_env
     (\<lparr>cache = [(''a'', \<lparr>lastUsed = 1, data = C_dir []\<rparr>)], maxCacheEntries = 1, counter = 2\<rparr>,
      demo_disk))))) = 2"
proof -
  let ?c = "\<lparr>cache = [(''a'', \<lparr>lastUsed = 1, data = C_dir []\<rparr>)], maxCacheEntries = 1, counter = 2\<rparr>"
  have "lru_ok ?c" "e_key demo_env = ''demo''"
    by (simp_all add: lru_ok_def stamped_def keys_def demo_env_def)
  then show ?thesis
    using rv_header_grows[OF _ _ _ _ _ _ _ demo_root, where c = ?c and env' = demo_env and off = 0 and l = 0
        and h' = "V3 sample_header" and s' = "\<lparr>file_name = [], content = []\<rparr>"]
    by (simp add: keys_def Let_def)
qed

end
