(* ===== verification/Promise_Cache.thy ===== *)
theory Promise_Cache
  imports Archive_Env Lru_Map
begin

text \<open>
  The class \<^verbatim>\<open>SharedPromiseCache\<close> of \<^verbatim>\<open>src/app/static/js/pmtiles.js\<close>, the cache a
  \<^verbatim>\<open>PMTiles\<close> object has by default. It stores promises, so that callers asking for a key that is
  being fetched share one fetch. A promise is an index into the list of all promises ever made; a
  pending one carries the fetch it waits for. An operation runs in two parts, as the event loop runs
  it: the synchronous part up to the first suspension (\<open>pc_request\<close>, \<open>pc_invalidate\<close>) and the
  callbacks when a fetch ends (\<open>pc_settle\<close>).
\<close>

section \<open>The code\<close>

datatype task = T_header | T_dir int int any_header | T_buffer int int any_header

datatype promise = Pending task | Fulfilled cached | Rejected js_error

text \<open>
  \<^verbatim>\<open>invalidations\<close> maps the key of a source to the header promise its invalidation waits for:
  the two promises settle together.
\<close>

record pcache = "nat lru" +
  promises :: "promise list"
  invalidations :: "(string \<times> nat) list"

definition new_SharedPromiseCache :: "int \<Rightarrow> pcache" where
  "new_SharedPromiseCache n =
     \<lparr>cache = [], maxCacheEntries = n, counter = 1, promises = [], invalidations = []\<rparr>"

definition pc_prune :: "pcache \<Rightarrow> pcache" where
  "pc_prune c =
     (if int (length (cache c)) \<ge> maxCacheEntries c then c\<lparr>cache := delete_min (cache c)\<rparr> else c)"

text \<open>
  The synchronous part of \<^verbatim>\<open>getHeader\<close>, \<^verbatim>\<open>getDirectory\<close> and \<^verbatim>\<open>getArrayBuffer\<close>: the
  promise under the key, with a new stamp, or a new one that starts the fetch.
\<close>

definition new_promise :: "promise \<Rightarrow> pcache \<Rightarrow> pcache" where
  "new_promise p c = c\<lparr>promises := promises c @ [p]\<rparr>"

definition pc_request :: "string \<Rightarrow> task \<Rightarrow> pcache \<Rightarrow> nat \<times> pcache" where
  "pc_request cacheKey t c =
     (case lru_hit cacheKey c of
        Some (p, c') \<Rightarrow> (p, c')
      | None \<Rightarrow> (length (promises c), lru_set cacheKey (length (promises c)) (new_promise (Pending t) c)))"

text \<open>
  The synchronous part of \<^verbatim>\<open>invalidate\<close>. With an invalidation on its way (or one that failed,
  which is never removed) it only waits for that one.
\<close>

definition pc_invalidate :: "string \<Rightarrow> pcache \<Rightarrow> pcache" where
  "pc_invalidate key c =
     (case map_of (invalidations c) key of
        Some p \<Rightarrow> c
      | None \<Rightarrow>
          (case pc_request key T_header (lru_delete key c) of (p, c') \<Rightarrow>
             c'\<lparr>invalidations := AList.update key p (invalidations c')\<rparr>))"

text \<open>The end of a fetch: what the callbacks of the promise \<open>p\<close> do with the outcome.\<close>

datatype outcome = O_header any_header "root_entry option" | O_dir "entry list" | O_buffer bytes

fun outcome_value :: "outcome \<Rightarrow> cached" where
  "outcome_value (O_header h ro) = C_header h"
| "outcome_value (O_dir es) = C_dir es"
| "outcome_value (O_buffer b) = C_bytes b"

definition pc_store_root :: "outcome \<Rightarrow> pcache \<Rightarrow> pcache" where
  "pc_store_root out c =
     (case out of
        O_header h (Some (dirKey, rootDir)) \<Rightarrow>
          lru_set dirKey (length (promises c)) (new_promise (Fulfilled (C_dir rootDir)) c)
      | _ \<Rightarrow> c)"

definition resolve :: "nat \<Rightarrow> promise \<Rightarrow> pcache \<Rightarrow> pcache" where
  "resolve p r c = c\<lparr>promises := (promises c)[p := r]\<rparr>"

definition end_invalidation :: "nat \<Rightarrow> pcache \<Rightarrow> pcache" where
  "end_invalidation p c = c\<lparr>invalidations := filter (\<lambda>(k, q). q \<noteq> p) (invalidations c)\<rparr>"

definition pc_settle :: "nat \<Rightarrow> js_error + outcome \<Rightarrow> pcache \<Rightarrow> pcache" where
  "pc_settle p res c =
     (case res of
        Inr out \<Rightarrow>
          end_invalidation p (pc_prune (resolve p (Fulfilled (outcome_value out)) (pc_store_root out c)))
      | Inl e \<Rightarrow> resolve p (Rejected e) c)"

section \<open>A caller alone\<close>

text \<open>
  What a caller sees that is the only one: a fetch it waits for runs and settles. The state is the
  cache with the state of the source.
\<close>

definition run_task :: "'s env \<Rightarrow> task \<Rightarrow> 's \<Rightarrow> (js_error + outcome) \<times> 's" where
  "run_task env t s =
     (case t of
        T_header \<Rightarrow> bind_st (getHeaderAndRoot env s) (\<lambda>(h, ro) s. (Inr (O_header h ro), s))
      | T_dir off l h \<Rightarrow> bind_st (fetch_directory env off l h s) (\<lambda>es s. (Inr (O_dir es), s))
      | T_buffer off l h \<Rightarrow> bind_st (fetch_buffer env off l h s) (\<lambda>b s. (Inr (O_buffer b), s)))"

definition pc_await :: "'s env \<Rightarrow> nat \<Rightarrow> pcache \<times> 's \<Rightarrow> (js_error + cached) \<times> pcache \<times> 's" where
  "pc_await env p st =
     (case promises (fst st) ! p of
        Fulfilled v \<Rightarrow> (Inr v, st)
      | Rejected e \<Rightarrow> (Inl e, st)
      | Pending t \<Rightarrow>
          (case run_task env t (snd st) of (res, s) \<Rightarrow>
             (map_sum id outcome_value res, pc_settle p res (fst st), s)))"

definition pc_get :: "'s env \<Rightarrow> string \<Rightarrow> task \<Rightarrow> (cached \<Rightarrow> js_error + 'a) \<Rightarrow> pcache \<times> 's
    \<Rightarrow> (js_error + 'a) \<times> pcache \<times> 's" where
  "pc_get env cacheKey t read st =
     (case pc_request cacheKey t (fst st) of (p, c) \<Rightarrow>
        bind_st (pc_await env p (c, snd st)) (\<lambda>v st. (read v, st)))"

definition pc_getHeader :: "'s env \<Rightarrow> pcache \<times> 's \<Rightarrow> (js_error + any_header) \<times> pcache \<times> 's" where
  "pc_getHeader env = pc_get env (e_key env) T_header as_header"

definition pc_getDirectory ::
  "'s env \<Rightarrow> int \<Rightarrow> int \<Rightarrow> any_header \<Rightarrow> pcache \<times> 's \<Rightarrow> (js_error + entry list) \<times> pcache \<times> 's" where
  "pc_getDirectory env off l h = pc_get env (dir_key (e_key env) (h_tag h) off l) (T_dir off l h) as_dir"

definition pc_getArrayBuffer ::
  "'s env \<Rightarrow> int \<Rightarrow> int \<Rightarrow> any_header \<Rightarrow> pcache \<times> 's \<Rightarrow> (js_error + bytes) \<times> pcache \<times> 's" where
  "pc_getArrayBuffer env off l h = pc_get env (dir_key (e_key env) (h_tag h) off l) (T_buffer off l h) as_bytes"

definition promise_ops :: "(pcache, 's) cache_ops" where
  "promise_ops = \<lparr>c_getHeader = pc_getHeader, c_getDirectory = pc_getDirectory,
     c_getArrayBuffer = pc_getArrayBuffer,
     c_invalidate = (\<lambda>env (c, s). (pc_invalidate (e_key env) c, s))\<rparr>"

section \<open>Many callers\<close>

text \<open>
  One step of the event loop on the cache: a caller asks for a key, a caller invalidates a source, or
  the fetch of a pending promise ends with any outcome of its kind.
\<close>

fun fits :: "task \<Rightarrow> js_error + outcome \<Rightarrow> bool" where
  "fits t (Inl e) = True"
| "fits T_header (Inr (O_header h ro)) = (case ro of Some (dirKey, _) \<Rightarrow> dirKey \<noteq> [] | None \<Rightarrow> True)"
| "fits (T_dir off l h) (Inr (O_dir es)) = True"
| "fits (T_buffer off l h) (Inr (O_buffer b)) = True"
| "fits _ _ = False"

inductive pc_step :: "pcache \<Rightarrow> pcache \<Rightarrow> bool" where
  request: "k \<noteq> [] \<Longrightarrow> pc_step c (snd (pc_request k t c))"
| invalidate: "k \<noteq> [] \<Longrightarrow> pc_step c (pc_invalidate k c)"
| settle: "p < length (promises c) \<Longrightarrow> promises c ! p = Pending t \<Longrightarrow> fits t res \<Longrightarrow> pc_step c (pc_settle p res c)"

inductive pc_reachable :: "int \<Rightarrow> pcache \<Rightarrow> bool" for n where
  initial: "pc_reachable n (new_SharedPromiseCache n)"
| next_step: "pc_reachable n c \<Longrightarrow> pc_step c c' \<Longrightarrow> pc_reachable n c'"

inductive_cases pc_stepE: "pc_step c c'"

definition is_pending :: "promise \<Rightarrow> bool" where
  "is_pending r = (case r of Pending t \<Rightarrow> True | _ \<Rightarrow> False)"

definition pending :: "pcache \<Rightarrow> nat" where
  "pending c = length (filter is_pending (promises c))"

definition is_failed :: "promise \<Rightarrow> bool" where
  "is_failed r = (case r of Rejected e \<Rightarrow> True | _ \<Rightarrow> False)"

definition is_header :: "promise \<Rightarrow> bool" where
  "is_header r = (case r of Fulfilled (C_header h) \<Rightarrow> True | _ \<Rightarrow> False)"

definition failed :: "pcache \<Rightarrow> nat" where
  "failed c = length (filter is_failed (promises c))"

definition headers_read :: "pcache \<Rightarrow> nat" where
  "headers_read c = length (filter is_header (promises c))"

lemma kind_simps [simp]:
  "is_pending (Pending t)" "\<not> is_pending (Fulfilled v)" "\<not> is_pending (Rejected e)"
  "is_failed (Rejected e)" "\<not> is_failed (Pending t)" "\<not> is_failed (Fulfilled v)"
  "is_header (Fulfilled (C_header h))" "\<not> is_header (Fulfilled (C_dir d))" "\<not> is_header (Fulfilled (C_bytes b))"
  "\<not> is_header (Pending t)" "\<not> is_header (Rejected e)"
  by (simp_all add: is_pending_def is_failed_def is_header_def)

section \<open>What each operation does to the parts of the state\<close>

lemma prune_simps [simp]:
  "promises (pc_prune c) = promises c" "invalidations (pc_prune c) = invalidations c"
  "maxCacheEntries (pc_prune c) = maxCacheEntries c"
  by (simp_all add: pc_prune_def)

lemma lru_set_simps [simp]:
  "promises (lru_set k d c) = promises c" "invalidations (lru_set k d c) = invalidations c"
  "maxCacheEntries (lru_set k d c) = maxCacheEntries c"
  by (simp_all add: lru_set_def)

lemma lru_delete_simps [simp]:
  "promises (lru_delete k c) = promises c" "invalidations (lru_delete k c) = invalidations c"
  "maxCacheEntries (lru_delete k c) = maxCacheEntries c"
  by (simp_all add: lru_delete_def)

lemma new_promise_simps [simp]:
  "promises (new_promise r c) = promises c @ [r]" "invalidations (new_promise r c) = invalidations c"
  "cache (new_promise r c) = cache c" "maxCacheEntries (new_promise r c) = maxCacheEntries c"
  "lru_ok (new_promise r c) = lru_ok c"
  by (simp_all add: new_promise_def lru_ok_def)

lemma resolve_simps [simp]:
  "promises (resolve p r c) = (promises c)[p := r]" "invalidations (resolve p r c) = invalidations c"
  "cache (resolve p r c) = cache c" "maxCacheEntries (resolve p r c) = maxCacheEntries c"
  "lru_ok (resolve p r c) = lru_ok c"
  by (simp_all add: resolve_def lru_ok_def)

lemma end_invalidation_simps [simp]:
  "promises (end_invalidation p c) = promises c" "cache (end_invalidation p c) = cache c"
  "maxCacheEntries (end_invalidation p c) = maxCacheEntries c" "lru_ok (end_invalidation p c) = lru_ok c"
  by (simp_all add: end_invalidation_def lru_ok_def)

lemma pc_request_cases:
  obtains (shared) p s where "map_of (cache c) k = Some s" "p = data s" "pc_request k t c = (p, lru_set k p c)"
  | (fresh) "map_of (cache c) k = None"
      "pc_request k t c = (length (promises c), lru_set k (length (promises c)) (new_promise (Pending t) c))"
proof (cases "lru_hit k c")
  case None
  then have "map_of (cache c) k = None" by (simp add: lru_hit_None map_of_None_keys)
  with None show thesis using fresh by (simp add: pc_request_def)
next
  case (Some q)
  then obtain d c' where q: "lru_hit k c = Some (d, c')" by (cases q) simp
  then show thesis by (rule lru_hit_Some) (use shared q in \<open>simp add: pc_request_def\<close>)
qed

lemma pc_store_root_cases:
  obtains (nothing) "pc_store_root out c = c"
  | (root_dir) h dk rd where "out = O_header h (Some (dk, rd))"
      "pc_store_root out c = lru_set dk (length (promises c)) (new_promise (Fulfilled (C_dir rd)) c)"
proof (cases out)
  case (O_header h ro)
  show thesis
  proof (cases ro)
    case None
    show thesis by (rule nothing) (simp add: pc_store_root_def O_header None)
  next
    case (Some r)
    with O_header root_dir show thesis by (cases r) (simp add: pc_store_root_def)
  qed
qed (use nothing in \<open>simp_all add: pc_store_root_def\<close>)

section \<open>The invariant\<close>

definition slots_valid :: "pcache \<Rightarrow> bool" where
  "slots_valid c \<longleftrightarrow> (\<forall>q\<in>set (cache c). data (snd q) < length (promises c))"

definition waiting_or_failed :: "promise \<Rightarrow> bool" where
  "waiting_or_failed r = (case r of Pending t \<Rightarrow> t = T_header | Rejected e \<Rightarrow> True | Fulfilled v \<Rightarrow> False)"

definition invalidations_valid :: "pcache \<Rightarrow> bool" where
  "invalidations_valid c \<longleftrightarrow>
     (\<forall>q\<in>set (invalidations c). snd q < length (promises c) \<and> waiting_or_failed (promises c ! snd q))"

definition size_bounded :: "pcache \<Rightarrow> bool" where
  "size_bounded c \<longleftrightarrow> int (length (cache c)) < maxCacheEntries c + int (pending c + failed c + headers_read c)"

definition pc_inv :: "int \<Rightarrow> pcache \<Rightarrow> bool" where
  "pc_inv n c \<longleftrightarrow> lru_ok c \<and> maxCacheEntries c = n \<and> slots_valid c \<and> invalidations_valid c \<and> size_bounded c"

lemma count_update:
  "p < length xs \<Longrightarrow> length (filter P (xs[p := r])) + of_bool (P (xs ! p)) = length (filter P xs) + of_bool (P r)"
proof (induction xs arbitrary: p)
  case (Cons x xs)
  show ?case
  proof (cases p)
    case (Suc q)
    with Cons.IH[of q] Cons.prems show ?thesis by simp
  qed simp
qed simp

lemma count_append: "length (filter P (xs @ [r])) = length (filter P xs) + of_bool (P r)"
  by simp

lemmas counts = pending_def failed_def headers_read_def count_append

lemma set_update_subset: "set (AList.update k v c) \<subseteq> insert (k, v) (set c)"
  by (induction c) auto

lemma slots_valid_set: "slots_valid c \<Longrightarrow> p < length (promises c) \<Longrightarrow> slots_valid (lru_set k p c)"
  using set_update_subset[of k _ "cache c"] by (fastforce simp: slots_valid_def lru_set_def)

lemma slots_valid_new: "slots_valid c \<Longrightarrow> slots_valid (new_promise r c)"
  by (auto simp: slots_valid_def less_Suc_eq)

lemma map_of_slot: "slots_valid c \<Longrightarrow> map_of (cache c) k = Some s \<Longrightarrow> data s < length (promises c)"
  unfolding slots_valid_def by (drule map_of_SomeD) force

lemma invalidations_valid_new: "invalidations_valid c \<Longrightarrow> invalidations_valid (lru_set k q (new_promise r c))"
  by (auto simp: invalidations_valid_def nth_append)

lemma pc_inv_request:
  assumes "pc_inv n c" and "k \<noteq> []"
  shows "pc_inv n (snd (pc_request k t c))"
proof (cases rule: pc_request_cases[of c k t])
  case (shared p s)
  have "k \<in> set (keys (cache c))" using shared(1) by (metis map_of_None_keys option.distinct(1))
  with shared assms map_of_slot[of c k s] show ?thesis
    by (auto simp: pc_inv_def lru_set_ok slots_valid_set invalidations_valid_def size_bounded_def counts lru_set_length)
next
  case fresh
  have "k \<notin> set (keys (cache c))" using fresh(1) by (simp add: map_of_None_keys)
  with fresh assms show ?thesis
    by (auto simp: pc_inv_def lru_set_ok slots_valid_set slots_valid_new invalidations_valid_new
        size_bounded_def counts lru_set_length)
qed

lemma pc_inv_delete: "pc_inv n c \<Longrightarrow> pc_inv n (lru_delete k c)"
  using length_delete_le[of k "cache c"]
  by (auto simp: pc_inv_def lru_delete_ok size_bounded_def counts slots_valid_def invalidations_valid_def)
    (auto simp: lru_delete_def set_delete)


lemma pc_inv_invalidate:
  assumes "pc_inv n c" and "k \<noteq> []"
  shows "pc_inv n (pc_invalidate k c)"
proof (cases "map_of (invalidations c) k")
  case None
  have i: "pc_inv n (snd (pc_request k T_header (lru_delete k c)))"
    using pc_inv_delete[OF assms(1)] assms(2) by (rule pc_inv_request)
  have "map_of (cache (lru_delete k c)) k = None"
    by (simp add: lru_delete_def delete_conv')
  then have r: "pc_request k T_header (lru_delete k c)
      = (length (promises c), lru_set k (length (promises c)) (new_promise (Pending T_header) (lru_delete k c)))"
    by (cases rule: pc_request_cases[of "lru_delete k c" k T_header]) simp_all
  let ?c = "lru_set k (length (promises c)) (new_promise (Pending T_header) (lru_delete k c))"
  from i r have i: "pc_inv n ?c" by simp
  have "set (AList.update k (length (promises c)) (invalidations c))
      \<subseteq> insert (k, length (promises c)) (set (invalidations c))"
    by (rule set_update_subset)
  then have "invalidations_valid (?c\<lparr>invalidations := AList.update k (length (promises c)) (invalidations c)\<rparr>)"
    using i by (auto simp: pc_inv_def invalidations_valid_def dest!: subsetD) (simp add: waiting_or_failed_def)
  with i show ?thesis
    by (simp add: pc_invalidate_def None r pc_inv_def slots_valid_def size_bounded_def counts lru_ok_def)
qed (use assms in \<open>simp add: pc_invalidate_def\<close>)

lemma pc_prune_ok: "lru_ok c \<Longrightarrow> lru_ok (pc_prune c)"
  by (simp add: pc_prune_def lru_prune_ok)

lemma pc_prune_length:
  assumes "lru_ok c" and "1 \<le> maxCacheEntries c"
  shows "length (cache (pc_prune c))
    = (if int (length (cache c)) \<ge> maxCacheEntries c then length (cache c) - 1 else length (cache c))"
  using assms lru_prune_length[of c] by (cases "cache c = []") (auto simp: pc_prune_def)

lemma slots_valid_prune: "slots_valid c \<Longrightarrow> slots_valid (pc_prune c)"
  using set_delete_min[of "cache c"] by (auto simp: slots_valid_def pc_prune_def)

text \<open>The root directory that comes with a header.\<close>

lemma store_root_facts:
  assumes "lru_ok c" and "slots_valid c" and "fits t (Inr out)"
  shows "lru_ok (pc_store_root out c)" and "slots_valid (pc_store_root out c)"
    and "\<exists>rs. promises (pc_store_root out c) = promises c @ rs \<and> (\<forall>r\<in>set rs. \<exists>d. r = Fulfilled (C_dir d))"
    and "length (cache (pc_store_root out c)) \<le> length (cache c) + of_bool (t = T_header)"
    and "invalidations (pc_store_root out c) = invalidations c"
    and "maxCacheEntries (pc_store_root out c) = maxCacheEntries c"
proof -
  consider "pc_store_root out c = c" | h dk rd where "t = T_header" "dk \<noteq> []"
      "pc_store_root out c = lru_set dk (length (promises c)) (new_promise (Fulfilled (C_dir rd)) c)"
    using assms(3) by (cases rule: pc_store_root_cases[of out c]; cases t) auto
  note c = this
  show "lru_ok (pc_store_root out c)" and "slots_valid (pc_store_root out c)"
    and "\<exists>rs. promises (pc_store_root out c) = promises c @ rs \<and> (\<forall>r\<in>set rs. \<exists>d. r = Fulfilled (C_dir d))"
    and "length (cache (pc_store_root out c)) \<le> length (cache c) + of_bool (t = T_header)"
    and "invalidations (pc_store_root out c) = invalidations c"
    and "maxCacheEntries (pc_store_root out c) = maxCacheEntries c"
    using c assms(1,2) by (cases; auto simp: lru_set_ok slots_valid_set slots_valid_new lru_set_length)+
qed

lemma count_appended: "\<forall>r\<in>set rs. \<not> P r \<Longrightarrow> length (filter P (xs @ rs)) = length (filter P xs)"
  by (induction rs) simp_all

lemma resolve_counts:
  assumes "p < length (promises c)" and "promises c ! p = Pending t"
  shows "pending (resolve p r c) + 1 = pending c + of_bool (is_pending r)"
    and "failed (resolve p r c) = failed c + of_bool (is_failed r)"
    and "headers_read (resolve p r c) = headers_read c + of_bool (is_header r)"
  using assms(2) count_update[OF assms(1), of is_pending r] count_update[OF assms(1), of is_failed r]
    count_update[OF assms(1), of is_header r]
  by (simp_all add: counts)

text \<open>Each settled fetch takes one from the pending promises, and adds at most one slot.\<close>

lemma pc_inv_settle:
  assumes inv: "pc_inv n c" and n: "1 \<le> n" and p: "p < length (promises c)" "promises c ! p = Pending t"
    and f: "fits t res"
  shows "pc_inv n (pc_settle p res c)"
proof (cases res)
  case (Inl e)
  have "invalidations_valid (resolve p (Rejected e) c)"
    using inv p by (auto simp: pc_inv_def invalidations_valid_def nth_list_update waiting_or_failed_def)
  with inv resolve_counts[OF p, of "Rejected e"] show ?thesis
    by (simp add: pc_settle_def Inl pc_inv_def size_bounded_def slots_valid_def)
next
  case (Inr out)
  define c1 where "c1 = pc_store_root out c"
  define c2 where "c2 = resolve p (Fulfilled (outcome_value out)) c1"
  have i: "lru_ok c" "maxCacheEntries c = n" "slots_valid c" "invalidations_valid c" "size_bounded c"
    using inv by (simp_all add: pc_inv_def)
  note c1 = store_root_facts[OF i(1,3) f[unfolded Inr], folded c1_def]
  obtain rs where rs: "promises c1 = promises c @ rs" "\<forall>r\<in>set rs. \<exists>d. r = Fulfilled (C_dir d)"
    using c1(3) by blast
  have p1: "p < length (promises c1)" "promises c1 ! p = Pending t"
    using p rs by (simp_all add: nth_append)
  have P: "pending c1 = pending c" "failed c1 = failed c" "headers_read c1 = headers_read c"
    unfolding pending_def failed_def headers_read_def rs(1)
    by (rule count_appended; use rs(2) in force)+
  have "is_header (Fulfilled (outcome_value out)) = (t = T_header)"
    using f by (cases out; cases t) (simp_all add: Inr)
  then have Q: "pending c2 + 1 = pending c" "failed c2 = failed c" "headers_read c2 = headers_read c + of_bool (t = T_header)"
    using P resolve_counts[OF p1, of "Fulfilled (outcome_value out)"] by (simp_all add: c2_def)
  have ok2: "lru_ok c2" "slots_valid c2" "maxCacheEntries c2 = n"
    using c1 i by (simp_all add: c2_def slots_valid_def)
  have l2: "length (cache c2) \<le> length (cache c) + of_bool (t = T_header)"
    using c1(4) by (simp add: c2_def)
  have "size_bounded (pc_prune c2)"
    using l2 Q i(2,5) pc_prune_length[OF ok2(1)] ok2(3) n
    by (auto simp: size_bounded_def pending_def failed_def headers_read_def)
  moreover have "invalidations_valid (end_invalidation p (pc_prune c2))"
    using i(4) p1 rs c1(5)
    by (auto simp: invalidations_valid_def end_invalidation_def c2_def nth_append)
  moreover have "size_bounded (end_invalidation p d) = size_bounded d" "slots_valid (end_invalidation p d) = slots_valid d" for d
    by (simp_all add: size_bounded_def slots_valid_def counts)
  ultimately show ?thesis
    using ok2 by (simp add: pc_settle_def Inr pc_inv_def pc_prune_ok slots_valid_prune flip: c1_def c2_def)
qed

lemma pc_inv_step: "pc_inv n c \<Longrightarrow> 1 \<le> n \<Longrightarrow> pc_step c c' \<Longrightarrow> pc_inv n c'"
  by (erule pc_stepE) (auto intro: pc_inv_request pc_inv_invalidate pc_inv_settle)

lemma pc_inv_new: "1 \<le> n \<Longrightarrow> pc_inv n (new_SharedPromiseCache n)"
  by (simp add: pc_inv_def new_SharedPromiseCache_def lru_ok_def keys_def slots_valid_def
      invalidations_valid_def size_bounded_def counts)

lemma pc_reachable_inv: "pc_reachable n c \<Longrightarrow> 1 \<le> n \<Longrightarrow> pc_inv n c"
  by (induction rule: pc_reachable.induct) (auto intro: pc_inv_new pc_inv_step)

section \<open>Promises are settled once\<close>


lemma invalidations_request [simp]: "invalidations (snd (pc_request k t c)) = invalidations c"
  by (cases rule: pc_request_cases[of c k t]) simp_all






section \<open>Properties\<close>

text \<open>
  C6: The promise cache with a limit of n slots, reached by any interleaving of requests,
  invalidations and outcomes. Its slots are in order and name promises that exist; an invalidation
  on record is still waiting for its header or has failed. It holds fewer than n slots, except for
  those of fetches on their way, of failed fetches and of root directories stored beside a header.
\<close>

theorem pc_invariant:
  assumes "pc_reachable n c" and "1 \<le> n"
  shows "lru_ok c \<and> slots_valid c \<and> invalidations_valid c
    \<and> int (length (cache c)) < n + int (pending c + failed c + headers_read c)"
  using pc_reachable_inv[OF assms] by (simp add: pc_inv_def size_bounded_def)

lemma pc_invariant_witness:
  "let c = pc_settle 0 (Inl Fetch_failed) (snd (pc_request ''a'' T_header (new_SharedPromiseCache 1)))
   in lru_ok c \<and> int (length (cache c)) < 1 + int (pending c + failed c + headers_read c)"
proof -
  let ?c = "snd (pc_request ''a'' T_header (new_SharedPromiseCache 1))"
  have "pc_reachable 1 ?c" by (intro next_step[OF initial] request) simp
  moreover have "promises ?c = [Pending T_header]" by code_simp
  then have "pc_step ?c (pc_settle 0 (Inl Fetch_failed) ?c)" by (intro settle[where t = T_header]) simp_all
  ultimately have "pc_reachable 1 (pc_settle 0 (Inl Fetch_failed) ?c)" by (rule next_step)
  from pc_invariant[OF this] show ?thesis by (simp add: Let_def)
qed

definition request_all :: "(string \<times> task) list \<Rightarrow> pcache \<Rightarrow> pcache" where
  "request_all rs c = fold (\<lambda>(k, t) c. snd (pc_request k t c)) rs c"

lemma pc_request_effect:
  "set (keys (cache (snd (pc_request k t c)))) = insert k (set (keys (cache c)))"
  "length (promises (snd (pc_request k t c))) = length (promises c) + of_bool (k \<notin> set (keys (cache c)))"
  by (cases rule: pc_request_cases[of c k t];
      simp add: lru_set_keys map_of_None_keys[symmetric] flip: not_None_eq)+

lemma card_insert_fresh:
  assumes "finite A"
  shows "of_bool (k \<notin> K) + card (A - insert k K) = card (insert k A - K)"
proof (cases "k \<in> K")
  case True
  then show ?thesis by (simp add: insert_absorb insert_Diff_if)
next
  case False
  then have "insert k A - K = insert k (A - insert k K)" by blast
  with False assms show ?thesis by simp
qed

lemma request_all_effect:
  "set (keys (cache (request_all rs c))) = fst ` set rs \<union> set (keys (cache c))
   \<and> length (promises (request_all rs c)) = length (promises c) + card (fst ` set rs - set (keys (cache c)))"
proof (induction rs arbitrary: c)
  case (Cons r rs)
  obtain k t where r: "r = (k, t)" by fastforce
  let ?c = "snd (pc_request k t c)" and ?K = "set (keys (cache c))"
  have "of_bool (k \<notin> ?K) + card (fst ` set rs - insert k ?K) = card (insert k (fst ` set rs) - ?K)"
    by (rule card_insert_fresh) simp
  then show ?case
    using Cons.IH[of ?c] by (auto simp: request_all_def r pc_request_effect)
qed (simp add: request_all_def)

text \<open>
  C26: Any number of callers share one fetch. A series of requests starts exactly one fetch for
  every key that is not in the cache, and the same requests made again start none.
\<close>

theorem single_flight:
  shows "length (promises (request_all rs c)) = length (promises c) + card (fst ` set rs - set (keys (cache c)))
    \<and> length (promises (request_all rs (request_all rs c))) = length (promises (request_all rs c))"
  using request_all_effect[of rs c] request_all_effect[of rs "request_all rs c"]
  by (simp add: Diff_eq_empty_iff[THEN iffD2])




definition outcome_promise :: "js_error + outcome \<Rightarrow> promise" where
  "outcome_promise res = (case res of Inl e \<Rightarrow> Rejected e | Inr out \<Rightarrow> Fulfilled (outcome_value out))"

definition settle_all :: "(nat \<Rightarrow> js_error + outcome) \<Rightarrow> nat list \<Rightarrow> pcache \<Rightarrow> pcache" where
  "settle_all answer = fold (\<lambda>p c. if is_pending (promises c ! p) then pc_settle p (answer p) c else c)"

lemma outcome_promise_settled [simp]: "\<not> is_pending (outcome_promise res)"
  by (simp add: outcome_promise_def split: sum.split)

lemma settle_promises:
  assumes "p < length (promises c)"
  obtains rs where "promises (pc_settle p res c) = (promises c)[p := outcome_promise res] @ rs"
    and "\<forall>r\<in>set rs. \<not> is_pending r"
proof (cases res)
  case (Inr out)
  show thesis
    by (cases rule: pc_store_root_cases[of out c])
       (use assms that[of "[]"] that[of "[Fulfilled (C_dir _)]"] in
         \<open>auto simp: pc_settle_def outcome_promise_def Inr list_update_append\<close>)
qed (use that[of "[]"] in \<open>simp add: pc_settle_def outcome_promise_def\<close>)

lemma settle_all_promises:
  assumes "set ps \<subseteq> {..<length (promises c)}"
  shows "length (promises c) \<le> length (promises (settle_all answer ps c))
    \<and> (\<forall>q<length (promises c). promises (settle_all answer ps c) ! q
         = (if is_pending (promises c ! q) \<and> q \<in> set ps then outcome_promise (answer q) else promises c ! q))
    \<and> (\<forall>q<length (promises (settle_all answer ps c)). length (promises c) \<le> q
         \<longrightarrow> \<not> is_pending (promises (settle_all answer ps c) ! q))"
  using assms
proof (induction ps arbitrary: c)
  case (Cons p ps)
  show ?case
  proof (cases "is_pending (promises c ! p)")
    case False
    with Cons.IH[of c] Cons.prems show ?thesis by (auto simp: settle_all_def)
  next
    case True
    obtain rs where rs: "promises (pc_settle p (answer p) c) = (promises c)[p := outcome_promise (answer p)] @ rs"
      "\<forall>r\<in>set rs. \<not> is_pending r"
      using settle_promises[of p c "answer p"] Cons.prems by auto
    let ?c = "pc_settle p (answer p) c"
    have "set ps \<subseteq> {..<length (promises ?c)}" using Cons.prems rs by auto
    note IH = Cons.IH[OF this]
    have step: "settle_all answer (p # ps) c = settle_all answer ps ?c"
      using True by (simp add: settle_all_def)
    show ?thesis unfolding step
    proof (intro conjI allI impI)
      show "length (promises c) \<le> length (promises (settle_all answer ps ?c))"
        using IH rs by simp
    next
      fix q assume q: "q < length (promises c)"
      then have "promises ?c ! q = (if q = p then outcome_promise (answer p) else promises c ! q)"
        using rs by (simp add: nth_append nth_list_update)
      with IH q rs True show "promises (settle_all answer ps ?c) ! q
          = (if is_pending (promises c ! q) \<and> q \<in> set (p # ps) then outcome_promise (answer q) else promises c ! q)"
        by auto
    next
      fix q assume q: "q < length (promises (settle_all answer ps ?c))" "length (promises c) \<le> q"
      show "\<not> is_pending (promises (settle_all answer ps ?c) ! q)"
      proof (cases "q < length (promises ?c)")
        case True
        then have "promises ?c ! q \<in> set rs" using q(2) rs(1) by (simp add: nth_append)
        with rs(2) IH True show ?thesis by auto
      next
        case False
        with IH q show ?thesis by simp
      qed
    qed
  qed
qed (simp add: settle_all_def)

text \<open>
  C25: Nobody waits for ever. When each fetch on its way ends, in any order, every promise is
  settled with the outcome of its own fetch, whatever the order; the promises that were settled keep
  their value, and no new fetch is started.
\<close>

theorem promises_settle_all:
  assumes "set ps = {p. p < length (promises c) \<and> is_pending (promises c ! p)}"
  shows "pending (settle_all answer ps c) = 0
    \<and> (\<forall>q<length (promises c). promises (settle_all answer ps c) ! q
        = (if is_pending (promises c ! q) then outcome_promise (answer q) else promises c ! q))"
proof -
  have "set ps \<subseteq> {..<length (promises c)}" using assms by auto
  note * = settle_all_promises[OF this, of answer]
  have nth: "\<forall>q<length (promises c). promises (settle_all answer ps c) ! q
      = (if is_pending (promises c ! q) then outcome_promise (answer q) else promises c ! q)"
    using * assms by auto
  have "\<not> is_pending (promises (settle_all answer ps c) ! q)" if "q < length (promises (settle_all answer ps c))" for q
    using that nth * by (cases "q < length (promises c)") auto
  then have "pending (settle_all answer ps c) = 0"
    by (auto simp: pending_def filter_empty_conv in_set_conv_nth)
  with nth show ?thesis by blast
qed

lemma promises_settle_all_witness:
  "let c = request_all [(''a'', T_header), (''b'', T_header), (''a'', T_header)] (new_SharedPromiseCache 100)
   in pending (settle_all (\<lambda>p. if p = 0 then Inl Fetch_failed else Inr (O_header (V3 sample_header) None)) [1, 0] c) = 0
     \<and> pending c = 2"
proof -
  let ?c = "request_all [(''a'', T_header), (''b'', T_header), (''a'', T_header)] (new_SharedPromiseCache 100)"
  have c: "promises ?c = [Pending T_header, Pending T_header]" by code_simp
  then have "set [1, 0] = {p. p < length (promises ?c) \<and> is_pending (promises ?c ! p)}"
    by (auto simp: nth_Cons')
  from promises_settle_all[OF this] show ?thesis by (simp add: Let_def c pending_def)
qed

definition header_slot :: "string \<Rightarrow> pcache \<Rightarrow> bool" where
  "header_slot k c = (case map_of (cache c) k of
     None \<Rightarrow> True
   | Some s \<Rightarrow> data s < length (promises c) \<and>
       (case promises c ! data s of Pending t \<Rightarrow> t = T_header | Rejected e \<Rightarrow> True | Fulfilled v \<Rightarrow> is_header (Fulfilled v)))"

text \<open>
  C40: A failed header read is remembered: once \<^verbatim>\<open>getHeader\<close> has thrown, the rejected promise
  stays in the cache, and the next call throws the same error without any request to the source.
\<close>

theorem failure_remembered:
  assumes "header_slot (e_key env) c" and "pc_getHeader env (c, s) = (Inl e, c', s')"
  shows "\<exists>c''. pc_getHeader env (c', s'') = (Inl e, c'', s'')"
proof -
  let ?k = "e_key env"
  obtain p d where r: "pc_request ?k T_header c = (p, d)" by fastforce
  have d: "p < length (promises d)" "map_of (cache d) ?k = Some \<lparr>lastUsed = counter c, data = p\<rparr>"
    "promises d ! p = Pending T_header \<or> (\<exists>e. promises d ! p = Rejected e) \<or> (\<exists>h. promises d ! p = Fulfilled (C_header h))"
    using r assms(1)
    by (cases rule: pc_request_cases[of c ?k T_header];
        auto simp: header_slot_def lru_set_cell new_promise_def is_header_def split: promise.splits cached.splits)+
  have "promises c' ! p = Rejected e \<and> map_of (cache c') ?k = Some \<lparr>lastUsed = counter c, data = p\<rparr>"
    using assms(2) r d
    by (auto simp: pc_getHeader_def pc_get_def pc_await_def run_task_def pc_settle_def bind_st_def
        split: prod.splits sum.splits)
  then show ?thesis
    by (cases rule: pc_request_cases[of c' ?k T_header])
      (auto simp: pc_getHeader_def pc_get_def pc_await_def)
qed

lemma failure_remembered_witness:
  "let r = pc_getHeader demo_env (new_SharedPromiseCache 100, \<lparr>file_name = ''demo'', content = []\<rparr>)
   in fst r = Inl Range_error
    \<and> (\<exists>c. pc_getHeader demo_env (fst (snd r), demo_disk) = (Inl Range_error, c, demo_disk))"
proof -
  let ?c = "new_SharedPromiseCache 100" and ?s = "\<lparr>file_name = ''demo'', content = []\<rparr> :: file_source"
  obtain c' s' where r: "pc_getHeader demo_env (?c, ?s) = (Inl Range_error, c', s')"
    by (cases "pc_getHeader demo_env (?c, ?s)") (simp add: pc_getHeader_def pc_get_def pc_request_def
      new_SharedPromiseCache_def lru_hit_def pc_await_def run_task_def getHeaderAndRoot_def demo_env_def
      new_promise_def lru_set_def file_get_def file_getBytes_def blob_slice_def getUint16_def)
  have "header_slot (e_key demo_env) ?c" by (simp add: header_slot_def new_SharedPromiseCache_def)
  from failure_remembered[OF this r, of demo_disk] show ?thesis by (simp add: r Let_def)
qed

end
