(* ===== verification/Archive_Slots.thy ===== *)
theory Archive_Slots
  imports Resolved_Cache Promise_Cache
begin

text \<open>
  What a cache may hold of an archive, for both caches of \<^verbatim>\<open>src/app/static/js/pmtiles.js\<close> and all
  versions of the format. An archive is the key of its source, its header, and its parts: what a range of
  it is cached as, a directory for version 3 and a buffer before. The interface \<open>served_archive\<close> says
  what fetching from the source has to give; inside it both caches are proved to answer with the header
  and the parts, and to stay right.
\<close>

section \<open>Keys\<close>

lemma num_text_no_bar:
  assumes "0 \<le> i" and "i < 2 ^ 53"
  shows "CHR ''|'' \<notin> set (num_text (of_int i))"
proof -
  have "\<not> is_digit (CHR ''|'')" by code_simp
  with num_text_exact(1)[OF assms] show ?thesis by (auto simp only: list_all_iff)
qed

lemma append_bar_inj:
  assumes "xs @ CHR ''|'' # ys = xs' @ CHR ''|'' # ys'" and "CHR ''|'' \<notin> set xs" and "CHR ''|'' \<notin> set xs'"
  shows "xs = xs' \<and> ys = ys'"
proof -
  have "takeWhile (\<lambda>c. c \<noteq> CHR ''|'') (zs @ CHR ''|'' # ws) = zs" if "CHR ''|'' \<notin> set zs" for zs ws
    using that by (induction zs) auto
  from this[OF assms(2), of ys] this[OF assms(3), of ys'] assms(1) show ?thesis by simp
qed

lemma num_text_range_inj:
  assumes "0 \<le> i" and "i < 2 ^ 53" and "0 \<le> j" and "j < 2 ^ 53" and "num_text (of_int i) = num_text (of_int j)"
  shows "i = j"
  using num_text_exact(2)[OF assms(1,2)] num_text_exact(2)[OF assms(3,4)] assms(5) by metis

text \<open>Different ranges have different keys, and none of them is the key of the source.\<close>

definition exact_range :: "int \<Rightarrow> int \<Rightarrow> bool" where
  "exact_range off l \<longleftrightarrow> 0 \<le> off \<and> off < 2 ^ 53 \<and> 0 \<le> l \<and> l < 2 ^ 53"

lemma dir_key_inj:
  assumes "dir_key k t off l = dir_key k t off' l'" and "exact_range off l" and "exact_range off' l'"
  shows "off = off' \<and> l = l'"
proof -
  have r: "0 \<le> off" "off < 2 ^ 53" "0 \<le> l" "l < 2 ^ 53" "0 \<le> off'" "off' < 2 ^ 53" "0 \<le> l'" "l' < 2 ^ 53"
    using assms(2,3) by (simp_all add: exact_range_def)
  have "num_text (of_int off) @ CHR ''|'' # num_text (of_int l) = num_text (of_int off') @ CHR ''|'' # num_text (of_int l')"
    using assms(1) by (simp add: dir_key_def)
  then have "num_text (of_int off) = num_text (of_int off')" "num_text (of_int l) = num_text (of_int l')"
    using append_bar_inj[OF _ num_text_no_bar[OF r(1,2)] num_text_no_bar[OF r(5,6)]] by blast+
  then show ?thesis using num_text_range_inj r by blast
qed

lemma dir_key_not_source [simp]: "dir_key k t off l \<noteq> k" "k \<noteq> dir_key k t off l"
  by (simp_all add: dir_key_def)

section \<open>What is right under a key\<close>

type_synonym parts = "int \<Rightarrow> int \<Rightarrow> cached option"

text \<open>The slot of a key, the fetch it stands for, and the outcome of a fetch.\<close>

definition slot_right :: "string \<Rightarrow> any_header \<Rightarrow> parts \<Rightarrow> string \<Rightarrow> cached \<Rightarrow> bool" where
  "slot_right key hdr parts k d \<longleftrightarrow>
     (k = key \<longrightarrow> d = C_header hdr)
     \<and> (\<forall>off l v. parts off l = Some v \<longrightarrow> k = dir_key key (h_tag hdr) off l \<longrightarrow> d = v)"

definition part_task :: "any_header \<Rightarrow> int \<Rightarrow> int \<Rightarrow> task" where
  "part_task hdr off l = (case hdr of V3 h \<Rightarrow> T_dir off l hdr | V2 h \<Rightarrow> T_buffer off l hdr)"

definition task_right :: "string \<Rightarrow> any_header \<Rightarrow> parts \<Rightarrow> string \<Rightarrow> task \<Rightarrow> bool" where
  "task_right key hdr parts k t \<longleftrightarrow>
     (k = key \<longrightarrow> t = T_header)
     \<and> (\<forall>off l. parts off l \<noteq> None \<longrightarrow> k = dir_key key (h_tag hdr) off l \<longrightarrow> t = part_task hdr off l)"

definition root_right :: "string \<Rightarrow> any_header \<Rightarrow> parts \<Rightarrow> root_entry option \<Rightarrow> bool" where
  "root_right key hdr parts ro \<longleftrightarrow> (\<forall>dk rd. ro = Some (dk, rd) \<longrightarrow> slot_right key hdr parts dk (C_dir rd))"

definition outcome_right :: "string \<Rightarrow> any_header \<Rightarrow> parts \<Rightarrow> task \<Rightarrow> outcome \<Rightarrow> bool" where
  "outcome_right key hdr parts t out \<longleftrightarrow>
     (case out of
        O_header h ro \<Rightarrow> t = T_header \<and> h = hdr \<and> root_right key hdr parts ro
      | _ \<Rightarrow> \<exists>off l. t = part_task hdr off l \<and> parts off l = Some (outcome_value out))"

definition promise_right :: "string \<Rightarrow> any_header \<Rightarrow> parts \<Rightarrow> string \<Rightarrow> promise \<Rightarrow> bool" where
  "promise_right key hdr parts k r \<longleftrightarrow>
     (case r of
        Fulfilled v \<Rightarrow> slot_right key hdr parts k v
      | Pending t \<Rightarrow> task_right key hdr parts k t
      | Rejected e \<Rightarrow> k \<noteq> key \<and> (\<forall>off l. parts off l \<noteq> None \<longrightarrow> k \<noteq> dir_key key (h_tag hdr) off l))"

text \<open>The caches that are right.\<close>

definition rv_slots_right :: "string \<Rightarrow> any_header \<Rightarrow> parts \<Rightarrow> rcache \<Rightarrow> bool" where
  "rv_slots_right key hdr parts c \<longleftrightarrow> (\<forall>k s. map_of (cache c) k = Some s \<longrightarrow> slot_right key hdr parts k (data s))"

definition pc_slots_right :: "string \<Rightarrow> any_header \<Rightarrow> parts \<Rightarrow> pcache \<Rightarrow> bool" where
  "pc_slots_right key hdr parts c \<longleftrightarrow>
     (\<forall>k s. map_of (cache c) k = Some s \<longrightarrow>
        data s < length (promises c) \<and> promise_right key hdr parts k (promises c ! data s))"

lemma slot_right_header: "slot_right key hdr parts key (C_header hdr)"
  by (simp add: slot_right_def)

lemma task_right_header: "task_right key hdr parts key T_header"
  by (simp add: task_right_def)

lemma part_task_inj: "part_task hdr off l = part_task hdr off' l' \<longleftrightarrow> off = off' \<and> l = l'"
  by (simp add: part_task_def split: any_header.split)

lemma part_task_not_header [simp]: "part_task hdr off l \<noteq> T_header"
  by (simp add: part_task_def split: any_header.split)

text \<open>What is right under the key of the source, and under the key of a part, is fixed.\<close>

lemma right_header:
  "slot_right key hdr parts key v \<longleftrightarrow> v = C_header hdr"
  "task_right key hdr parts key t \<longleftrightarrow> t = T_header"
  "\<not> promise_right key hdr parts key (Rejected e)"
  by (auto simp: slot_right_def task_right_def promise_right_def)

lemma right_partD:
  assumes "parts off l = Some v"
  shows "slot_right key hdr parts (dir_key key (h_tag hdr) off l) v' \<Longrightarrow> v' = v"
    "task_right key hdr parts (dir_key key (h_tag hdr) off l) t \<Longrightarrow> t = part_task hdr off l"
    "\<not> promise_right key hdr parts (dir_key key (h_tag hdr) off l) (Rejected e)"
  using assms by (auto simp: slot_right_def task_right_def promise_right_def)

lemma outcome_slot_right:
  "task_right key hdr parts k t \<Longrightarrow> outcome_right key hdr parts t out \<Longrightarrow> slot_right key hdr parts k (outcome_value out)"
proof (cases out)
  case (O_header h ro)
  then show "task_right key hdr parts k t \<Longrightarrow> outcome_right key hdr parts t out \<Longrightarrow> slot_right key hdr parts k (outcome_value out)"
    by (auto simp: slot_right_def outcome_right_def task_right_def simp: part_task_not_header[symmetric])
qed (fastforce simp: slot_right_def outcome_right_def task_right_def part_task_inj)+

section \<open>The value cache\<close>

lemma rv_slots_right_set:
  "rv_slots_right key hdr parts c \<Longrightarrow> slot_right key hdr parts k d \<Longrightarrow> rv_slots_right key hdr parts (lru_set k d c)"
  by (auto simp: rv_slots_right_def lru_set_cell)

lemma rv_slots_right_prune: "rv_slots_right key hdr parts c \<Longrightarrow> rv_slots_right key hdr parts (rv_prune c)"
  by (auto simp: rv_slots_right_def rv_prune_def dest!: map_of_delete_min)

lemma rv_slots_right_delete: "rv_slots_right key hdr parts c \<Longrightarrow> rv_slots_right key hdr parts (lru_delete k c)"
  by (simp add: rv_slots_right_def lru_delete_def delete_conv')

lemma rv_slots_right_hit:
  "rv_slots_right key hdr parts c \<Longrightarrow> lru_hit k c = Some (d, c')
    \<Longrightarrow> slot_right key hdr parts k d \<and> rv_slots_right key hdr parts c'"
  by (erule lru_hit_Some) (auto simp: rv_slots_right_set, auto simp: rv_slots_right_def lru_set_cell)

lemma rv_store_header_coherent:
  assumes "rv_slots_right key hdr parts c" and "root_right key hdr parts ro"
  shows "rv_slots_right key hdr parts (rv_store_header key (hdr, ro) c)"
  using assms by (cases ro)
    (auto simp: rv_store_header_def root_right_def intro!: rv_slots_right_prune rv_slots_right_set slot_right_header)

text \<open>A lookup answers with what is right, whether it was there or is fetched.\<close>

lemma rv_lookup_right:
  assumes "rv_slots_right key hdr parts c" and "fetch s = (Inr r, s')" and "rv_slots_right key hdr parts (store r c)"
    and "\<And>d. slot_right key hdr parts k d \<Longrightarrow> read d = Inr (result r)"
  shows "\<exists>c' s''. rv_lookup k read fetch result store (c, s) = (Inr (result r), c', s'')
    \<and> rv_slots_right key hdr parts c' \<and> (s'' = s \<or> s'' = s')"
proof (cases rule: rv_lookup_cases[of k c read fetch result store s])
  case (hit d c')
  with rv_slots_right_hit[OF assms(1) hit(1)] assms(4) show ?thesis by auto
qed (use assms in auto)

section \<open>The promise cache\<close>

text \<open>Slots whose promises satisfy \<open>P\<close> under their keys: what the operations keep of them, for any \<open>P\<close>.\<close>

definition slots_sat :: "(string \<Rightarrow> promise \<Rightarrow> bool) \<Rightarrow> pcache \<Rightarrow> bool" where
  "slots_sat P c \<longleftrightarrow>
     (\<forall>k s. map_of (cache c) k = Some s \<longrightarrow> data s < length (promises c) \<and> P k (promises c ! data s))"

lemma slots_satD:
  "slots_sat P c \<Longrightarrow> map_of (cache c) k = Some s \<Longrightarrow> data s < length (promises c) \<and> P k (promises c ! data s)"
  by (simp add: slots_sat_def)

lemma slots_sat_sub:
  assumes "slots_sat P c" and "\<And>k s. map_of (cache c') k = Some s \<Longrightarrow> map_of (cache c) k = Some s"
    and "promises c' = promises c"
  shows "slots_sat P c'"
  using slots_satD[OF assms(1)] assms(2,3) unfolding slots_sat_def by simp blast

lemma slots_sat_new:
  assumes "slots_sat P c" and "P k r"
  shows "slots_sat P (lru_set k (length (promises c)) (new_promise r c))"
  unfolding slots_sat_def
proof (intro allI impI)
  fix k' s assume s: "map_of (cache (lru_set k (length (promises c)) (new_promise r c))) k' = Some s"
  show "data s < length (promises (lru_set k (length (promises c)) (new_promise r c)))
    \<and> P k' (promises (lru_set k (length (promises c)) (new_promise r c)) ! data s)"
  proof (cases "k' = k")
    case True
    with s assms(2) show ?thesis by (auto simp: lru_set_cell)
  next
    case False
    with s have "map_of (cache c) k' = Some s" by (simp add: lru_set_cell)
    from slots_satD[OF assms(1) this] show ?thesis by (simp add: nth_append)
  qed
qed

lemma slots_sat_request:
  assumes "slots_sat P c" and "P k (Pending t)" and "pc_request k t c = (p, c')"
  shows "slots_sat P c' \<and> p < length (promises c') \<and> P k (promises c' ! p)
    \<and> map_of (cache c') k = Some \<lparr>lastUsed = counter c, data = p\<rparr>
    \<and> (promises c' = promises c \<or> promises c' = promises c @ [Pending t])"
proof (cases rule: pc_request_cases[of c k t])
  case (shared q s)
  have "slots_sat P (lru_set k (data s) c)"
    using slots_satD[OF assms(1)] shared(1) by (auto simp: slots_sat_def lru_set_cell split: if_splits)
  with shared assms(3) slots_satD[OF assms(1) shared(1)] show ?thesis by (auto simp: lru_set_cell)
next
  case fresh
  from slots_sat_new[where P = P, OF assms(1,2)] fresh(2) assms(2,3) show ?thesis
    by (auto simp: lru_set_cell) (simp add: new_promise_def)
qed

lemma slots_sat_settle:
  assumes "slots_sat P c" and "p < length (promises c)" and "promises c ! p = Pending t"
    and "\<And>k. P k (Pending t) \<Longrightarrow> P k (outcome_promise res)"
    and "\<And>h dk rd. res = Inr (O_header h (Some (dk, rd))) \<Longrightarrow> P dk (Fulfilled (C_dir rd))"
  shows "slots_sat P (pc_settle p res c)"
proof -
  have resolve: "slots_sat P (resolve p (outcome_promise res) c')"
    if "slots_sat P c'" "promises c' ! p = Pending t" for c'
    unfolding slots_sat_def
  proof (intro allI impI)
    fix k s assume "map_of (cache (resolve p (outcome_promise res) c')) k = Some s"
    then have "data s < length (promises c')" "P k (promises c' ! data s)" using slots_satD[OF that(1)] by simp_all
    with that(2) assms(4) show "data s < length (promises (resolve p (outcome_promise res) c'))
        \<and> P k (promises (resolve p (outcome_promise res) c') ! data s)"
      by (cases "data s = p") simp_all
  qed
  show ?thesis
  proof (cases res)
    case (Inl e)
    with resolve[OF assms(1,3)] show ?thesis by (simp add: pc_settle_def outcome_promise_def)
  next
    case (Inr out)
    have st: "slots_sat P (pc_store_root out c) \<and> promises (pc_store_root out c) ! p = Pending t"
    proof (cases rule: pc_store_root_cases[of out c])
      case (root_dir h dk rd)
      with slots_sat_new[where P = P, OF assms(1) assms(5)] Inr assms(2,3) show ?thesis by (simp add: nth_append)
    qed (use assms in simp)
    have "slots_sat P (resolve p (Fulfilled (outcome_value out)) (pc_store_root out c))"
      using resolve st Inr by (simp add: outcome_promise_def)
    then have "slots_sat P (end_invalidation p (pc_prune (resolve p (Fulfilled (outcome_value out)) (pc_store_root out c))))"
      by (rule slots_sat_sub) (auto simp: pc_prune_def dest!: map_of_delete_min split: if_splits)
    with Inr show ?thesis by (simp add: pc_settle_def)
  qed
qed

lemma slots_sat_delete: "slots_sat P c \<Longrightarrow> slots_sat P (lru_delete k c)"
  by (erule slots_sat_sub) (auto simp: lru_delete_def delete_conv' split: if_splits)

text \<open>The slots of an archive.\<close>

lemma pc_slots_right_sat: "pc_slots_right key hdr parts = slots_sat (promise_right key hdr parts)"
  by (simp add: fun_eq_iff pc_slots_right_def slots_sat_def)

lemma pc_slots_right_slot:
  "pc_slots_right key hdr parts c \<Longrightarrow> map_of (cache c) k = Some s
    \<Longrightarrow> data s < length (promises c) \<and> promise_right key hdr parts k (promises c ! data s)"
  by (simp add: pc_slots_right_def)

lemma pc_slots_right_request:
  assumes "pc_slots_right key hdr parts c" and "task_right key hdr parts k t" and "pc_request k t c = (p, c')"
  shows "pc_slots_right key hdr parts c' \<and> p < length (promises c') \<and> promise_right key hdr parts k (promises c' ! p)
    \<and> map_of (cache c') k = Some \<lparr>lastUsed = counter c, data = p\<rparr>"
  using slots_sat_request[of "promise_right key hdr parts" c k t p c'] assms
  by (simp add: pc_slots_right_sat promise_right_def)

lemma promise_right_outcome:
  "promise_right key hdr parts k (Pending t) \<Longrightarrow> outcome_right key hdr parts t out
    \<Longrightarrow> promise_right key hdr parts k (Fulfilled (outcome_value out))"
  by (simp add: promise_right_def outcome_slot_right)

lemma pc_slots_right_settle:
  assumes "pc_slots_right key hdr parts c" and "p < length (promises c)" and "promises c ! p = Pending t"
    and "outcome_right key hdr parts t out"
  shows "pc_slots_right key hdr parts (pc_settle p (Inr out) c)"
  unfolding pc_slots_right_sat
proof (rule slots_sat_settle[OF assms(1)[unfolded pc_slots_right_sat] assms(2,3)])
  show "promise_right key hdr parts k (Pending t) \<Longrightarrow> promise_right key hdr parts k (outcome_promise (Inr out))" for k
    using promise_right_outcome[OF _ assms(4)] by (simp add: outcome_promise_def)
  show "Inr out = Inr (O_header h (Some (dk, rd))) \<Longrightarrow> promise_right key hdr parts dk (Fulfilled (C_dir rd))" for h dk rd
    using assms(4) by (simp add: outcome_right_def root_right_def promise_right_def)
qed

lemma pc_slots_right_delete: "pc_slots_right key hdr parts c \<Longrightarrow> pc_slots_right key hdr parts (lru_delete k c)"
  unfolding pc_slots_right_sat by (rule slots_sat_delete)

lemma pc_slots_right_invalidate:
  assumes "pc_slots_right key hdr parts c"
  shows "pc_slots_right key hdr parts (pc_invalidate key c)"
proof (cases "map_of (invalidations c) key")
  case None
  obtain p c' where r: "pc_request key T_header (lru_delete key c) = (p, c')" by fastforce
  from pc_slots_right_request[OF pc_slots_right_delete[OF assms] task_right_header r] show ?thesis
    by (simp add: pc_invalidate_def None r pc_slots_right_def)
qed (use assms in \<open>simp add: pc_invalidate_def\<close>)

text \<open>A request answers with what is right under its key.\<close>

lemma pc_get_right:
  assumes "pc_slots_right key hdr parts c" and "task_right key hdr parts k t"
    and "run_task env t s = (Inr out, s')" and "outcome_right key hdr parts t out"
    and "\<And>t'. task_right key hdr parts k t' \<Longrightarrow> t' = t"
    and "\<And>v. slot_right key hdr parts k v \<Longrightarrow> v = outcome_value out"
    and "\<And>e. \<not> promise_right key hdr parts k (Rejected e)"
  shows "\<exists>c' s''. pc_get env k t read (c, s) = (read (outcome_value out), c', s'') \<and> pc_slots_right key hdr parts c'
    \<and> (s'' = s \<or> s'' = s')"
proof -
  obtain p c1 where r: "pc_request k t c = (p, c1)" by fastforce
  note c1 = pc_slots_right_request[OF assms(1,2) r]
  show ?thesis
  proof (cases "promises c1 ! p")
    case (Pending t')
    with c1 assms(5) have t': "promises c1 ! p = Pending t" by (simp add: promise_right_def)
    have "pc_slots_right key hdr parts (pc_settle p (Inr out) c1)"
      using c1 t' assms(4) by (intro pc_slots_right_settle) simp_all
    with t' r assms(3) show ?thesis by (simp add: pc_get_def pc_await_def)
  next
    case (Fulfilled v')
    with c1 assms(6) have "v' = outcome_value out" by (simp add: promise_right_def)
    with Fulfilled c1 r show ?thesis by (simp add: pc_get_def pc_await_def)
  next
    case (Rejected e)
    with c1 assms(7) show ?thesis by simp
  qed
qed

section \<open>An archive that is served\<close>

text \<open>
  What fetching has to give while the source is in a state of \<open>served\<close>: the header, with the root
  directory where it comes with one, and the parts.
\<close>

locale served_archive =
  fixes env :: "'s env"
    and hdr :: any_header
    and parts :: parts
    and served :: "'s \<Rightarrow> bool"
  assumes part_range: "parts off l = Some v \<Longrightarrow> exact_range off l"
    and fetch_header: "served s \<Longrightarrow> \<exists>ro s'. getHeaderAndRoot env s = (Inr (hdr, ro), s')
      \<and> root_right (e_key env) hdr parts ro \<and> served s'"
    and fetch_part: "served s \<Longrightarrow> parts off l = Some v
      \<Longrightarrow> \<exists>out s'. run_task env (part_task hdr off l) s = (Inr out, s') \<and> outcome_value out = v
        \<and> (\<forall>h ro. out \<noteq> O_header h ro) \<and> served s'"
begin

lemma part_key_inj:
  "parts off l = Some v \<Longrightarrow> parts off' l' = Some v' \<Longrightarrow> dir_key k t off l = dir_key k t off' l'
    \<Longrightarrow> off = off' \<and> l = l'"
  using dir_key_inj part_range by blast

lemma slot_right_part:
  "parts off l = Some v \<Longrightarrow> slot_right (e_key env) hdr parts (dir_key (e_key env) (h_tag hdr) off l) v"
  using part_key_inj by (fastforce simp: slot_right_def)

lemma task_right_part:
  "parts off l = Some v
    \<Longrightarrow> task_right (e_key env) hdr parts (dir_key (e_key env) (h_tag hdr) off l) (part_task hdr off l)"
  using part_key_inj by (fastforce simp: task_right_def part_task_inj)

lemma pc_header_right:
  assumes "pc_slots_right (e_key env) hdr parts c" and "served s"
  shows "\<exists>c' s'. pc_getHeader env (c, s) = (Inr hdr, c', s') \<and> pc_slots_right (e_key env) hdr parts c' \<and> served s'"
proof -
  obtain ro s' where f: "getHeaderAndRoot env s = (Inr (hdr, ro), s')" "root_right (e_key env) hdr parts ro" "served s'"
    using fetch_header[OF assms(2)] by blast
  have "run_task env T_header s = (Inr (O_header hdr ro), s')" using f(1) by (simp add: run_task_def)
  from pc_get_right[OF assms(1) task_right_header this, of as_header] f(2,3) assms(2) show ?thesis
    by (auto simp: pc_getHeader_def outcome_right_def right_header)
qed

lemma pc_part_right:
  assumes "pc_slots_right (e_key env) hdr parts c" and "served s" and "parts off l = Some v"
  shows "\<exists>c' s'. pc_get env (dir_key (e_key env) (h_tag hdr) off l) (part_task hdr off l) read (c, s) = (read v, c', s')
    \<and> pc_slots_right (e_key env) hdr parts c' \<and> served s'"
proof -
  obtain out s' where f: "run_task env (part_task hdr off l) s = (Inr out, s')" "outcome_value out = v"
    "\<forall>h ro. out \<noteq> O_header h ro" "served s'"
    using fetch_part[OF assms(2,3)] by blast
  have o: "outcome_right (e_key env) hdr parts (part_task hdr off l) out"
    using f(2,3) assms(3) by (cases out) (auto simp: outcome_right_def)
  note R = right_partD[where parts = parts and hdr = hdr and key = "e_key env", OF assms(3)]
  have v: "slot_right (e_key env) hdr parts (dir_key (e_key env) (h_tag hdr) off l) v' \<Longrightarrow> v' = outcome_value out" for v'
    using R(1) f(2) by blast
  from pc_get_right[OF assms(1) task_right_part[OF assms(3)] f(1) o R(2) v R(3), where read = read] f(2,4) assms(2)
  show ?thesis by auto
qed

lemma rv_header_right:
  assumes "rv_slots_right (e_key env) hdr parts c" and "served s"
  shows "\<exists>c' s'. rv_getHeader env (c, s) = (Inr hdr, c', s') \<and> rv_slots_right (e_key env) hdr parts c' \<and> served s'"
proof -
  obtain ro s' where f: "getHeaderAndRoot env s = (Inr (hdr, ro), s')" "root_right (e_key env) hdr parts ro" "served s'"
    using fetch_header[OF assms(2)] by blast
  from rv_lookup_right[where store = "rv_store_header (e_key env)" and fetch = "getHeaderAndRoot env" and s = s
        and k = "e_key env" and read = as_header and result = fst,
      OF assms(1) f(1) rv_store_header_coherent[OF assms(1) f(2)]]
    f(3) assms(2) show ?thesis
    by (auto simp: rv_getHeader_def right_header)
qed

lemma rv_part_right:
  assumes "rv_slots_right (e_key env) hdr parts c" and "served s" and "parts off l = Some (wrap r)"
    and "fetch s = (Inr r, s')" and "served s'" and "read (wrap r) = Inr r"
  shows "\<exists>c' s''. rv_lookup (dir_key (e_key env) (h_tag hdr) off l) read fetch id
      (\<lambda>x c. rv_prune (lru_set (dir_key (e_key env) (h_tag hdr) off l) (wrap x) c)) (c, s) = (Inr r, c', s'')
    \<and> rv_slots_right (e_key env) hdr parts c' \<and> served s''"
proof -
  have st: "rv_slots_right (e_key env) hdr parts (rv_prune (lru_set (dir_key (e_key env) (h_tag hdr) off l) (wrap r) c))"
    by (intro rv_slots_right_prune rv_slots_right_set assms(1) slot_right_part assms(3))
  have rd: "slot_right (e_key env) hdr parts (dir_key (e_key env) (h_tag hdr) off l) d \<Longrightarrow> read d = Inr (id r)" for d
    using right_partD(1)[where parts = parts, OF assms(3)] assms(6) by auto
  from rv_lookup_right[where store = "\<lambda>x c. rv_prune (lru_set (dir_key (e_key env) (h_tag hdr) off l) (wrap x) c)"
        and fetch = fetch and s = s and read = read and result = id and r = r
        and k = "dir_key (e_key env) (h_tag hdr) off l", OF assms(1,4) st rd] assms(2,5) show ?thesis by auto
qed

end

end
