(* ===== verification/Reader.thy ===== *)
theory Reader
  imports Resolved_Cache Promise_Cache
begin

text \<open>
  The class \<^verbatim>\<open>PMTiles\<close> of \<^verbatim>\<open>src/app/static/js/pmtiles.js\<close>: a tile, the metadata and the
  TileJSON of an archive, read through a cache from a source, with one retry when the archive was
  replaced; and \<^verbatim>\<open>v2_default.getZxy\<close>, which reads archives of the versions 1 and 2. The state is
  the cache with the state of the source; an \<^verbatim>\<open>AbortSignal\<close> is one of the ways a request fails.
\<close>

section \<open>Headers of any version\<close>

definition h_jsonMetadataOffset :: "any_header \<Rightarrow> int" where
  "h_jsonMetadataOffset h = (case h of V3 a \<Rightarrow> jsonMetadataOffset a | V2 b \<Rightarrow> v2_metadataOffset b)"

definition h_jsonMetadataLength :: "any_header \<Rightarrow> int" where
  "h_jsonMetadataLength h = (case h of V3 a \<Rightarrow> jsonMetadataLength a | V2 b \<Rightarrow> v2_metadataLength b)"

definition h_leafDirectoryOffset :: "any_header \<Rightarrow> int" where
  "h_leafDirectoryOffset h = (case h of V3 a \<Rightarrow> leafDirectoryOffset a | V2 b \<Rightarrow> 0)"

definition h_tileDataOffset :: "any_header \<Rightarrow> int" where
  "h_tileDataOffset h = (case h of V3 a \<Rightarrow> tileDataOffset a | V2 b \<Rightarrow> 0)"

definition h_tileCompression :: "any_header \<Rightarrow> int" where
  "h_tileCompression h = (case h of V3 a \<Rightarrow> tileCompression a | V2 b \<Rightarrow> v2_tileCompression b)"

definition h_tileType :: "any_header \<Rightarrow> int" where
  "h_tileType h = (case h of V3 a \<Rightarrow> tileType a | V2 b \<Rightarrow> v2_tileType b)"

text \<open>A zoom level or coordinate, as a number of the language.\<close>

definition h_minZoom :: "any_header \<Rightarrow> jsnum" where
  "h_minZoom h = (case h of V3 a \<Rightarrow> Fin (of_int (minZoom a)) | V2 b \<Rightarrow> v2_minZoom b)"

definition h_maxZoom :: "any_header \<Rightarrow> jsnum" where
  "h_maxZoom h = (case h of V3 a \<Rightarrow> Fin (of_int (maxZoom a)) | V2 b \<Rightarrow> v2_maxZoom b)"

definition h_bounds :: "any_header \<Rightarrow> jsnum list" where
  "h_bounds h = (case h of V3 a \<Rightarrow> map Fin [minLon a, minLat a, maxLon a, maxLat a]
     | V2 b \<Rightarrow> [v2_minLon b, v2_minLat b, v2_maxLon b, v2_maxLat b])"

definition h_center :: "any_header \<Rightarrow> jsnum list" where
  "h_center h = (case h of V3 a \<Rightarrow> map Fin [centerLon a, centerLat a, of_int (centerZoom a)]
     | V2 b \<Rightarrow> [v2_centerLon b, v2_centerLat b, v2_centerZoom b])"

section \<open>A tile of a version 1 or 2 archive\<close>

record tile =
  tile_data :: bytes
  tile_cacheControl :: "string option"
  tile_expires :: "string option"

text \<open>The bytes of an entry, unpacked when they start with the magic number of gzip.\<close>

definition v2_tile :: "'s env \<Rightarrow> v2_entry \<Rightarrow> 'c \<times> 's \<Rightarrow> (js_error + tile) \<times> 'c \<times> 's" where
  "v2_tile env entry st =
     bind_st (on_source (e_get env (eoffset entry) (elength entry) None) st) (\<lambda>resp st.
     let view = rr_data resp in
     bind_st (getUint8 view 0, st) (\<lambda>b0 st.
     bind_st (if b0 = 31 then getUint8 view 1 else Inr 0, st) (\<lambda>b1 st.
     bind_st (if b0 = 31 \<and> b1 = 139 then e_inflate env view else Inr view, st) (\<lambda>d st.
     (Inr \<lparr>tile_data = d, tile_cacheControl = None, tile_expires = None\<rparr>, st)))))"

definition v2_directory ::
  "('c, 's) cache_ops \<Rightarrow> 's env \<Rightarrow> int \<Rightarrow> int \<Rightarrow> any_header \<Rightarrow> 'c \<times> 's \<Rightarrow> (js_error + bytes) \<times> 'c \<times> 's" where
  "v2_directory ops env off l h st =
     bind_st (c_getArrayBuffer ops env off l h st) (\<lambda>d st.
     (if h_spec h = 1 then sortDir d else Inr d, st))"

definition v2_getZxy ::
  "('c, 's) cache_ops \<Rightarrow> 's env \<Rightarrow> any_header \<Rightarrow> int \<Rightarrow> rat \<Rightarrow> rat \<Rightarrow> 'c \<times> 's
    \<Rightarrow> (js_error + tile option) \<times> 'c \<times> 's" where
  "v2_getZxy ops env h z x y st =
     bind_st (v2_directory ops env (h_rootOffset h) (h_rootLength h) h st) (\<lambda>rootDir st.
     bind_st (queryTile rootDir z x y, st) (\<lambda>entry st.
     case entry of Some e \<Rightarrow> bind_st (v2_tile env e st) (\<lambda>t st. (Inr (Some t), st)) | None \<Rightarrow>
     bind_st (deriveLeaf rootDir z x y, st) (\<lambda>leafcoords st.
     case leafcoords of None \<Rightarrow> (Inr None, st) | Some (lz, lx, ly) \<Rightarrow>
     bind_st (queryLeafdir rootDir lz lx ly, st) (\<lambda>leafdirEntry st.
     case leafdirEntry of None \<Rightarrow> (Inr None, st) | Some le \<Rightarrow>
     bind_st (v2_directory ops env (eoffset le) (elength le) h st) (\<lambda>leafDir st.
     bind_st (queryTile leafDir z x y, st) (\<lambda>tileEntry st.
     case tileEntry of None \<Rightarrow> (Inr None, st) | Some e \<Rightarrow>
       bind_st (v2_tile env e st) (\<lambda>t st. (Inr (Some t), st))))))))"

section \<open>A tile of a version 3 archive\<close>

text \<open>The loop over the directories; \<open>n\<close> counts the levels that are left.\<close>

fun read_tile ::
  "('c, 's) cache_ops \<Rightarrow> 's env \<Rightarrow> any_header \<Rightarrow> rat \<Rightarrow> nat \<Rightarrow> int \<Rightarrow> int \<Rightarrow> 'c \<times> 's
    \<Rightarrow> (js_error + tile option) \<times> 'c \<times> 's" where
  "read_tile ops env h tid 0 dO dL st = (Inl (Error ''Maximum directory depth exceeded''), st)"
| "read_tile ops env h tid (Suc n) dO dL st =
     bind_st (c_getDirectory ops env dO dL h st) (\<lambda>directory st.
     case findTile directory tid of
       None \<Rightarrow> (Inr None, st)
     | Some entry \<Rightarrow>
         if runLength entry > 0 then
           bind_st (on_source (e_get env (fli (h_tileDataOffset h + offset entry)) (len entry) (h_tag h)) st)
             (\<lambda>resp st.
           bind_st (e_tile_decompress env (rr_data resp) (h_tileCompression h), st) (\<lambda>d st.
           (Inr (Some \<lparr>tile_data = d, tile_cacheControl = rr_cache_control resp,
              tile_expires = rr_expires resp\<rparr>), st)))
         else read_tile ops env h tid n (fli (h_leafDirectoryOffset h + offset entry)) (len entry) st)"

definition getZxyAttempt ::
  "('c, 's) cache_ops \<Rightarrow> 's env \<Rightarrow> nat \<Rightarrow> rat \<Rightarrow> rat \<Rightarrow> 'c \<times> 's
    \<Rightarrow> (js_error + tile option) \<times> 'c \<times> 's" where
  "getZxyAttempt ops env z x y st =
     bind_st (zxyToTileId z x y, st) (\<lambda>tid st.
     bind_st (c_getHeader ops env st) (\<lambda>header st.
     if h_spec header < 3 then v2_getZxy ops env header (int z) x y st
     else if jless (Fin (of_nat z)) (h_minZoom header) \<or> jless (h_maxZoom header) (Fin (of_nat z)) then (Inr None, st)
     else read_tile ops env header tid 4 (h_rootOffset header) (h_rootLength header) st))"

text \<open>One more attempt after a version mismatch, with the header dropped from the cache.\<close>

definition with_retry ::
  "('c, 's) cache_ops \<Rightarrow> 's env \<Rightarrow> ('c \<times> 's \<Rightarrow> (js_error + 'a) \<times> 'c \<times> 's) \<Rightarrow> 'c \<times> 's
    \<Rightarrow> (js_error + 'a) \<times> 'c \<times> 's" where
  "with_retry ops env attempt st =
     (case attempt st of
        (Inl e, st') \<Rightarrow> if e = Etag_mismatch then attempt (c_invalidate ops env st') else (Inl e, st')
      | (Inr v, st') \<Rightarrow> (Inr v, st'))"

definition getZxy ::
  "('c, 's) cache_ops \<Rightarrow> 's env \<Rightarrow> nat \<Rightarrow> rat \<Rightarrow> rat \<Rightarrow> 'c \<times> 's \<Rightarrow> (js_error + tile option) \<times> 'c \<times> 's" where
  "getZxy ops env z x y = with_retry ops env (getZxyAttempt ops env z x y)"

section \<open>Metadata\<close>

definition getHeader :: "('c, 's) cache_ops \<Rightarrow> 's env \<Rightarrow> 'c \<times> 's \<Rightarrow> (js_error + any_header) \<times> 'c \<times> 's" where
  "getHeader ops env st = c_getHeader ops env st"

definition getMetadataAttempt ::
  "('c, 's) cache_ops \<Rightarrow> 's env \<Rightarrow> 'c \<times> 's \<Rightarrow> (js_error + jsval) \<times> 'c \<times> 's" where
  "getMetadataAttempt ops env st =
     bind_st (c_getHeader ops env st) (\<lambda>header st.
     bind_st (on_source (e_get env (h_jsonMetadataOffset header) (h_jsonMetadataLength header) (h_tag header)) st)
       (\<lambda>resp st.
     bind_st (e_tile_decompress env (rr_data resp) (h_internalCompression header), st) (\<lambda>decompressed st.
     (e_json env decompressed, st))))"

definition getMetadata :: "('c, 's) cache_ops \<Rightarrow> 's env \<Rightarrow> 'c \<times> 's \<Rightarrow> (js_error + jsval) \<times> 'c \<times> 's" where
  "getMetadata ops env = with_retry ops env (getMetadataAttempt ops env)"

text \<open>Reading a property of the metadata throws when the metadata is \<^verbatim>\<open>null\<close>.\<close>

definition tile_json :: "string \<Rightarrow> any_header \<Rightarrow> jsval \<Rightarrow> js_error + jsval" where
  "tile_json baseTilesUrl header metadata =
     bind_sum (read_prop metadata ''vector_layers'') (\<lambda>layers.
     Inr (Obj [
       (''tilejson'', Str ''3.0.0''),
       (''scheme'', Str ''xyz''),
       (''tiles'', Arr [Str (baseTilesUrl @ ''/{z}/{x}/{y}'' @ tileTypeExt (h_tileType header))]),
       (''vector_layers'', layers),
       (''attribution'', get_prop metadata ''attribution''),
       (''description'', get_prop metadata ''description''),
       (''name'', get_prop metadata ''name''),
       (''version'', get_prop metadata ''version''),
       (''bounds'', Arr (map Num (h_bounds header))),
       (''center'', Arr (map Num (h_center header))),
       (''minzoom'', Num (h_minZoom header)),
       (''maxzoom'', Num (h_maxZoom header))]))"

definition getTileJson ::
  "('c, 's) cache_ops \<Rightarrow> 's env \<Rightarrow> string \<Rightarrow> 'c \<times> 's \<Rightarrow> (js_error + jsval) \<times> 'c \<times> 's" where
  "getTileJson ops env baseTilesUrl st =
     bind_st (getHeader ops env st) (\<lambda>header st.
     bind_st (getMetadata ops env st) (\<lambda>metadata st.
     (tile_json baseTilesUrl header metadata, st)))"

section \<open>The object\<close>

text \<open>
  The constructor: a string is the URL of a new \<^verbatim>\<open>FetchSource\<close>; without a cache or a decompressor
  the object takes a \<^verbatim>\<open>SharedPromiseCache\<close> and \<^verbatim>\<open>defaultDecompress\<close>. A decompressor given
  here is not the one of the default cache.
\<close>

record pmtiles =
  pm_source :: fetch_source
  pm_cache :: pcache
  pm_decompress :: "bytes \<Rightarrow> int \<Rightarrow> js_error + bytes"

definition new_PMTiles ::
  "string option \<Rightarrow> (bytes \<Rightarrow> int \<Rightarrow> js_error + bytes) \<Rightarrow> string + fetch_source \<Rightarrow> pcache option
    \<Rightarrow> (bytes \<Rightarrow> int \<Rightarrow> js_error + bytes) option \<Rightarrow> pmtiles" where
  "new_PMTiles navigator default_decompress source given decompress =
     \<lparr>pm_source = (case source of Inl u \<Rightarrow> new_FetchSource u [] navigator | Inr s \<Rightarrow> s),
      pm_cache = (case given of Some c \<Rightarrow> c | None \<Rightarrow> new_SharedPromiseCache 100),
      pm_decompress = (case decompress of Some d \<Rightarrow> d | None \<Rightarrow> default_decompress)\<rparr>"

section \<open>What the reader relies on\<close>

text \<open>
  A cache over an archive that does not change: the header is the archive's, the bytes of a range can be
  read from the source, for any version or for the one of the header, and every operation keeps the
  cache and the source good.
\<close>

locale archive_reader =
  fixes ops :: "('c, 's) cache_ops"
    and env :: "'s env"
    and hdr :: any_header
    and bytes_at :: "int \<Rightarrow> int \<Rightarrow> bytes option"
    and good :: "'c \<times> 's \<Rightarrow> bool"
  assumes get_header: "good st \<Longrightarrow> \<exists>st'. c_getHeader ops env st = (Inr hdr, st') \<and> good st'"
    and get_bytes: "good st \<Longrightarrow> bytes_at off l = Some b \<Longrightarrow> tag = None \<or> tag = h_tag hdr
      \<Longrightarrow> \<exists>r st'. on_source (e_get env off l tag) st = (Inr r, st') \<and> rr_data r = b \<and> good st'"
    and drop_header: "good st \<Longrightarrow> good (c_invalidate ops env st)"

text \<open>The directories of an archive are sorted, and their offsets are exact numbers.\<close>

definition dir_fits :: "header \<Rightarrow> entry list \<Rightarrow> bool" where
  "dir_fits h es \<longleftrightarrow> strictly_sorted es \<and> list_all entry_ok es
     \<and> list_all (\<lambda>e. 0 \<le> tileDataOffset h + offset e \<and> tileDataOffset h + offset e \<le> 2 ^ 53
         \<and> 0 \<le> leafDirectoryOffset h + offset e \<and> leafDirectoryOffset h + offset e \<le> 2 ^ 53) es"

text \<open>Version 3: a directory that can be read comes back as it is in the archive, and is searchable.\<close>

locale tile_cache = archive_reader ops env "V3 hdr" bytes_at good
  for ops :: "('c, 's) cache_ops" and env :: "'s env" and hdr :: header
    and bytes_at :: "int \<Rightarrow> int \<Rightarrow> bytes option" and good :: "'c \<times> 's \<Rightarrow> bool" +
  fixes dirs :: "int \<Rightarrow> int \<Rightarrow> entry list option"
  assumes get_directory: "good st \<Longrightarrow> dirs off l = Some es
      \<Longrightarrow> \<exists>st'. c_getDirectory ops env off l (V3 hdr) st = (Inr es, st') \<and> good st'"
    and fits: "dirs off l = Some es \<Longrightarrow> dir_fits hdr es"

text \<open>
  What the users of a \<^verbatim>\<open>PMTiles\<close> object rely on, whatever the version: the header, and for the tiles
  of the levels 0 to 26 what the archive holds.
\<close>

abbreviation contents :: "js_error + tile option \<Rightarrow> js_error + bytes option" where
  "contents \<equiv> map_sum id (map_option tile_data)"

definition tile_place :: "nat \<Rightarrow> int \<Rightarrow> int \<Rightarrow> bool" where
  "tile_place z x y \<longleftrightarrow> z \<le> 26 \<and> 0 \<le> x \<and> x < 2 ^ z \<and> 0 \<le> y \<and> y < 2 ^ z"

locale tile_service =
  fixes ops :: "('c, 's) cache_ops"
    and env :: "'s env"
    and hdr :: any_header
    and held :: "nat \<Rightarrow> int \<Rightarrow> int \<Rightarrow> (js_error + bytes option) option"
    and good :: "'c \<times> 's \<Rightarrow> bool"
  assumes serve_header: "good st \<Longrightarrow> \<exists>st'. getHeader ops env st = (Inr hdr, st') \<and> good st'"
    and serve_tile: "good st \<Longrightarrow> tile_place z x y \<Longrightarrow> held z x y = Some r
      \<Longrightarrow> \<exists>t st'. getZxy ops env z (of_int x) (of_int y) st = (t, st') \<and> contents t = r \<and> good st'"

text \<open>
  What a version 3 archive holds for a tile: at most four levels of directories, searched one entry after
  the other, and the bytes of the entry, unpacked. \<open>None\<close> is an archive that cannot be read there.
\<close>

fun archive_tile ::
  "(int \<Rightarrow> int \<Rightarrow> entry list option) \<Rightarrow> (int \<Rightarrow> int \<Rightarrow> bytes option) \<Rightarrow> (bytes \<Rightarrow> js_error + bytes)
    \<Rightarrow> header \<Rightarrow> int \<Rightarrow> nat \<Rightarrow> int \<Rightarrow> int \<Rightarrow> (js_error + bytes option) option"
where
  "archive_tile dirs bytes_at unpack h t 0 off l = Some (Inl (Error ''Maximum directory depth exceeded''))"
| "archive_tile dirs bytes_at unpack h t (Suc n) off l =
     (case dirs off l of
        None \<Rightarrow> None
      | Some es \<Rightarrow>
          (case find_linear es t of
             None \<Rightarrow> Some (Inr None)
           | Some e \<Rightarrow>
               if runLength e > 0 then
                 (case bytes_at (tileDataOffset h + offset e) (len e) of
                    None \<Rightarrow> None
                  | Some b \<Rightarrow> Some (map_sum id Some (unpack b)))
               else archive_tile dirs bytes_at unpack h t n (leafDirectoryOffset h + offset e) (len e)))"

text \<open>The same from the header on.\<close>

definition held_tile ::
  "(int \<Rightarrow> int \<Rightarrow> entry list option) \<Rightarrow> (int \<Rightarrow> int \<Rightarrow> bytes option) \<Rightarrow> (bytes \<Rightarrow> js_error + bytes)
    \<Rightarrow> header \<Rightarrow> nat \<Rightarrow> int \<Rightarrow> int \<Rightarrow> (js_error + bytes option) option"
where
  "held_tile dirs bytes_at unpack h z x y =
     (if specVersion h \<noteq> 3 then None
      else if minZoom h \<le> int z \<and> int z \<le> maxZoom h then
        archive_tile dirs bytes_at unpack h (tile_base z + hil_enc z (x, y)) 4 (rootDirectoryOffset h) (rootDirectoryLength h)
      else Some (Inr None))"

lemma tile_range:
  assumes "z \<le> 26" and "0 \<le> x" and "x < 2 ^ z" and "0 \<le> y" and "y < 2 ^ z"
  shows "0 \<le> tile_base z + hil_enc z (x, y)" and "tile_base z + hil_enc z (x, y) \<le> 2 ^ 53"
proof -
  have "0 \<le> hil_enc z (x, y) \<and> hil_enc z (x, y) < 2 ^ z * 2 ^ z" by (rule hil_enc_range)
  moreover have "tile_base (Suc z) \<le> tile_base 27" using assms(1) by (intro tile_base_mono) simp
  ultimately show "0 \<le> tile_base z + hil_enc z (x, y)" and "tile_base z + hil_enc z (x, y) \<le> 2 ^ 53"
    using tile_base_nonneg[of z] tile_base_27 by (simp_all del: tile_base.simps add: tile_base.simps(2))
qed

section \<open>Every version\<close>

context archive_reader begin

text \<open>A retry starts from a good state again, so it gives the same.\<close>

lemma with_retry_correct:
  assumes "\<And>st. good st \<Longrightarrow> \<exists>x st'. attempt st = (x, st') \<and> Q x \<and> good st'" and "good st"
  shows "\<exists>x st'. with_retry ops env attempt st = (x, st') \<and> Q x \<and> good st'"
proof -
  obtain x st1 where 1: "attempt st = (x, st1)" "Q x" "good st1" using assms by blast
  obtain y st2 where 2: "attempt (c_invalidate ops env st1) = (y, st2)" "Q y" "good st2"
    using assms(1) drop_header[OF 1(3)] by blast
  from 1 2 show ?thesis by (cases x; cases st1; cases st2) (auto simp: with_retry_def)
qed

lemma getMetadata_correct:
  assumes "good st" and "bytes_at (h_jsonMetadataOffset hdr) (h_jsonMetadataLength hdr) = Some b"
  shows "\<exists>st'. getMetadata ops env st
    = (bind_sum (e_tile_decompress env b (h_internalCompression hdr)) (e_json env), st') \<and> good st'"
proof -
  have "\<exists>x st'. getMetadataAttempt ops env st = (x, st')
      \<and> x = bind_sum (e_tile_decompress env b (h_internalCompression hdr)) (e_json env) \<and> good st'" if g0: "good st" for st
  proof -
    obtain st1 where h: "c_getHeader ops env st = (Inr hdr, st1)" "good st1"
      using get_header[OF g0] by blast
    obtain x st2 where g: "on_source (e_get env (h_jsonMetadataOffset hdr) (h_jsonMetadataLength hdr) (h_tag hdr)) st1 = (Inr x, st2)"
      "rr_data x = b" "good st2"
      using get_bytes[OF h(2) assms(2)] by blast
    with h show ?thesis
      by (cases "e_tile_decompress env b (h_internalCompression hdr)") (simp_all add: getMetadataAttempt_def)
  qed
  from with_retry_correct[OF this assms(1)] show ?thesis by (auto simp: getMetadata_def)
qed

lemma getTileJson_correct:
  assumes "good st" and "bytes_at (h_jsonMetadataOffset hdr) (h_jsonMetadataLength hdr) = Some b"
  shows "\<exists>st'. getTileJson ops env u st
    = (bind_sum (bind_sum (e_tile_decompress env b (h_internalCompression hdr)) (e_json env)) (tile_json u hdr), st')
    \<and> good st'"
proof -
  obtain st1 where h: "getHeader ops env st = (Inr hdr, st1)" "good st1"
    using get_header[OF assms(1)] by (auto simp: getHeader_def)
  from getMetadata_correct[OF h(2) assms(2)] h show ?thesis
    by (cases "bind_sum (e_tile_decompress env b (h_internalCompression hdr)) (e_json env)")
      (auto simp: getTileJson_def)
qed

end

section \<open>Version 3\<close>

context tile_cache begin

lemma read_tile_correct:
  assumes "good st" and "archive_tile dirs bytes_at (\<lambda>b. e_tile_decompress env b (tileCompression hdr)) hdr t n off l = Some r"
    and "0 \<le> t" and "t \<le> 2 ^ 53"
  shows "\<exists>x st'. read_tile ops env (V3 hdr) (of_int t) n off l st = (x, st') \<and> contents x = r \<and> good st'"
  using assms(1,2)
proof (induction n arbitrary: st off l)
  case (Suc n)
  obtain es where es: "dirs off l = Some es" using Suc.prems(2) by (auto split: option.splits)
  have f: "dir_fits hdr es" using es by (rule fits)
  then have ft: "findTile es (of_int t) = find_linear es t"
    using findTile_eq_find_linear[of es t] assms(3,4) by (simp add: dir_fits_def)
  obtain st1 where d: "c_getDirectory ops env off l (V3 hdr) st = (Inr es, st1)" "good st1"
    using get_directory[OF Suc.prems(1) es] by blast
  show ?case
  proof (cases "find_linear es t")
    case None
    with Suc.prems es d ft show ?thesis by auto
  next
    case (Some e)
    then have "e \<in> set es" using find_linear_iff[of es t e] f by (simp add: dir_fits_def)
    with f have b: "\<bar>tileDataOffset hdr + offset e\<bar> \<le> 2 ^ 53" "\<bar>leafDirectoryOffset hdr + offset e\<bar> \<le> 2 ^ 53"
      by (auto simp: dir_fits_def list_all_iff)
    note step = es d(1) ft Some b
    show ?thesis
    proof (cases "runLength e > 0")
      case True
      then obtain bs where bs: "bytes_at (tileDataOffset hdr + offset e) (len e) = Some bs"
        and r: "r = map_sum id Some (e_tile_decompress env bs (tileCompression hdr))"
        using Suc.prems(2) es Some by (auto split: option.splits)
      obtain x st2 where "on_source (e_get env (tileDataOffset hdr + offset e) (len e) (etag hdr)) st1 = (Inr x, st2)"
        "rr_data x = bs" "good st2"
        using get_bytes[OF d(2) bs, of "etag hdr"] by (auto simp: h_tag_def)
      with step True r show ?thesis
        by (cases "e_tile_decompress env bs (tileCompression hdr)")
          (simp_all add: h_tileDataOffset_def h_tag_def h_tileCompression_def)
    next
      case False
      then have "archive_tile dirs bytes_at (\<lambda>b. e_tile_decompress env b (tileCompression hdr)) hdr t n
          (leafDirectoryOffset hdr + offset e) (len e) = Some r"
        using Suc.prems(2) es Some by simp
      from Suc.IH[OF d(2) this] False step show ?thesis
        by (simp add: h_leafDirectoryOffset_def)
    qed
  qed
qed simp

lemma getZxyAttempt_correct:
  assumes "good st" and "z \<le> 26" and "0 \<le> x" and "x < 2 ^ z" and "0 \<le> y" and "y < 2 ^ z"
    and "specVersion hdr = 3"
    and r: "(if minZoom hdr \<le> int z \<and> int z \<le> maxZoom hdr then
        archive_tile dirs bytes_at (\<lambda>b. e_tile_decompress env b (tileCompression hdr)) hdr
          (tile_base z + hil_enc z (x, y)) 4 (rootDirectoryOffset hdr) (rootDirectoryLength hdr)
      else Some (Inr None)) = Some r"
  shows "\<exists>t st'. getZxyAttempt ops env z (of_int x) (of_int y) st = (t, st') \<and> contents t = r \<and> good st'"
proof -
  let ?t = "tile_base z + hil_enc z (x, y)"
  have t: "zxyToTileId z (of_int x) (of_int y) = Inr (of_int ?t)"
    using assms(2-6) by (intro zxyToTileId_correct) simp_all
  have "0 \<le> ?t" "?t \<le> 2 ^ 53"
    using tile_range[OF assms(2-6)] by simp_all
  obtain st1 where h: "c_getHeader ops env st = (Inr (V3 hdr), st1)" "good st1"
    using get_header[OF assms(1)] by blast
  show ?thesis
  proof (cases "minZoom hdr \<le> int z \<and> int z \<le> maxZoom hdr")
    case True
    with r read_tile_correct[OF h(2) _ \<open>0 \<le> ?t\<close> \<open>?t \<le> 2 ^ 53\<close>, of 4 "rootDirectoryOffset hdr" "rootDirectoryLength hdr" r]
      h(1) t assms(7) show ?thesis
      by (auto simp: getZxyAttempt_def h_spec_def h_minZoom_def h_maxZoom_def jless_def finite_value_def
          h_rootOffset_def h_rootLength_def simp del: read_tile.simps archive_tile.simps)
  next
    case False
    with r h t assms(7) show ?thesis
      by (cases st1) (auto simp: getZxyAttempt_def h_spec_def h_minZoom_def h_maxZoom_def jless_def finite_value_def)
  qed
qed

lemma getZxy_correct:
  assumes "good st" and "z \<le> 26" and "0 \<le> x" and "x < 2 ^ z" and "0 \<le> y" and "y < 2 ^ z"
    and "specVersion hdr = 3"
    and "(if minZoom hdr \<le> int z \<and> int z \<le> maxZoom hdr then
        archive_tile dirs bytes_at (\<lambda>b. e_tile_decompress env b (tileCompression hdr)) hdr
          (tile_base z + hil_enc z (x, y)) 4 (rootDirectoryOffset hdr) (rootDirectoryLength hdr)
      else Some (Inr None)) = Some r"
  shows "\<exists>t st'. getZxy ops env z (of_int x) (of_int y) st = (t, st') \<and> contents t = r \<and> good st'"
  unfolding getZxy_def
  by (rule with_retry_correct[OF _ assms(1)], rule getZxyAttempt_correct) (use assms(2-) in auto)

end

sublocale tile_cache \<subseteq> tile_service ops env "V3 hdr"
  "held_tile dirs bytes_at (\<lambda>b. e_tile_decompress env b (tileCompression hdr)) hdr" good
proof (unfold_locales, goal_cases)
  case (1 st)
  then show ?case using get_header by (simp add: getHeader_def)
next
  case (2 st z x y r)
  then show ?case
    by (intro getZxy_correct) (auto simp: tile_place_def held_tile_def split: if_splits)
qed

end
