(* ===== verification/Transparency.thy ===== *)
theory Transparency
  imports Reader Archive_Slots
begin

text \<open>
  The caches cannot be seen in what is read. Over an archive that stays what it is, the reader with
  either cache returns what the archive holds: both caches are instances of the interface the reader
  relies on, for every source that answers ranges, such as a local file or a server.
\<close>

section \<open>An archive\<close>

definition bytes_of :: "bytes \<Rightarrow> int \<Rightarrow> int \<Rightarrow> bytes option" where
  "bytes_of a off l =
     (if 0 \<le> off \<and> off < int (length a) \<and> 0 < l \<and> off + l < 2 ^ 53 then Some (take (nat l) (drop (nat off) a))
      else None)"

text \<open>A directory, when its bytes unpack and parse to one that is sorted and not empty.\<close>

definition dir_of :: "'s env \<Rightarrow> bytes \<Rightarrow> header \<Rightarrow> int \<Rightarrow> int \<Rightarrow> entry list option" where
  "dir_of env a h off l =
     (case bytes_of a off l of
        None \<Rightarrow> None
      | Some b \<Rightarrow>
          (case bind_sum (e_decompress env b (internalCompression h)) deserializeIndex of
             Inl e \<Rightarrow> None
           | Inr es \<Rightarrow> if es \<noteq> [] \<and> dir_fits h es then Some es else None))"

text \<open>
  The archive starts with a header of version 3, and the first 16384 bytes, which are read with it,
  hold the root directory.
\<close>

definition archive_ok :: "'s env \<Rightarrow> bytes \<Rightarrow> header \<Rightarrow> bool" where
  "archive_ok env a h \<longleftrightarrow>
     getUint16 (take 16384 a) 0 = Inr 19792 \<and> detectVersion (take 16384 a) = Inr 3
     \<and> bytesToHeader (slice (take 16384 a) 0 HEADER_SIZE_BYTES) (etag h) = Inr h
     \<and> rootDirectoryOffset h + rootDirectoryLength h \<le> 16384
     \<and> dir_of env a h (rootDirectoryOffset h) (rootDirectoryLength h) \<noteq> None"

text \<open>The source answers for the archive, in the version the header was read from.\<close>

definition world :: "'s env \<Rightarrow> ('s \<Rightarrow> bytes) \<Rightarrow> ('s \<Rightarrow> string option) \<Rightarrow> ('s \<Rightarrow> bool) \<Rightarrow> bytes \<Rightarrow> header \<Rightarrow> 's \<Rightarrow> bool" where
  "world env archive version ok a h s \<longleftrightarrow>
     byte_source (e_get env) archive version ok \<and> archive_ok env a h \<and> ok s \<and> archive s = a \<and> version s = etag h"

lemma source_get:
  assumes "byte_source (e_get env) archive version ok" and "ok s" and "archive s = a" and "version s = t"
    and "bytes_of a off l = Some b" and "tag = None \<or> tag = t"
  shows "\<exists>r s'. e_get env off l tag s = (Inr r, s') \<and> rr_data r = b \<and> rr_etag r = t
    \<and> ok s' \<and> archive s' = a \<and> version s' = t"
proof -
  have b: "0 \<le> off" "off < int (length a)" "0 < l" "off + l < 2 ^ 53" "b = take (nat l) (drop (nat off) a)"
    using assms(5) by (auto simp: bytes_of_def split: if_splits)
  from byte_source.get_range[OF assms(1,2), of off l tag] b assms(3,4,6) show ?thesis by auto
qed

lemma world_get:
  assumes "world env archive version ok a h s" and "bytes_of a off l = Some b" and "tag = None \<or> tag = etag h"
  obtains r s' where "e_get env off l tag s = (Inr r, s')" "rr_data r = b" "rr_etag r = etag h"
    "world env archive version ok a h s'"
proof -
  have w: "byte_source (e_get env) archive version ok" "ok s" "archive s = a" "version s = etag h"
    using assms(1) by (simp_all add: world_def)
  from source_get[OF w assms(2,3)] show thesis using that assms(1) by (auto simp: world_def)
qed

lemma dir_ofE:
  assumes "dir_of env a h off l = Some es"
  obtains b raw where "bytes_of a off l = Some b" "e_decompress env b (internalCompression h) = Inr raw"
    "deserializeIndex raw = Inr es" "es \<noteq> []" "dir_fits h es"
  using assms by (auto simp: dir_of_def bind_sum_def split: option.splits sum.splits if_splits)

lemma dir_of_fits: "dir_of env a h off l = Some es \<Longrightarrow> dir_fits h es"
  by (erule dir_ofE)

lemma fetch_directory_world:
  assumes "world env archive version ok a h s" and "dir_of env a h off l = Some es"
  shows "\<exists>s'. fetch_directory env off l (V3 h) s = (Inr es, s') \<and> world env archive version ok a h s'"
proof -
  obtain b raw where d: "bytes_of a off l = Some b" "e_decompress env b (internalCompression h) = Inr raw"
    "deserializeIndex raw = Inr es" "es \<noteq> []"
    using assms(2) by (rule dir_ofE)
  obtain r s' where "e_get env off l (etag h) s = (Inr r, s')" "rr_data r = b" "world env archive version ok a h s'"
    using world_get[OF assms(1) d(1)] by blast
  with d show ?thesis
    by (simp add: fetch_directory_def h_tag_def h_internalCompression_def)
qed

definition root_key :: "'s env \<Rightarrow> header \<Rightarrow> string" where
  "root_key env h = dir_key (e_key env) (etag h) (rootDirectoryOffset h) (rootDirectoryLength h)"

lemma getHeaderAndRoot_world:
  assumes "world env archive version ok a h s"
  shows "\<exists>es s'. getHeaderAndRoot env s = (Inr (V3 h, Some (root_key env h, es)), s')
    \<and> dir_of env a h (rootDirectoryOffset h) (rootDirectoryLength h) = Some es
    \<and> world env archive version ok a h s'"
proof -
  have ok: "archive_ok env a h" using assms by (simp add: world_def)
  then have ne: "0 < length a" by (auto simp: archive_ok_def getUint16_def split: if_splits)
  then have "bytes_of a 0 16384 = Some (take 16384 a)" by (simp add: bytes_of_def)
  then obtain r s' where g: "e_get env 0 16384 None s = (Inr r, s')" "rr_data r = take 16384 a"
    "rr_etag r = etag h" "world env archive version ok a h s'"
    by (rule world_get[OF assms, where tag = None, simplified])
  obtain es where es: "dir_of env a h (rootDirectoryOffset h) (rootDirectoryLength h) = Some es"
    using ok by (auto simp: archive_ok_def)
  then obtain b raw where d: "bytes_of a (rootDirectoryOffset h) (rootDirectoryLength h) = Some b"
    "e_decompress env b (internalCompression h) = Inr raw" "deserializeIndex raw = Inr es"
    by (rule dir_ofE)
  have r: "0 \<le> rootDirectoryOffset h" "0 < rootDirectoryLength h" "rootDirectoryOffset h + rootDirectoryLength h \<le> 16384"
    using d(1) ok by (auto simp: bytes_of_def archive_ok_def split: if_splits)
  have "slice (take 16384 a) (rootDirectoryOffset h) (fli (rootDirectoryOffset h + rootDirectoryLength h)) = b"
  proof -
    have f: "fli (rootDirectoryOffset h + rootDirectoryLength h) = rootDirectoryOffset h + rootDirectoryLength h"
      using r by (intro fli_exact) simp
    have n: "nat (rootDirectoryOffset h + rootDirectoryLength h) - nat (rootDirectoryOffset h) = nat (rootDirectoryLength h)"
      "nat (rootDirectoryLength h) \<le> 16384 - nat (rootDirectoryOffset h)"
      using r by linarith+
    then show ?thesis
      using d(1) unfolding slice_def f n(1) drop_take take_take by (simp add: bytes_of_def min_absorb1 split: if_splits)
  qed
  with g ok d show ?thesis
    by (intro exI[of _ es] exI[of _ s'])
       (simp add: getHeaderAndRoot_def archive_ok_def parse_root_def Let_def root_key_def es)
qed

section \<open>Both caches\<close>

text \<open>The parts of a version 3 archive are its directories.\<close>

definition parts_of :: "'s env \<Rightarrow> bytes \<Rightarrow> header \<Rightarrow> parts" where
  "parts_of env a h off l = map_option C_dir (dir_of env a h off l)"

abbreviation rv_coherent :: "'s env \<Rightarrow> bytes \<Rightarrow> header \<Rightarrow> rcache \<Rightarrow> bool" where
  "rv_coherent env a h \<equiv> rv_slots_right (e_key env) (V3 h) (parts_of env a h)"

abbreviation pc_coherent :: "'s env \<Rightarrow> bytes \<Rightarrow> header \<Rightarrow> pcache \<Rightarrow> bool" where
  "pc_coherent env a h \<equiv> pc_slots_right (e_key env) (V3 h) (parts_of env a h)"

definition rv_good ::
  "'s env \<Rightarrow> ('s \<Rightarrow> bytes) \<Rightarrow> ('s \<Rightarrow> string option) \<Rightarrow> ('s \<Rightarrow> bool) \<Rightarrow> bytes \<Rightarrow> header \<Rightarrow> rcache \<times> 's \<Rightarrow> bool" where
  "rv_good env archive version ok a h st \<longleftrightarrow>
     world env archive version ok a h (snd st) \<and> rv_coherent env a h (fst st)"

definition pc_good ::
  "'s env \<Rightarrow> ('s \<Rightarrow> bytes) \<Rightarrow> ('s \<Rightarrow> string option) \<Rightarrow> ('s \<Rightarrow> bool) \<Rightarrow> bytes \<Rightarrow> header \<Rightarrow> pcache \<times> 's \<Rightarrow> bool" where
  "pc_good env archive version ok a h st \<longleftrightarrow>
     world env archive version ok a h (snd st) \<and> pc_coherent env a h (fst st)"

lemma bytes_of_range: "bytes_of a off l = Some b \<Longrightarrow> exact_range off l"
  by (auto simp: bytes_of_def exact_range_def split: if_splits)

lemma parts_of_range: "parts_of env a h off l = Some v \<Longrightarrow> exact_range off l"
  by (auto simp: parts_of_def elim!: dir_ofE dest: bytes_of_range)

lemma part_slot_right:
  assumes "dir_of env a h off l = Some es"
  shows "slot_right (e_key env) (V3 h) (parts_of env a h) (dir_key (e_key env) (etag h) off l) (C_dir es)"
proof -
  have p: "parts_of env a h off l = Some (C_dir es)" using assms by (simp add: parts_of_def)
  have "v = C_dir es" if "parts_of env a h off' l' = Some v"
    "dir_key (e_key env) (etag h) off l = dir_key (e_key env) (etag h) off' l'" for off' l' v
    using dir_key_inj[OF that(2) parts_of_range[OF p] parts_of_range[OF that(1)]] p that(1) by simp
  then show ?thesis by (auto simp: slot_right_def h_tag_def)
qed

interpretation v3_archive: served_archive env "V3 h" "parts_of env a h" "world env archive version ok a h"
  for env :: "'s env" and h a archive version ok
proof (unfold_locales, goal_cases)
  case (1 off l v)
  then show ?case by (rule parts_of_range)
next
  case (2 s)
  then obtain es s' where f: "getHeaderAndRoot env s = (Inr (V3 h, Some (root_key env h, es)), s')"
    "dir_of env a h (rootDirectoryOffset h) (rootDirectoryLength h) = Some es" "world env archive version ok a h s'"
    using getHeaderAndRoot_world[of env archive version ok a h s] by blast
  from part_slot_right[OF f(2)] f(1,3) show ?case by (auto simp: root_right_def root_key_def)
next
  case (3 s off l v)
  then obtain es where es: "dir_of env a h off l = Some es" "v = C_dir es" by (auto simp: parts_of_def)
  from fetch_directory_world[OF 3(1) es(1)] es(2) show ?case by (auto simp: part_task_def run_task_def)
qed

lemma bytes_law:
  assumes "world env archive version ok a h s" and "bytes_of a off l = Some b" and "tag = None \<or> tag = etag h"
  shows "\<exists>r s'. on_source (e_get env off l tag) (c, s) = (Inr r, c, s') \<and> rr_data r = b
    \<and> world env archive version ok a h s'"
proof -
  obtain r s' where "e_get env off l tag s = (Inr r, s')" "rr_data r = b" "world env archive version ok a h s'"
    using world_get[OF assms] by blast
  then show ?thesis by (simp add: on_source_def)
qed

interpretation value_cache: tile_cache resolved_ops env h "bytes_of a" "rv_good env archive version ok a h" "dir_of env a h"
  for env :: "'s env" and h a archive version ok
proof (unfold_locales, goal_cases)
  case (1 st)
  then show ?case using v3_archive.rv_header_right[of env h a "fst st" archive version ok "snd st"]
    by (auto simp: rv_good_def resolved_ops_def)
next
  case (2 st off l b tag)
  then show ?case using bytes_law[of env archive version ok a h "snd st" off l b tag "fst st"]
    by (auto simp: rv_good_def h_tag_def)
next
  case (3 st)
  then show ?case by (cases st) (simp add: rv_good_def resolved_ops_def rv_invalidate_def rv_slots_right_delete)
next
  case (4 st off l es)
  obtain s' where f: "fetch_directory env off l (V3 h) (snd st) = (Inr es, s')" "world env archive version ok a h s'"
    using 4 fetch_directory_world[of env archive version ok a h "snd st" off l es] by (auto simp: rv_good_def)
  have p: "parts_of env a h off l = Some (C_dir es)" using 4(2) by (simp add: parts_of_def)
  from v3_archive.rv_part_right[where fetch = "fetch_directory env off l (V3 h)" and wrap = C_dir and read = as_dir
      and s = "snd st" and r = es and c = "fst st" and archive = archive and version = version and ok = ok, OF _ _ p f] 4(1)
  show ?case by (auto simp: rv_good_def resolved_ops_def rv_getDirectory_def Let_def)
next
  case (5 off l es)
  then show ?case by (rule dir_of_fits)
qed

interpretation shared_cache: tile_cache promise_ops env h "bytes_of a" "pc_good env archive version ok a h" "dir_of env a h"
  for env :: "'s env" and h a archive version ok
proof (unfold_locales, goal_cases)
  case (1 st)
  then show ?case using v3_archive.pc_header_right[of env h a "fst st" archive version ok "snd st"]
    by (auto simp: pc_good_def promise_ops_def)
next
  case (2 st off l b tag)
  then show ?case using bytes_law[of env archive version ok a h "snd st" off l b tag "fst st"]
    by (auto simp: pc_good_def h_tag_def)
next
  case (3 st)
  then show ?case by (cases st) (simp add: pc_good_def promise_ops_def pc_slots_right_invalidate)
next
  case (4 st off l es)
  have p: "parts_of env a h off l = Some (C_dir es)" using 4(2) by (simp add: parts_of_def)
  from v3_archive.pc_part_right[where read = as_dir and c = "fst st" and s = "snd st" and archive = archive
      and version = version and ok = ok, OF _ _ p] 4(1)
  show ?case by (auto simp: pc_good_def promise_ops_def pc_getDirectory_def part_task_def)
next
  case (5 off l es)
  then show ?case by (rule dir_of_fits)
qed

section \<open>Properties\<close>

text \<open>What an archive holds for a tile, from its header on.\<close>

definition tile_of :: "'s env \<Rightarrow> bytes \<Rightarrow> header \<Rightarrow> nat \<Rightarrow> int \<Rightarrow> int \<Rightarrow> (js_error + bytes option) option" where
  "tile_of env a h z x y =
     (if minZoom h \<le> int z \<and> int z \<le> maxZoom h then
        archive_tile (dir_of env a h) (bytes_of a) (\<lambda>b. e_tile_decompress env b (tileCompression h)) h
          (tile_base z + hil_enc z (x, y)) 4 (rootDirectoryOffset h) (rootDirectoryLength h)
      else Some (Inr None))"

lemma held_tile_of:
  "specVersion h = 3 \<Longrightarrow>
    held_tile (dir_of env a h) (bytes_of a) (\<lambda>b. e_tile_decompress env b (tileCompression h)) h z x y = tile_of env a h z x y"
  by (simp add: held_tile_def tile_of_def)

lemma shared_getZxy:
  assumes "pc_good env archive version ok a h st" and "specVersion h = 3"
    and "z \<le> 26" and "0 \<le> x" and "x < 2 ^ z" and "0 \<le> y" and "y < 2 ^ z" and "tile_of env a h z x y = Some r"
  shows "\<exists>t st'. getZxy promise_ops env z (of_int x) (of_int y) st = (t, st') \<and> contents t = r
    \<and> pc_good env archive version ok a h st'"
  using shared_cache.serve_tile[OF assms(1)] assms(2-8) by (simp add: held_tile_of tile_place_def)

lemma value_getZxy:
  assumes "rv_good env archive version ok a h st" and "specVersion h = 3"
    and "z \<le> 26" and "0 \<le> x" and "x < 2 ^ z" and "0 \<le> y" and "y < 2 ^ z" and "tile_of env a h z x y = Some r"
  shows "\<exists>t st'. getZxy resolved_ops env z (of_int x) (of_int y) st = (t, st') \<and> contents t = r
    \<and> rv_good env archive version ok a h st'"
  using value_cache.serve_tile[OF assms(1)] assms(2-8) by (simp add: held_tile_of tile_place_def)

text \<open>
  C1: Reading through the default cache refines reading the archive. From any good state of cache and
  source, \<^verbatim>\<open>getZxy\<close> gives for a tile of the levels 0 to 26 exactly what the archive holds for it,
  found by a linear search of its directories: its unpacked bytes, that there is no such tile, or the
  error of the decompressor or of a fifth level of directories; and the state stays good.
\<close>

theorem getZxy_refines_archive:
  assumes "pc_good env archive version ok a h st" and "specVersion h = 3"
    and "z \<le> 26" and "0 \<le> x" and "x < 2 ^ z" and "0 \<le> y" and "y < 2 ^ z" and "tile_of env a h z x y = Some r"
  shows "\<exists>t st'. getZxy promise_ops env z (of_int x) (of_int y) st = (t, st') \<and> contents t = r
    \<and> pc_good env archive version ok a h st'"
  using assms by (rule shared_getZxy)

text \<open>
  C27: The two caches cannot be told apart by what is read: over the same archive the reader gives
  the same tiles and the same metadata with either, from any good states of the two.
\<close>

theorem caches_agree:
  assumes "pc_good env archive version ok a h st1" and "rv_good env archive version ok a h st2"
    and "specVersion h = 3" and "z \<le> 26" and "0 \<le> x" and "x < 2 ^ z" and "0 \<le> y" and "y < 2 ^ z"
    and "tile_of env a h z x y \<noteq> None" and "bytes_of a (jsonMetadataOffset h) (jsonMetadataLength h) \<noteq> None"
  shows "contents (fst (getZxy promise_ops env z (of_int x) (of_int y) st1))
      = contents (fst (getZxy resolved_ops env z (of_int x) (of_int y) st2))
    \<and> fst (getMetadata promise_ops env st1) = fst (getMetadata resolved_ops env st2)"
proof -
  obtain r where r: "tile_of env a h z x y = Some r" using assms(9) by blast
  obtain b where b: "bytes_of a (jsonMetadataOffset h) (jsonMetadataLength h) = Some b" using assms(10) by blast
  from shared_getZxy[OF assms(1,3-8) r] value_getZxy[OF assms(2,3-8) r]
    shared_cache.getMetadata_correct[OF assms(1), of b] value_cache.getMetadata_correct[OF assms(2), of b] b
  show ?thesis by (auto simp: h_jsonMetadataOffset_def h_jsonMetadataLength_def)
qed

section \<open>An archive of one directory\<close>

text \<open>
  An archive made of a header, one directory as it is stored, and the tiles. The header describes it,
  and the entries lie in the tiles.
\<close>

definition built_archive :: "header \<Rightarrow> bytes \<Rightarrow> bytes \<Rightarrow> bytes" where
  "built_archive h rd tiles = header_bytes h @ rd @ tiles"

definition built_ok :: "header \<Rightarrow> entry list \<Rightarrow> bytes \<Rightarrow> bytes \<Rightarrow> bool" where
  "built_ok h es rd tiles \<longleftrightarrow>
     header_ok h \<and> specVersion h = 3 \<and> rd \<noteq> []
     \<and> rootDirectoryOffset h = 127 \<and> rootDirectoryLength h = int (length rd)
     \<and> 127 + rootDirectoryLength h \<le> 16384 \<and> tileDataOffset h = 127 + rootDirectoryLength h
     \<and> 0 \<le> leafDirectoryOffset h \<and> leafDirectoryOffset h + int (length tiles) \<le> 2 ^ 53
     \<and> 127 + rootDirectoryLength h + int (length tiles) < 2 ^ 53
     \<and> es \<noteq> [] \<and> dir_ok es \<and> strictly_sorted es
     \<and> list_all (\<lambda>e. 0 < runLength e \<and> 0 < len e \<and> offset e + len e \<le> int (length tiles)) es"

text \<open>The stored bytes of an entry, and what the environment unpacks: the directory, and the tile of each entry.\<close>

definition stored_tile :: "bytes \<Rightarrow> entry \<Rightarrow> bytes" where
  "stored_tile tiles e = take (nat (len e)) (drop (nat (offset e)) tiles)"

definition unpacks :: "'s env \<Rightarrow> header \<Rightarrow> entry list \<Rightarrow> bytes \<Rightarrow> bytes \<Rightarrow> (entry \<Rightarrow> bytes) \<Rightarrow> bool" where
  "unpacks env h es rd tiles dat \<longleftrightarrow>
     e_decompress env rd (internalCompression h) = Inr (serializeIndex es)
     \<and> (\<forall>e \<in> set es. e_tile_decompress env (stored_tile tiles e) (tileCompression h) = Inr (dat e))"

lemma bytes_of_built:
  assumes "0 \<le> off" and "0 < l" and "off + l \<le> int (length tiles)"
    and "127 + int (length rd) + int (length tiles) < 2 ^ 53"
  shows "bytes_of (built_archive h rd tiles) (127 + int (length rd) + off) l
    = Some (take (nat l) (drop (nat off) tiles))"
proof -
  have n: "nat (127 + int (length rd) + off) = 127 + length rd + nat off"
    using assms(1) by linarith
  show ?thesis
    using assms unfolding bytes_of_def n
    by (simp add: built_archive_def length_header_bytes)
qed

lemma dir_of_built:
  assumes "built_ok h es rd tiles" and "unpacks env h es rd tiles dat"
  shows "dir_of env (built_archive h rd tiles) h 127 (int (length rd)) = Some es"
proof -
  have "rd \<noteq> []" "127 + int (length rd) + int (length tiles) < 2 ^ 53"
    using assms(1) by (simp_all add: built_ok_def)
  moreover from this have "0 < int (length rd) + int (length tiles)" by (cases rd) simp_all
  ultimately have "bytes_of (built_archive h rd tiles) 127 (int (length rd)) = Some rd"
    by (simp add: bytes_of_def built_archive_def length_header_bytes)
  moreover have "dir_fits h es"
    using assms(1) by (auto simp: built_ok_def dir_fits_def dir_ok_def list_all_iff entry_ok_def)
  ultimately show ?thesis
    using assms parse_index_serializeIndex[of es "[]"]
    by (simp add: dir_of_def built_ok_def unpacks_def deserializeIndex_parse)
qed

lemma built_archive_ok:
  assumes "built_ok h es rd tiles" and "unpacks env h es rd tiles dat"
  shows "archive_ok env (built_archive h rd tiles) h"
proof -
  have h: "header_ok h" "rootDirectoryOffset h = 127"
    "rootDirectoryLength h = int (length rd)" "127 + rootDirectoryLength h \<le> 16384"
    using assms(1) by (simp_all add: built_ok_def)
  obtain r where t: "take 16384 (built_archive h rd tiles) = header_bytes h @ r"
    by (simp add: built_archive_def length_header_bytes)
  have "slice (header_bytes h @ r) 0 HEADER_SIZE_BYTES = header_bytes h @ []"
    by (simp add: slice_def HEADER_SIZE_BYTES_def length_header_bytes)
  then have "bytesToHeader (slice (header_bytes h @ r) 0 HEADER_SIZE_BYTES) (etag h) = Inr h"
    using bytesToHeader_header_bytes[OF h(1), of "[]" "etag h"] by simp
  then show ?thesis
    using dir_of_built[OF assms] h
    unfolding archive_ok_def t by (simp add: header_magic)
qed

lemma tile_of_built:
  assumes "built_ok h es rd tiles" and "unpacks env h es rd tiles dat"
  shows "tile_of env (built_archive h rd tiles) h z x y = Some (Inr
    (if minZoom h \<le> int z \<and> int z \<le> maxZoom h then map_option dat (find_linear es (tile_base z + hil_enc z (x, y)))
     else None))"
proof -
  let ?a = "built_archive h rd tiles" and ?t = "tile_base z + hil_enc z (x, y)"
  let ?n = "int (length rd)"
  have s: "specVersion h = 3" "rootDirectoryOffset h = 127" "rootDirectoryLength h = ?n" "tileDataOffset h = 127 + ?n"
    "127 + ?n + int (length tiles) < 2 ^ 53" "strictly_sorted es"
    using assms(1) by (simp_all add: built_ok_def)
  have "archive_tile (dir_of env ?a h) (bytes_of ?a) (\<lambda>b. e_tile_decompress env b (tileCompression h)) h ?t (Suc m) 127 ?n
    = Some (Inr (map_option dat (find_linear es ?t)))" for m
  proof (cases "find_linear es ?t")
    case None
    then show ?thesis by (simp add: dir_of_built[OF assms])
  next
    case (Some e)
    then have i: "e \<in> set es" using find_linear_iff[OF s(6), of ?t e] by simp
    with assms(1) have e: "0 < runLength e" "0 < len e" "0 \<le> offset e" "offset e + len e \<le> int (length tiles)"
      by (auto simp: built_ok_def list_all_iff dir_ok_def entry_ok_def)
    then have "bytes_of ?a (127 + ?n + offset e) (len e) = Some (stored_tile tiles e)"
      using s(5) unfolding stored_tile_def by (intro bytes_of_built) simp_all
    with Some e(1) s(4) assms(2) i show ?thesis
      by (simp add: dir_of_built[OF assms] unpacks_def)
  qed
  note one_level = this[of 3]
  have four: "(4::nat) = Suc 3" by simp
  show ?thesis unfolding tile_of_def s four one_level by simp
qed

lemma world_built:
  assumes "built_ok h es rd tiles" and "unpacks env h es rd tiles dat" and "e_get env = file_get" and "etag h = None"
  shows "world env content (\<lambda>_. None) (\<lambda>_. True) (built_archive h rd tiles) h
    \<lparr>file_name = name, content = built_archive h rd tiles\<rparr>"
  using assms built_archive_ok[OF assms(1,2)] local_file.byte_source_axioms
  by (simp add: world_def built_ok_def)

text \<open>What the reader returns for such an archive, as a local file read with a fresh default cache.\<close>

lemma built_getZxy:
  assumes "built_ok h es rd tiles" and "unpacks env h es rd tiles dat" and "e_get env = file_get" and "etag h = None"
    and "z \<le> 26" and "0 \<le> x" and "x < 2 ^ z" and "0 \<le> y" and "y < 2 ^ z"
  shows "contents (fst (getZxy promise_ops env z (of_int x) (of_int y)
      (new_SharedPromiseCache n, \<lparr>file_name = name, content = built_archive h rd tiles\<rparr>)))
    = Inr (if minZoom h \<le> int z \<and> int z \<le> maxZoom h then
        map_option dat (find_linear es (tile_base z + hil_enc z (x, y))) else None)"
proof -
  have "pc_good env content (\<lambda>_. None) (\<lambda>_. True) (built_archive h rd tiles) h
      (new_SharedPromiseCache n, \<lparr>file_name = name, content = built_archive h rd tiles\<rparr>)"
    using world_built[OF assms(1-4)] by (simp add: pc_good_def pc_slots_right_def new_SharedPromiseCache_def)
  from shared_getZxy[OF this _ assms(5-9) tile_of_built[OF assms(1,2)]] assms(1) show ?thesis
    by (auto simp: built_ok_def)
qed

definition simple_archive :: "header \<Rightarrow> entry list \<Rightarrow> bytes \<Rightarrow> bytes" where
  "simple_archive h es tiles = header_bytes h @ serializeIndex es @ tiles"

text \<open>The header describes the archive; nothing is compressed, and the entries lie in the tiles.\<close>

definition simple_ok :: "header \<Rightarrow> entry list \<Rightarrow> bytes \<Rightarrow> bool" where
  "simple_ok h es tiles \<longleftrightarrow>
     header_ok h \<and> specVersion h = 3 \<and> internalCompression h = 1 \<and> tileCompression h = 1
     \<and> rootDirectoryOffset h = 127 \<and> rootDirectoryLength h = int (length (serializeIndex es))
     \<and> 127 + rootDirectoryLength h \<le> 16384 \<and> tileDataOffset h = 127 + rootDirectoryLength h
     \<and> 0 \<le> leafDirectoryOffset h \<and> leafDirectoryOffset h + int (length tiles) \<le> 2 ^ 53
     \<and> 127 + rootDirectoryLength h + int (length tiles) < 2 ^ 53
     \<and> es \<noteq> [] \<and> dir_ok es \<and> strictly_sorted es
     \<and> list_all (\<lambda>e. 0 < runLength e \<and> 0 < len e \<and> offset e + len e \<le> int (length tiles)) es"

definition plain_env :: "'s env \<Rightarrow> bool" where
  "plain_env env \<longleftrightarrow> (\<forall>b. e_decompress env b 1 = Inr b) \<and> (\<forall>b. e_tile_decompress env b 1 = Inr b)"

lemma serializeIndex_nonempty: "0 < length (serializeIndex es)"
proof -
  have "enc_varint n \<noteq> []" for n by (subst enc_varint.simps) simp
  then show ?thesis by (simp add: serializeIndex_def enc_int_def)
qed

text \<open>The simple case: the directory and the tiles are stored as they are.\<close>

lemma simple_built:
  assumes "simple_ok h es tiles" and "plain_env env"
  shows "built_ok h es (serializeIndex es) tiles" and "unpacks env h es (serializeIndex es) tiles (stored_tile tiles)"
    and "simple_archive h es tiles = built_archive h (serializeIndex es) tiles"
  using assms serializeIndex_nonempty[of es]
  by (simp_all add: built_ok_def simple_ok_def unpacks_def plain_env_def simple_archive_def built_archive_def)

lemma tile_of_simple:
  assumes "simple_ok h es tiles" and "plain_env env"
  shows "tile_of env (simple_archive h es tiles) h z x y = Some (Inr
    (if minZoom h \<le> int z \<and> int z \<le> maxZoom h then
       map_option (stored_tile tiles) (find_linear es (tile_base z + hil_enc z (x, y)))
     else None))"
  unfolding simple_built(3)[OF assms] by (rule tile_of_built[OF simple_built(1,2)[OF assms]])

lemma simple_archive_ok:
  assumes "simple_ok h es tiles" and "plain_env env"
  shows "archive_ok env (simple_archive h es tiles) h"
  unfolding simple_built(3)[OF assms] by (rule built_archive_ok[OF simple_built(1,2)[OF assms]])

lemma world_simple:
  assumes "simple_ok h es tiles" and "plain_env env" and "e_get env = file_get" and "etag h = None"
  shows "world env content (\<lambda>_. None) (\<lambda>_. True) (simple_archive h es tiles) h
    \<lparr>file_name = name, content = simple_archive h es tiles\<rparr>"
  unfolding simple_built(3)[OF assms(1,2)]
  by (rule world_built[OF simple_built(1,2)[OF assms(1,2)] assms(3,4)])

text \<open>
  C4: What is written into an archive is what is read out of it. Take an archive made of a header, one
  directory and the tiles, as a local file read with a fresh default cache of any limit. For every
  tile of the levels 0 to 26 the reader returns the bytes the directory has for it, and nothing for a
  tile that is not in the directory or outside the zoom levels of the header.
\<close>

theorem archive_roundtrip:
  assumes "simple_ok h es tiles" and "plain_env env" and "e_get env = file_get" and "etag h = None"
    and "z \<le> 26" and "0 \<le> x" and "x < 2 ^ z" and "0 \<le> y" and "y < 2 ^ z"
  shows "contents (fst (getZxy promise_ops env z (of_int x) (of_int y)
      (new_SharedPromiseCache n, \<lparr>file_name = name, content = simple_archive h es tiles\<rparr>)))
    = Inr (if minZoom h \<le> int z \<and> int z \<le> maxZoom h then
        map_option (\<lambda>e. take (nat (len e)) (drop (nat (offset e)) tiles))
          (find_linear es (tile_base z + hil_enc z (x, y)))
      else None)"
  using built_getZxy[OF simple_built(1,2)[OF assms(1,2)] assms(3-9)]
  by (simp add: simple_built(3)[OF assms(1,2)] stored_tile_def[abs_def])

text \<open>An instance: one tile, the whole world at level 0.\<close>

definition demo_header :: header where
  "demo_header = sample_header\<lparr>rootDirectoryOffset := 127, rootDirectoryLength := 5, jsonMetadataOffset := 132,
     jsonMetadataLength := 2, internalCompression := 1, tileCompression := 1, tileDataOffset := 132,
     minZoom := 0, maxZoom := 0\<rparr>"

definition demo_dir :: "entry list" where
  "demo_dir = [\<lparr>tileId = 0, offset = 0, len = 2, runLength = 1\<rparr>]"

definition demo_archive :: file_source where
  "demo_archive = \<lparr>file_name = ''demo'', content = simple_archive demo_header demo_dir [7, 9]\<rparr>"

lemma demo_simple_ok: "simple_ok demo_header demo_dir [7, 9]"
proof -
  have "header_ok demo_header"
    using degrees_ok_int[of "-180"] degrees_ok_int[of "-85"] degrees_ok_int[of 180] degrees_ok_int[of 85]
      degrees_ok_int[of 11] degrees_ok_int[of 43]
    by (simp add: header_ok_def demo_header_def sample_header_def u64_ok_def u8_ok_def)
  moreover have "length (serializeIndex demo_dir) = 5" by code_simp
  moreover have "strictly_sorted demo_dir" by (simp add: demo_dir_def strictly_sorted_def ordered_by_def)
  ultimately show ?thesis
    by (simp add: simple_ok_def demo_header_def sample_header_def demo_dir_def dir_ok_def entry_ok_def)
qed

lemma demo_plain: "plain_env demo_env"
  by (simp add: plain_env_def demo_env_def defaultDecompress_def compression_code_def)

lemma demo_world: "world demo_env content (\<lambda>_. None) (\<lambda>_. True) (content demo_archive) demo_header demo_archive"
  using world_simple[OF demo_simple_ok demo_plain]
  by (simp add: demo_archive_def demo_env_def demo_header_def sample_header_def)

lemma demo_tile: "tile_of demo_env (content demo_archive) demo_header 0 0 0 = Some (Inr (Some [7, 9]))"
proof -
  have "find_linear demo_dir 0 = Some \<lparr>tileId = 0, offset = 0, len = 2, runLength = 1\<rparr>" by code_simp
  with tile_of_simple[OF demo_simple_ok demo_plain, of 0 0 0] show ?thesis
    by (simp add: demo_archive_def demo_header_def sample_header_def stored_tile_def)
qed

lemma demo_good:
  "pc_good demo_env content (\<lambda>_. None) (\<lambda>_. True) (content demo_archive) demo_header
     (new_SharedPromiseCache 100, demo_archive)"
  "rv_good demo_env content (\<lambda>_. None) (\<lambda>_. True) (content demo_archive) demo_header
     (new_ResolvedValueCache 100, demo_archive)"
  using demo_world by (simp_all add: pc_good_def pc_slots_right_def new_SharedPromiseCache_def rv_good_def
      rv_slots_right_def new_ResolvedValueCache_def)

lemma demo_dir_length: "length (serializeIndex demo_dir) = 5"
  by code_simp

lemma getZxy_refines_archive_witness:
  "contents (fst (getZxy promise_ops demo_env 0 (of_int 0) (of_int 0) (new_SharedPromiseCache 100, demo_archive)))
    = Inr (Some [7, 9])"
proof -
  have "specVersion demo_header = 3" by (simp add: demo_header_def sample_header_def)
  from getZxy_refines_archive[OF demo_good(1) this _ _ _ _ _ demo_tile] show ?thesis by auto
qed

lemma caches_agree_witness:
  "contents (fst (getZxy promise_ops demo_env 0 (of_int 0) (of_int 0) (new_SharedPromiseCache 100, demo_archive)))
    = contents (fst (getZxy resolved_ops demo_env 0 (of_int 0) (of_int 0) (new_ResolvedValueCache 100, demo_archive)))"
proof -
  have "specVersion demo_header = 3" by (simp add: demo_header_def sample_header_def)
  moreover have "bytes_of (content demo_archive) (jsonMetadataOffset demo_header) (jsonMetadataLength demo_header) \<noteq> None"
    by (simp add: bytes_of_def demo_archive_def simple_archive_def length_header_bytes demo_header_def demo_dir_length)
  ultimately show ?thesis
    using caches_agree[OF demo_good(1) demo_good(2), of 0 0 0] demo_tile by simp
qed

lemma archive_roundtrip_witness:
  "contents (fst (getZxy promise_ops demo_env 0 (of_int 0) (of_int 0)
      (new_SharedPromiseCache 100, \<lparr>file_name = ''demo'', content = simple_archive demo_header demo_dir [7, 9]\<rparr>)))
    = Inr (Some [7, 9])"
proof -
  have "find_linear demo_dir 0 = Some \<lparr>tileId = 0, offset = 0, len = 2, runLength = 1\<rparr>" by code_simp
  with archive_roundtrip[OF demo_simple_ok demo_plain, of 0 0 0 100 "''demo''"] show ?thesis
    by (simp add: demo_header_def demo_env_def sample_header_def)
qed

end
