(* ===== verification/Refresh.thy ===== *)
theory Refresh
  imports Transparency
begin

text \<open>
  An archive that is replaced while it is in use: the header and directories in the cache are those of
  the old version, every request names the old version, and the server answers with the new one.
\<close>

section \<open>A server with another version\<close>

lemma range_reply_etag: "h_etag (range_reply b tag r) = tag"
  by (auto simp: range_reply_def Let_def split: option.split prod.split)

lemma http_get_mismatch:
  assumes "http_ok w" and "served_etag w = Some t1" and "t0 \<noteq> t1" and "t0 \<noteq> []"
  shows "\<exists>w'. http_get off l (Some t0) w = (Inl Etag_mismatch, w') \<and> http_ok w'
    \<and> served w' = served w \<and> served_etag w' = served_etag w"
proof -
  have t1: "t1 \<noteq> []" "\<not> starts_with ''W/'' t1" using assms(1,2) by (auto simp: http_ok_def strong_def)
  have fin: "\<exists>f'. finish l (Some t0) resp f = (Inl Etag_mismatch, f')" if "h_etag resp = Some t1" for resp f
    using that t1 assms(3,4) by (simp add: finish_def Let_def strong_etag_def etag_differs_def nonempty_def)
  have per: "\<exists>resp f'. perform (net w) req f = (Inr resp, f') \<and> h_etag resp = Some t1
      \<and> (status resp = 416 \<longrightarrow> (\<exists>n. h_content_range resp = Some (''bytes */'' @ n)))" for req f
    using assms(1,2) by (auto simp: http_ok_def serves_def perform_def range_reply_etag)
      (auto simp: range_reply_def Let_def split: option.splits prod.splits if_splits)
  have retry: "\<exists>resp' f'. retry_416 (net w) off resp f = (Inr resp', f') \<and> h_etag resp' = Some t1"
    if r: "h_etag resp = Some t1" "status resp = 416 \<longrightarrow> (\<exists>n. h_content_range resp = Some (''bytes */'' @ n))"
    for resp f
  proof (cases "off = 0 \<and> status resp = 416")
    case True
    then obtain n where n: "h_content_range resp = Some (''bytes */'' @ n)" using r(2) by blast
    have "starts_with ''bytes */'' (''bytes */'' @ n)" by (simp add: starts_with_def)
    then have "\<exists>req. retry_416 (net w) off resp f = perform (net w) req f"
      using True n by (auto simp: retry_416_def Let_def)
    then show ?thesis using per by metis
  next
    case False
    then show ?thesis using r(1) by (auto simp: retry_416_def)
  qed
  define req where "req = \<lparr>req_url = url (fetcher w),
      req_headers = headers_set ''range'' (range_text off (fli (fli (off + l) - 1))) (customHeaders (fetcher w)),
      req_cache = (if mustReload (fetcher w) then Some ''reload''
                   else if chromeWindowsNoCache (fetcher w) then Some ''no-store'' else None)\<rparr>"
  obtain resp f1 where p: "perform (net w) req (fetcher w) = (Inr resp, f1)" "h_etag resp = Some t1"
    "status resp = 416 \<longrightarrow> (\<exists>n. h_content_range resp = Some (''bytes */'' @ n))"
    using per by blast
  obtain resp' f2 where q: "retry_416 (net w) off resp f1 = (Inr resp', f2)" "h_etag resp' = Some t1"
    using retry[OF p(2,3)] by blast
  obtain f3 where "finish l (Some t0) resp' f2 = (Inl Etag_mismatch, f3)" using fin[OF q(2)] by blast
  with p(1) q(1) have "getBytes (net w) off l (Some t0) (fetcher w) = (Inl Etag_mismatch, f3)"
    by (simp add: getBytes_def Let_def flip: req_def)
  with assms(1) show ?thesis by (simp add: http_get_def http_ok_def)
qed

section \<open>The default cache after the replacement\<close>

text \<open>No directory of the version of \<open>h\<close> is in the cache, and its slots name promises that exist.\<close>

definition no_new :: "'s env \<Rightarrow> header \<Rightarrow> pcache \<Rightarrow> bool" where
  "no_new env h c \<longleftrightarrow>
     (\<forall>k s. map_of (cache c) k = Some s \<longrightarrow>
        data s < length (promises c) \<and> (\<forall>off l. k \<noteq> dir_key (e_key env) (etag h) off l))"

lemma no_new_slot:
  "no_new env h c \<Longrightarrow> map_of (cache c) k = Some s
    \<Longrightarrow> data s < length (promises c) \<and> k \<noteq> dir_key (e_key env) (etag h) off l"
  unfolding no_new_def by blast

lemma no_newI:
  "(\<And>k s. map_of (cache c) k = Some s \<Longrightarrow> data s < length (promises c))
    \<Longrightarrow> (\<And>k s off l. map_of (cache c) k = Some s \<Longrightarrow> k \<noteq> dir_key (e_key env) (etag h) off l) \<Longrightarrow> no_new env h c"
  unfolding no_new_def by blast

definition mismatches :: "'s env \<Rightarrow> string option \<Rightarrow> ('s \<Rightarrow> bool) \<Rightarrow> bool" where
  "mismatches env tag W \<longleftrightarrow> (\<forall>off l s. W s \<longrightarrow> (\<exists>s'. e_get env off l tag s = (Inl Etag_mismatch, s') \<and> W s'))"

lemma mismatchesD:
  "mismatches env tag W \<Longrightarrow> W s \<Longrightarrow> \<exists>s'. e_get env off l tag s = (Inl Etag_mismatch, s') \<and> W s'"
  unfolding mismatches_def by blast

text \<open>The tags are different and free of the separator of the keys.\<close>

definition tags_apart :: "header \<Rightarrow> header \<Rightarrow> bool" where
  "tags_apart h0 h \<longleftrightarrow> (\<exists>t0 t1. etag h0 = Some t0 \<and> etag h = Some t1 \<and> t0 \<noteq> t1
     \<and> CHR ''|'' \<notin> set t0 \<and> CHR ''|'' \<notin> set t1)"

lemma dir_key_apart:
  assumes "tags_apart h0 h"
  shows "dir_key k (etag h0) off l \<noteq> dir_key k (etag h) off' l'"
proof
  assume e: "dir_key k (etag h0) off l = dir_key k (etag h) off' l'"
  obtain t0 t1 where t: "etag h0 = Some t0" "etag h = Some t1" "t0 \<noteq> t1" "CHR ''|'' \<notin> set t0" "CHR ''|'' \<notin> set t1"
    using assms by (auto simp: tags_apart_def)
  have "t0 @ CHR ''|'' # num_text (of_int off) @ ''|'' @ num_text (of_int l)
      = t1 @ CHR ''|'' # num_text (of_int off') @ ''|'' @ num_text (of_int l')"
    using e by (simp add: dir_key_def t)
  from append_bar_inj[OF this t(4,5)] t(3) show False by simp
qed

lemma no_new_request:
  assumes "no_new env h c" and "\<And>off l. k \<noteq> dir_key (e_key env) (etag h) off l" and "pc_request k t c = (p, c')"
  shows "no_new env h c'"
proof (cases rule: pc_request_cases[of c k t])
  case (shared q s)
  have c': "c' = lru_set k (data s) c" using shared assms(3) by simp
  show ?thesis
  proof (rule no_newI)
    fix k' s' assume m: "map_of (cache c') k' = Some s'"
    show "data s' < length (promises c')" for off l
      using m no_new_slot[OF assms(1) shared(1)] no_new_slot[OF assms(1), of k' s' 0 0]
      by (auto simp: c' lru_set_cell split: if_splits)
    show "k' \<noteq> dir_key (e_key env) (etag h) off l" for off l
      using m assms(2)[of off l] no_new_slot[OF assms(1), of k' s' off l]
      by (cases "k' = k") (auto simp: c' lru_set_cell)
  qed
next
  case fresh
  have c': "c' = lru_set k (length (promises c)) (new_promise (Pending t) c)" using fresh assms(3) by simp
  show ?thesis
  proof (rule no_newI)
    fix k' s' assume m: "map_of (cache c') k' = Some s'"
    show "data s' < length (promises c')" for off l
      using m no_new_slot[OF assms(1), of k' s' 0 0]
      by (auto simp: c' lru_set_cell split: if_splits intro: less_SucI)
    show "k' \<noteq> dir_key (e_key env) (etag h) off l" for off l
      using m assms(2)[of off l] no_new_slot[OF assms(1), of k' s' off l]
      by (cases "k' = k") (auto simp: c' lru_set_cell)
  qed
qed

lemma no_new_resolve: "no_new env h c \<Longrightarrow> no_new env h (resolve p r c)"
  by (simp add: no_new_def)

text \<open>Dropping the header leaves a cache that is right for the new version.\<close>

lemma no_new_coherent:
  assumes "no_new env h c" and "map_of (invalidations c) (e_key env) = None"
  shows "pc_coherent env a h (pc_invalidate (e_key env) c)"
proof -
  have right: "promise_right (e_key env) (V3 h) (parts_of env a h) k r" if "k \<noteq> e_key env" "\<And>off l. k \<noteq> dir_key (e_key env) (etag h) off l" for k r
    using that by (cases r) (auto simp: promise_right_def slot_right_def task_right_def h_tag_def)
  have d: "pc_coherent env a h (lru_delete (e_key env) c)"
    unfolding pc_slots_right_def
  proof (intro allI impI)
    fix k s assume "map_of (cache (lru_delete (e_key env) c)) k = Some s"
    then have k: "k \<noteq> e_key env" "map_of (cache c) k = Some s"
      by (auto simp: lru_delete_def delete_conv' split: if_splits)
    show "data s < length (promises (lru_delete (e_key env) c))
      \<and> promise_right (e_key env) (V3 h) (parts_of env a h) k (promises (lru_delete (e_key env) c) ! data s)"
      using no_new_slot[OF assms(1) k(2)] right[OF k(1)] by simp
  qed
  obtain p c' where r: "pc_request (e_key env) T_header (lru_delete (e_key env) c) = (p, c')" by fastforce
  from pc_slots_right_request[OF d task_right_header r] show ?thesis
    by (simp add: pc_invalidate_def assms(2) r pc_slots_right_def)
qed

text \<open>A directory of the old version comes from the cache, or its request finds the mismatch.\<close>

lemma stale_directory:
  assumes "pc_coherent env a0 h0 c" and "no_new env h c" and "map_of (invalidations c) (e_key env) = None"
    and "tags_apart h0 h" and "mismatches env (etag h0) W" and "W s" and d: "dir_of env a0 h0 off l = Some es"
  shows "\<exists>c' s'. no_new env h c' \<and> map_of (invalidations c') (e_key env) = None \<and> W s'
    \<and> (c_getDirectory promise_ops env off l (V3 h0) (c, s) = (Inr es, c', s') \<and> pc_coherent env a0 h0 c'
      \<or> c_getDirectory promise_ops env off l (V3 h0) (c, s) = (Inl Etag_mismatch, c', s'))"
proof -
  let ?k = "dir_key (e_key env) (etag h0) off l"
  have part: "parts_of env a0 h0 off l = Some (C_dir es)" using d by (simp add: parts_of_def)
  obtain p c1 where r: "pc_request ?k (T_dir off l (V3 h0)) c = (p, c1)" by fastforce
  have k: "dir_key (e_key env) (h_tag (V3 h0)) off l = ?k" "part_task (V3 h0) off l = T_dir off l (V3 h0)"
    by (simp_all add: h_tag_def part_task_def)
  note R = right_partD[where parts = "parts_of env a0 h0" and hdr = "V3 h0" and key = "e_key env", OF part, unfolded k]
  have "task_right (e_key env) (V3 h0) (parts_of env a0 h0) ?k (T_dir off l (V3 h0))"
    using v3_archive.task_right_part[OF part] by (simp only: k)
  note c1 = pc_slots_right_request[OF assms(1) this r]
  have n: "no_new env h c1" by (rule no_new_request[OF assms(2) dir_key_apart[OF assms(4)] r])
  have i: "map_of (invalidations c1) (e_key env) = None"
    using assms(3) invalidations_request[of ?k "T_dir off l (V3 h0)" c] r by simp
  obtain s' where m: "e_get env off l (etag h0) s = (Inl Etag_mismatch, s')" "W s'"
    using mismatchesD[OF assms(5,6)] by blast
  show ?thesis
  proof (cases "promises c1 ! p")
    case (Pending t)
    with c1 R(2) have t: "promises c1 ! p = Pending (T_dir off l (V3 h0))" by (simp add: promise_right_def)
    have "c_getDirectory promise_ops env off l (V3 h0) (c, s)
        = (Inl Etag_mismatch, resolve p (Rejected Etag_mismatch) c1, s')"
      using r t m(1) by (simp add: promise_ops_def pc_getDirectory_def pc_get_def pc_await_def run_task_def
          fetch_directory_def h_tag_def pc_settle_def)
    then show ?thesis using no_new_resolve[OF n, of p "Rejected Etag_mismatch"] i m(2)
      by (intro exI[of _ "resolve p (Rejected Etag_mismatch) c1"] exI[of _ s'] conjI disjI2) simp_all
  next
    case (Fulfilled v)
    with c1 R(1) have "v = C_dir es" by (simp add: promise_right_def)
    with Fulfilled r have "c_getDirectory promise_ops env off l (V3 h0) (c, s) = (Inr es, c1, s)"
      by (simp add: promise_ops_def pc_getDirectory_def pc_get_def pc_await_def h_tag_def)
    with n i c1 assms(6) show ?thesis by blast
  next
    case (Rejected e)
    with c1 R(3) show ?thesis by simp
  qed
qed

lemma stale_read_tile:
  assumes "pc_coherent env a0 h0 c" and "no_new env h c" and "map_of (invalidations c) (e_key env) = None"
    and "tags_apart h0 h" and "mismatches env (etag h0) W" and "W s" and "0 \<le> t" and "t \<le> 2 ^ 53"
    and "archive_tile (dir_of env a0 h0) (bytes_of a0) unpack h0 t n off l = Some (Inr (Some b))"
  shows "\<exists>c' s'. read_tile promise_ops env (V3 h0) (of_int t) n off l (c, s) = (Inl Etag_mismatch, c', s')
    \<and> no_new env h c' \<and> map_of (invalidations c') (e_key env) = None \<and> W s'"
  using assms(1-3,6,9)
proof (induction n arbitrary: c s off l)
  case (Suc n)
  obtain es where es: "dir_of env a0 h0 off l = Some es" using Suc.prems(5) by (auto split: option.splits)
  have f: "dir_fits h0 es" by (rule dir_of_fits[OF es])
  then have ft: "findTile es (of_int t) = find_linear es t"
    using findTile_eq_find_linear[of es t] assms(7,8) by (simp add: dir_fits_def)
  obtain e where e: "find_linear es t = Some e" using Suc.prems(5) es by (auto split: option.splits)
  then have "e \<in> set es" using find_linear_iff[of es t e] f by (simp add: dir_fits_def)
  with f have b: "\<bar>tileDataOffset h0 + offset e\<bar> \<le> 2 ^ 53" "\<bar>leafDirectoryOffset h0 + offset e\<bar> \<le> 2 ^ 53"
    by (auto simp: dir_fits_def list_all_iff)
  from stale_directory[OF Suc.prems(1-3) assms(4,5) Suc.prems(4) es]
  consider c' s' where "c_getDirectory promise_ops env off l (V3 h0) (c, s) = (Inr es, c', s')" "pc_coherent env a0 h0 c'"
      "no_new env h c'" "map_of (invalidations c') (e_key env) = None" "W s'"
    | c' s' where "c_getDirectory promise_ops env off l (V3 h0) (c, s) = (Inl Etag_mismatch, c', s')"
      "no_new env h c'" "map_of (invalidations c') (e_key env) = None" "W s'"
    by blast
  then show ?case
  proof cases
    case d: 1
    show ?thesis
    proof (cases "runLength e > 0")
      case True
      obtain s2 where "e_get env (tileDataOffset h0 + offset e) (len e) (etag h0) s' = (Inl Etag_mismatch, s2)" "W s2"
        using mismatchesD[OF assms(5) d(5)] by blast
      with True d e ft b show ?thesis by (simp add: h_tileDataOffset_def h_tag_def on_source_def)
    next
      case False
      then have "archive_tile (dir_of env a0 h0) (bytes_of a0) unpack h0 t n (leafDirectoryOffset h0 + offset e) (len e)
          = Some (Inr (Some b))"
        using Suc.prems(5) es e by simp
      from Suc.IH[OF d(2,3,4,5) this] False d(1) e ft b show ?thesis
        by (simp add: h_leafDirectoryOffset_def)
    qed
  qed auto
qed simp

section \<open>Property\<close>

text \<open>
  C14: A tile of an archive that was replaced is read from the new version. Let the default cache hold
  the header of the old version and any of its directories, and nothing of the new one; let the source
  answer every request that names the old version with a mismatch, and serve the new version. Then for
  every tile the old version had, \<^verbatim>\<open>getZxy\<close> gives what the new version holds, by its one retry,
  and the cache ends up right for the new version.
\<close>

theorem replaced_archive_is_read_anew:
  assumes "pc_coherent env a0 h0 c" and "map_of (cache c) (e_key env) = Some sl"
    and "promises c ! data sl = Fulfilled (C_header (V3 h0))" and "map_of (invalidations c) (e_key env) = None"
    and "no_new env h c" and "tags_apart h0 h"
    and "mismatches env (etag h0) (world env archive version ok a h)" and "world env archive version ok a h s"
    and "specVersion h0 = 3" and "specVersion h = 3"
    and "z \<le> 26" and "0 \<le> x" and "x < 2 ^ z" and "0 \<le> y" and "y < 2 ^ z"
    and "tile_of env a0 h0 z x y = Some (Inr (Some b))" and "tile_of env a h z x y = Some r"
  shows "\<exists>t st'. getZxy promise_ops env z (of_int x) (of_int y) (c, s) = (t, st') \<and> contents t = r
    \<and> pc_good env archive version ok a h st'"
proof -
  let ?t = "tile_base z + hil_enc z (x, y)"
  have id: "zxyToTileId z (of_int x) (of_int y) = Inr (of_int ?t)"
    using assms(11-15) by (intro zxyToTileId_correct) simp_all
  note t = tile_range[OF assms(11-15)]
  have zoom: "minZoom h0 \<le> int z" "int z \<le> maxZoom h0" and old:
    "archive_tile (dir_of env a0 h0) (bytes_of a0) (\<lambda>b. e_tile_decompress env b (tileCompression h0)) h0 ?t 4
      (rootDirectoryOffset h0) (rootDirectoryLength h0) = Some (Inr (Some b))"
    using assms(16) by (auto simp: tile_of_def split: if_splits)
  let ?c = "lru_set (e_key env) (data sl) c"
  have req: "pc_request (e_key env) T_header c = (data sl, ?c)"
    using assms(2) by (cases rule: pc_request_cases[of c "e_key env" T_header]) simp_all
  then have hd: "c_getHeader promise_ops env (c, s) = (Inr (V3 h0), ?c, s)"
    using assms(3) by (simp add: promise_ops_def pc_getHeader_def pc_get_def pc_await_def)
  have "pc_coherent env a0 h0 ?c" using pc_slots_right_request[OF assms(1) task_right_header req] by blast
  moreover have "no_new env h ?c" by (rule no_new_request[OF assms(5) dir_key_not_source(2) req])
  moreover have "map_of (invalidations ?c) (e_key env) = None" using assms(4) by simp
  ultimately obtain c' s' where
    "read_tile promise_ops env (V3 h0) (of_int ?t) 4 (rootDirectoryOffset h0) (rootDirectoryLength h0) (?c, s)
      = (Inl Etag_mismatch, c', s')" and c': "no_new env h c'" "map_of (invalidations c') (e_key env) = None"
    and w: "world env archive version ok a h s'"
    using stale_read_tile[OF _ _ _ assms(6,7,8) t old] by blast
  then have first: "getZxyAttempt promise_ops env z (of_int x) (of_int y) (c, s) = (Inl Etag_mismatch, c', s')"
    using zoom assms(9) by (simp add: getZxyAttempt_def id hd h_spec_def h_minZoom_def h_maxZoom_def jless_def
        finite_value_def h_rootOffset_def h_rootLength_def del: read_tile.simps)
  have "pc_good env archive version ok a h (c_invalidate promise_ops env (c', s'))"
    using no_new_coherent[OF c'] w by (simp add: pc_good_def promise_ops_def)
  from shared_cache.getZxyAttempt_correct[OF this assms(11-15,10) assms(17)[unfolded tile_of_def]]
  show ?thesis by (auto simp: getZxy_def with_retry_def first)
qed

text \<open>An instance: a server that replaces the tile of the demo archive.\<close>

definition http_env :: "http_world env" where
  "http_env = \<lparr>e_get = http_get, e_key = ''demo'', e_decompress = defaultDecompress None (\<lambda>_. Inl Type_error),
     e_tile_decompress = defaultDecompress None (\<lambda>_. Inl Type_error), e_inflate = (\<lambda>_. Inl Type_error),
     e_json = (\<lambda>_. Inr Null)\<rparr>"

definition demo_version :: "string \<Rightarrow> header" where
  "demo_version v = demo_header\<lparr>etag := Some v\<rparr>"

definition demo_server :: http_world where
  "demo_server = (let b = simple_archive (demo_version ''v2'') demo_dir [7, 9] in
     \<lparr>net = (\<lambda>hist req. Inr (range_reply b (Some ''v2'') (map_of (req_headers req) ''range''))),
      served = b, served_etag = Some ''v2'', fetcher = new_FetchSource ''demo'' [] None\<rparr>)"

definition stale_cache :: pcache where
  "stale_cache = \<lparr>cache = [(''demo'', \<lparr>lastUsed = 1, data = 0\<rparr>)], maxCacheEntries = 100, counter = 2,
     promises = [Fulfilled (C_header (V3 (demo_version ''v1'')))], invalidations = []\<rparr>"

lemma demo_version_ok: "simple_ok (demo_version v) demo_dir [b1, b2]"
proof -
  have "header_bytes (demo_version v) = header_bytes demo_header" by (simp add: demo_version_def header_bytes_def)
  moreover have "header_ok (demo_version v) = header_ok demo_header" by (simp add: demo_version_def header_ok_def)
  ultimately show ?thesis using demo_simple_ok by (simp add: simple_ok_def demo_version_def)
qed

lemma http_plain: "plain_env http_env"
  by (simp add: plain_env_def http_env_def defaultDecompress_def compression_code_def)

lemma server_world:
  "world http_env served served_etag http_ok (simple_archive (demo_version ''v2'') demo_dir [7, 9])
     (demo_version ''v2'') demo_server"
  using simple_archive_ok[OF demo_version_ok http_plain] http.byte_source_axioms
  by (simp add: world_def demo_server_def Let_def http_env_def http_ok_def serves_def strong_def starts_with_def
      demo_version_def)

lemma server_mismatches:
  "mismatches http_env (etag (demo_version ''v1''))
     (world http_env served served_etag http_ok a (demo_version ''v2''))"
  unfolding mismatches_def
proof (intro allI impI)
  fix off l s assume "world http_env served served_etag http_ok a (demo_version ''v2'') s"
  then show "\<exists>s'. e_get http_env off l (etag (demo_version ''v1'')) s = (Inl Etag_mismatch, s')
      \<and> world http_env served served_etag http_ok a (demo_version ''v2'') s'"
    using http_get_mismatch[of s "''v2''" "''v1''" off l]
    by (auto simp: world_def demo_version_def http_env_def)
qed

lemma stale_demo:
  "tile_of http_env (simple_archive (demo_version v) demo_dir [b1, b2]) (demo_version v) 0 0 0 = Some (Inr (Some [b1, b2]))"
  "specVersion (demo_version v) = 3"
  "pc_coherent http_env (simple_archive (demo_version ''v1'') demo_dir [1, 2]) (demo_version ''v1'') stale_cache"
  "no_new http_env (demo_version ''v2'') stale_cache"
  "tags_apart (demo_version ''v1'') (demo_version ''v2'')"
proof -
  have f: "find_linear demo_dir 0 = Some \<lparr>tileId = 0, offset = 0, len = 2, runLength = 1\<rparr>" by code_simp
  show "tile_of http_env (simple_archive (demo_version v) demo_dir [b1, b2]) (demo_version v) 0 0 0
      = Some (Inr (Some [b1, b2]))"
    using tile_of_simple[OF demo_version_ok http_plain, of v b1 b2 0 0 0] f
    by (simp add: demo_version_def demo_header_def stored_tile_def)
  show "specVersion (demo_version v) = 3"
    by (simp add: demo_version_def demo_header_def sample_header_def)
  have key: "e_key http_env = ''demo''" by (simp add: http_env_def)
  show "pc_coherent http_env (simple_archive (demo_version ''v1'') demo_dir [1, 2]) (demo_version ''v1'') stale_cache"
    using slot_right_header[of "''demo''" "V3 (demo_version ''v1'')"]
    by (simp add: pc_slots_right_def stale_cache_def promise_right_def key)
  show "no_new http_env (demo_version ''v2'') stale_cache"
    using dir_key_not_source(2)[of "''demo''"] by (simp add: no_new_def stale_cache_def key)
  show "tags_apart (demo_version ''v1'') (demo_version ''v2'')" by (simp add: tags_apart_def demo_version_def)
qed

lemma replaced_archive_is_read_anew_witness:
  "\<exists>t st'. getZxy promise_ops http_env 0 (of_int 0) (of_int 0) (stale_cache, demo_server) = (t, st')
    \<and> contents t = Inr (Some [7, 9])"
proof -
  note d = stale_demo
  from replaced_archive_is_read_anew[OF d(3) _ _ _ d(4,5) server_mismatches server_world d(2,2) _ _ _ _ _ d(1) d(1),
      of "\<lparr>lastUsed = 1, data = 0\<rparr>"]
  show ?thesis by (auto simp: stale_cache_def http_env_def)
qed

end
