(* ===== verification/V2_Archive.thy ===== *)
theory V2_Archive
  imports Transparency
begin

text \<open>
  Archives of the versions 1 and 2: what such an archive holds for a tile, and that the reader gives it,
  through the default cache. The root directory has the tiles of the upper levels and, behind them, the
  directories of one level of leaves; a version 1 directory is sorted first.
\<close>

section \<open>What an archive holds\<close>

definition v2_dir_ok :: "v2_entry list \<Rightarrow> bool" where
  "v2_dir_ok es \<longleftrightarrow> list_all v2_ok es \<and> distinct (map v2_key es) \<and> length es < 2 ^ 44
     \<and> list_all (\<lambda>e. eoffset e < 2 ^ 40) es"

definition find_v2 :: "bool \<Rightarrow> int \<Rightarrow> int \<Rightarrow> int \<Rightarrow> v2_entry list \<Rightarrow> v2_entry option" where
  "find_v2 d z x y es = find (\<lambda>e. isDir e = d \<and> ez e = z \<and> ex e = of_int x \<and> ey e = of_int y) es"

text \<open>The level of the leaves: the greatest zoom of a directory entry.\<close>

definition leaf_level :: "v2_entry list \<Rightarrow> int option" where
  "leaf_level es = (if list_ex isDir es then Some (Max (set (map ez (filter isDir es)))) else None)"

definition v2_unpack :: "(bytes \<Rightarrow> js_error + bytes) \<Rightarrow> bytes \<Rightarrow> js_error + bytes" where
  "v2_unpack inflate view =
     bind_sum (getUint8 view 0) (\<lambda>b0.
     bind_sum (if b0 = 31 then getUint8 view 1 else Inr 0) (\<lambda>b1.
     if b0 = 31 \<and> b1 = 139 then inflate view else Inr view))"

definition v2_bytes ::
  "(int \<Rightarrow> int \<Rightarrow> bytes option) \<Rightarrow> (bytes \<Rightarrow> js_error + bytes) \<Rightarrow> v2_entry option \<Rightarrow> (js_error + bytes option) option" where
  "v2_bytes bytes_at inflate found =
     (case found of
        None \<Rightarrow> Some (Inr None)
      | Some e \<Rightarrow> map_option (\<lambda>b. map_sum id Some (v2_unpack inflate b)) (bytes_at (eoffset e) (elength e)))"

text \<open>
  A tile is an entry of the root directory, or of the leaf of its ancestor on the level of the leaves.
  \<open>None\<close> is an archive that cannot be read there, or a level above the leaves that the root does
  not have.
\<close>

definition v2_held ::
  "(int \<Rightarrow> int \<Rightarrow> v2_entry list option) \<Rightarrow> (int \<Rightarrow> int \<Rightarrow> bytes option) \<Rightarrow> (bytes \<Rightarrow> js_error + bytes)
    \<Rightarrow> v2_header \<Rightarrow> nat \<Rightarrow> int \<Rightarrow> int \<Rightarrow> (js_error + bytes option) option"
where
  "v2_held dirs bytes_at inflate h z x y =
     (case dirs (v2_rootOffset h) (v2_rootLength h) of
        None \<Rightarrow> None
      | Some es \<Rightarrow>
          if 3 \<le> v2_specVersion h then None
          else if find_v2 False (int z) x y es \<noteq> None then v2_bytes bytes_at inflate (find_v2 False (int z) x y es)
          else
            (case leaf_level es of
               None \<Rightarrow> Some (Inr None)
             | Some lz \<Rightarrow>
                 if int z < lz then None
                 else
                   (case find_v2 True lz (x div 2 ^ nat (int z - lz)) (y div 2 ^ nat (int z - lz)) es of
                      None \<Rightarrow> Some (Inr None)
                    | Some d \<Rightarrow>
                        (case dirs (eoffset d) (elength d) of
                           None \<Rightarrow> None
                         | Some ls \<Rightarrow> v2_bytes bytes_at inflate (find_v2 False (int z) x y ls)))))"

section \<open>The queries on a directory\<close>

lemma query_found:
  assumes "v2_dir_ok es" and "0 \<le> z" and "z < 128"
  shows "queryTile (createDirectory es) z (of_int x) (of_int y) = Inr (find_v2 False z x y es)"
    and "queryLeafdir (createDirectory es) z (of_int x) (of_int y) = Inr (find_v2 True z x y es)"
  using lookup_created[of es z x y] assms by (auto simp: v2_dir_ok_def find_v2_def)

lemma last_sorted:
  assumes "list_all v2_ok es" and "es \<noteq> []"
  shows "last (sort_key v2_key es) \<in> set es"
    and "leaf_level es = (if isDir (last (sort_key v2_key es)) then Some (ez (last (sort_key v2_key es))) else None)"
proof -
  let ?s = "sort_key v2_key es" and ?d = "last (sort_key v2_key es)"
  have ne: "?s \<noteq> []" using assms(2) by (metis length_0_conv length_sort)
  then show d: "?d \<in> set es" using last_in_set[OF ne] by simp
  have le: "v2_key e \<le> v2_key ?d" if "e \<in> set es" for e
  proof -
    have "e \<in> set ?s" using that by simp
    then obtain i where "i < length ?s" "e = ?s ! i" by (metis in_set_conv_nth)
    moreover have "sorted (map v2_key ?s)" by simp
    ultimately show ?thesis
      using sorted_nth_mono[of "map v2_key ?s" i "length ?s - 1"] ne by (simp add: last_conv_nth)
  qed
  have z: "0 \<le> ez e \<and> ez e < 128" if "e \<in> set es" for e using assms(1) that by (simp add: list_all_iff v2_ok_def)
  have zle: "zRaw_of e \<le> zRaw_of ?d" if "e \<in> set es" for e
    using le[OF that] by (auto simp: v2_key_def less_eq_prod_def)
  have top: "isDir ?d \<and> ez e \<le> ez ?d" if "e \<in> set es" "isDir e" for e
    using zle[OF that(1)] that(2) z[OF that(1)] z[OF d] by (simp add: zRaw_of_def split: if_splits)
  show "leaf_level es = (if isDir ?d then Some (ez ?d) else None)"
  proof (cases "isDir ?d")
    case True
    then have "Max (set (map ez (filter isDir es))) = ez ?d"
      using d top by (intro Max_eqI) auto
    with True d show ?thesis by (auto simp: leaf_level_def list_ex_iff)
  next
    case False
    with top show ?thesis by (auto simp: leaf_level_def list_ex_iff)
  qed
qed

lemma leaf_level_range:
  assumes "v2_dir_ok es" and "leaf_level es = Some lz"
  shows "0 \<le> lz" and "lz < 128"
proof -
  have es: "list_all v2_ok es" "es \<noteq> []" using assms by (auto simp: v2_dir_ok_def leaf_level_def)
  from last_sorted[OF es] assms(2) es(1) show "0 \<le> lz" "lz < 128"
    by (auto simp: list_all_iff v2_ok_def split: if_splits)
qed

lemma deriveLeaf_created:
  assumes "v2_dir_ok es" and "z \<le> 26" and "0 \<le> x" and "x < 2 ^ z" and "0 \<le> y" and "y < 2 ^ z"
    and "\<And>lz. leaf_level es = Some lz \<Longrightarrow> lz \<le> int z"
  shows "deriveLeaf (createDirectory es) (int z) (of_int x) (of_int y) = Inr (case leaf_level es of
      None \<Rightarrow> None
    | Some lz \<Rightarrow> Some (lz, of_int (x div 2 ^ nat (int z - lz)), of_int (y div 2 ^ nat (int z - lz))))"
proof (cases "es = []")
  case True
  then show ?thesis by (simp add: createDirectory_def js_sort_def deriveLeaf_def leaf_level_def)
next
  case False
  have ok: "list_all v2_ok es" "length es < 2 ^ 44" using assms(1) by (simp_all add: v2_dir_ok_def)
  let ?s = "sort_key v2_key es"
  let ?d = "last ?s"
  note l = last_sorted[OF ok(1) False]
  have s: "?s = butlast ?s @ [?d]" using False by (metis append_butlast_last_id length_0_conv length_sort)
  have c: "createDirectory es = dir_bytes (butlast ?s @ [?d])" using createDirectory_bytes[OF ok(1)] s by simp
  have b: "list_all v2_ok (butlast ?s)" "v2_ok ?d" "length (butlast ?s) < 2 ^ 44"
    using ok l(1) in_set_butlastD[of _ ?s] by (auto simp: list_all_iff)
  have "(2::int) ^ z \<le> 2 ^ 53" using assms(2) by (intro power_increasing) simp_all
  then have r: "x < 2 ^ 53" "y < 2 ^ 53" using assms(4,6) by linarith+
  have z: "isDir ?d \<Longrightarrow> ez ?d \<le> int z \<and> int z \<le> ez ?d + 30"
    using l(2) assms(2,7) leaf_level_range[OF assms(1), of "ez ?d"] by auto
  from deriveLeaf_last[OF b z assms(3) r(1) assms(5) r(2)] show ?thesis
    by (simp add: c l(2))
qed

section \<open>Reading a tile\<close>

text \<open>
  A cache over such an archive: a directory comes back in the order of the search.
\<close>

locale v2_cache = archive_reader ops env "V2 hdr" bytes_at good
  for ops :: "('c, 's) cache_ops" and env :: "'s env" and hdr :: v2_header
    and bytes_at :: "int \<Rightarrow> int \<Rightarrow> bytes option" and good :: "'c \<times> 's \<Rightarrow> bool" +
  fixes dirs :: "int \<Rightarrow> int \<Rightarrow> v2_entry list option"
  assumes get_sorted: "good st \<Longrightarrow> dirs off l = Some es
      \<Longrightarrow> \<exists>st'. v2_directory ops env off l (V2 hdr) st = (Inr (createDirectory es), st') \<and> good st'"
    and dirs_ok: "dirs off l = Some es \<Longrightarrow> v2_dir_ok es"
begin

lemma v2_tile_correct:
  assumes "good st" and "v2_bytes bytes_at (e_inflate env) (Some e) = Some r"
  shows "\<exists>t st'. v2_tile env e st = (t, st') \<and> map_sum id (\<lambda>t. Some (tile_data t)) t = r \<and> good st'"
proof -
  obtain b where b: "bytes_at (eoffset e) (elength e) = Some b" "r = map_sum id Some (v2_unpack (e_inflate env) b)"
    using assms(2) by (auto simp: v2_bytes_def)
  obtain x st' where "on_source (e_get env (eoffset e) (elength e) None) st = (Inr x, st')" "rr_data x = b" "good st'"
    using get_bytes[OF assms(1) b(1), of None] by blast
  then show ?thesis
    unfolding b(2) v2_tile_def v2_unpack_def
    by (cases st'; cases "getUint8 b 0"; cases "getUint8 b 1"; cases "e_inflate env b") simp_all
qed

text \<open>The last search: the directory is fetched, and the tile read when it has one.\<close>

lemma v2_leaf_correct:
  assumes "good st" and "dirs off l = Some ls" and "0 \<le> z" and "z < 128"
    and "v2_bytes bytes_at (e_inflate env) (find_v2 False z x y ls) = Some r"
  shows "\<exists>t st'. bind_st (v2_directory ops env off l (V2 hdr) st) (\<lambda>leafdir st.
      bind_st (queryTile leafdir z (of_int x) (of_int y), st) (\<lambda>entry st.
      case entry of Some e \<Rightarrow> bind_st (v2_tile env e st) (\<lambda>t st. (Inr (Some t), st)) | None \<Rightarrow> (Inr None, st))) = (t, st')
    \<and> contents t = r \<and> good st'"
proof -
  obtain st2 where d: "v2_directory ops env off l (V2 hdr) st = (Inr (createDirectory ls), st2)" "good st2"
    using get_sorted[OF assms(1,2)] by blast
  note q = d(1) query_found(1)[OF dirs_ok[OF assms(2)] assms(3,4)]
  show ?thesis
  proof (cases "find_v2 False z x y ls")
    case None
    with assms(5) d(2) show ?thesis by (simp add: q v2_bytes_def)
  next
    case (Some e)
    with assms(5) v2_tile_correct[OF d(2), of e] obtain t st3 where
      "v2_tile env e st2 = (t, st3)" "map_sum id (\<lambda>t. Some (tile_data t)) t = r" "good st3"
      by auto
    then show ?thesis using Some by (cases t) (simp_all add: q)
  qed
qed

lemma v2_getZxy_correct:
  assumes "good st" and "tile_place z x y" and "v2_held dirs bytes_at (e_inflate env) hdr z x y = Some r"
  shows "\<exists>t st'. v2_getZxy ops env (V2 hdr) (int z) (of_int x) (of_int y) st = (t, st') \<and> contents t = r \<and> good st'"
proof -
  have p: "z \<le> 26" "0 \<le> x" "x < 2 ^ z" "0 \<le> y" "y < 2 ^ z" using assms(2) by (simp_all add: tile_place_def)
  then have z: "0 \<le> int z" "int z < 128" by simp_all
  obtain es where es: "dirs (v2_rootOffset hdr) (v2_rootLength hdr) = Some es"
    using assms(3) by (auto simp: v2_held_def split: option.splits)
  note ok = dirs_ok[OF es]
  obtain st1 where d: "v2_directory ops env (v2_rootOffset hdr) (v2_rootLength hdr) (V2 hdr) st = (Inr (createDirectory es), st1)"
    "good st1"
    using get_sorted[OF assms(1) es] by blast
  note start = v2_getZxy_def h_rootOffset_def h_rootLength_def d(1) query_found(1)[OF ok z]
  show ?thesis
  proof (cases "find_v2 False (int z) x y es")
    case (Some e)
    then have "v2_bytes bytes_at (e_inflate env) (Some e) = Some r"
      using assms(3) es by (simp add: v2_held_def split: if_splits)
    from v2_tile_correct[OF d(2) this] obtain t st2 where
      t: "v2_tile env e st1 = (t, st2)" "map_sum id (\<lambda>t. Some (tile_data t)) t = r" "good st2"
      by blast
    then show ?thesis using Some by (cases t) (simp_all add: start)
  next
    case None
    note held = assms(3)[unfolded v2_held_def es option.case None]
    have lz: "lz \<le> int z" if "leaf_level es = Some lz" for lz using held that by (auto split: if_splits)
    have leaf: "deriveLeaf (createDirectory es) (int z) (of_int x) (of_int y) = Inr (case leaf_level es of None \<Rightarrow> None
      | Some lz \<Rightarrow> Some (lz, of_int (x div 2 ^ nat (int z - lz)), of_int (y div 2 ^ nat (int z - lz))))"
      using ok p lz by (rule deriveLeaf_created)
    show ?thesis
    proof (cases "leaf_level es")
      case nolevel: None
      with held d(2) None show ?thesis by (auto simp: start leaf split: if_splits)
    next
      case (Some lz)
      note more = start None leaf Some query_found(2)[OF ok leaf_level_range[OF ok Some]]
      show ?thesis
      proof (cases "find_v2 True lz (x div 2 ^ nat (int z - lz)) (y div 2 ^ nat (int z - lz)) es")
        case noleaf: None
        with held Some d(2) show ?thesis by (auto simp: more split: if_splits)
      next
        case dir: (Some le)
        obtain ls where ls: "dirs (eoffset le) (elength le) = Some ls"
          "v2_bytes bytes_at (e_inflate env) (find_v2 False (int z) x y ls) = Some r"
          using held Some dir by (auto split: if_splits option.splits)
        from v2_leaf_correct[OF d(2) ls(1) z ls(2)] show ?thesis by (simp add: more dir)
      qed
    qed
  qed
qed

lemma v2_attempt_correct:
  assumes "good st" and "tile_place z x y" and "v2_held dirs bytes_at (e_inflate env) hdr z x y = Some r"
  shows "\<exists>t st'. getZxyAttempt ops env z (of_int x) (of_int y) st = (t, st') \<and> contents t = r \<and> good st'"
proof -
  have p: "z \<le> 26" "0 \<le> x" "x < 2 ^ z" "0 \<le> y" "y < 2 ^ z" using assms(2) by (simp_all add: tile_place_def)
  obtain st1 where h: "c_getHeader ops env st = (Inr (V2 hdr), st1)" "good st1"
    using get_header[OF assms(1)] by blast
  have "v2_specVersion hdr < 3" using assms(3) by (auto simp: v2_held_def split: option.splits if_splits)
  moreover have "zxyToTileId z (of_int x) (of_int y) = Inr (of_int (tile_base z + hil_enc z (x, y)))"
    using p by (intro zxyToTileId_correct) simp_all
  ultimately show ?thesis
    using v2_getZxy_correct[OF h(2) assms(2,3)] h(1) by (simp add: getZxyAttempt_def h_spec_def)
qed

end

sublocale v2_cache \<subseteq> tile_service ops env "V2 hdr" "v2_held dirs bytes_at (e_inflate env) hdr" good
proof (unfold_locales, goal_cases)
  case (1 st)
  then show ?case using get_header by (simp add: getHeader_def)
next
  case (2 st z x y r)
  then show ?case
    unfolding getZxy_def by (intro with_retry_correct v2_attempt_correct)
qed

section \<open>Over a source that answers ranges\<close>

text \<open>
  A directory of an archive: its bytes parse to entries it can have, and, but for version 1, are in the
  order of the search.
\<close>

definition v2_dir_of :: "bytes \<Rightarrow> int \<Rightarrow> int \<Rightarrow> int \<Rightarrow> v2_entry list option" where
  "v2_dir_of a spec off l =
     (case bytes_of a off l of
        None \<Rightarrow> None
      | Some b \<Rightarrow>
          (case parse_entries b 0 of
             Inl e \<Rightarrow> None
           | Inr es \<Rightarrow> if v2_dir_ok es \<and> (spec = 1 \<or> b = createDirectory es) then Some es else None))"

definition v2_archive_ok :: "'s env \<Rightarrow> bytes \<Rightarrow> v2_header \<Rightarrow> bool" where
  "v2_archive_ok env a h \<longleftrightarrow>
     getUint16 (take 16384 a) 0 = Inr 19792
     \<and> (case detectVersion (take 16384 a) of Inl e \<Rightarrow> False | Inr v \<Rightarrow> v < 3)
     \<and> parse_v2_header (e_json env)
         \<lparr>rr_data = take 512000 a, rr_etag = v2_etag h, rr_cache_control = None, rr_expires = None\<rparr> = Inr h"

definition v2_world ::
  "'s env \<Rightarrow> ('s \<Rightarrow> bytes) \<Rightarrow> ('s \<Rightarrow> string option) \<Rightarrow> ('s \<Rightarrow> bool) \<Rightarrow> bytes \<Rightarrow> v2_header \<Rightarrow> 's \<Rightarrow> bool" where
  "v2_world env archive version ok a h s \<longleftrightarrow>
     byte_source (e_get env) archive version ok \<and> v2_archive_ok env a h \<and> ok s \<and> archive s = a \<and> version s = v2_etag h"

text \<open>The parts of such an archive are its buffers.\<close>

definition v2_parts_of :: "bytes \<Rightarrow> parts" where
  "v2_parts_of a off l = map_option C_bytes (bytes_of a off l)"

definition v2_rv_good ::
  "'s env \<Rightarrow> ('s \<Rightarrow> bytes) \<Rightarrow> ('s \<Rightarrow> string option) \<Rightarrow> ('s \<Rightarrow> bool) \<Rightarrow> bytes \<Rightarrow> v2_header \<Rightarrow> rcache \<times> 's \<Rightarrow> bool" where
  "v2_rv_good env archive version ok a h st \<longleftrightarrow>
     v2_world env archive version ok a h (snd st) \<and> rv_slots_right (e_key env) (V2 h) (v2_parts_of a) (fst st)"

definition v2_pc_good ::
  "'s env \<Rightarrow> ('s \<Rightarrow> bytes) \<Rightarrow> ('s \<Rightarrow> string option) \<Rightarrow> ('s \<Rightarrow> bool) \<Rightarrow> bytes \<Rightarrow> v2_header \<Rightarrow> pcache \<times> 's \<Rightarrow> bool" where
  "v2_pc_good env archive version ok a h st \<longleftrightarrow>
     v2_world env archive version ok a h (snd st) \<and> pc_slots_right (e_key env) (V2 h) (v2_parts_of a) (fst st)"

lemma v2_world_get:
  assumes "v2_world env archive version ok a h s" and "bytes_of a off l = Some b" and "tag = None \<or> tag = v2_etag h"
  shows "\<exists>r s'. e_get env off l tag s = (Inr r, s') \<and> rr_data r = b \<and> rr_etag r = v2_etag h
    \<and> v2_world env archive version ok a h s'"
proof -
  have w: "byte_source (e_get env) archive version ok" "ok s" "archive s = a" "version s = v2_etag h"
    using assms(1) by (simp_all add: v2_world_def)
  from source_get[OF w assms(2,3)] show ?thesis using assms(1) by (auto simp: v2_world_def)
qed

lemma parse_v2_header_resp:
  assumes "rr_data r = rr_data r'" and "rr_etag r = rr_etag r'"
  shows "parse_v2_header json r = parse_v2_header json r'"
  by (simp add: parse_v2_header_def assms)

lemma v2_getHeaderAndRoot:
  assumes "v2_world env archive version ok a h s"
  shows "\<exists>s'. getHeaderAndRoot env s = (Inr (V2 h, None), s') \<and> v2_world env archive version ok a h s'"
proof -
  have ok: "v2_archive_ok env a h" using assms by (simp add: v2_world_def)
  then have "0 < length a" by (auto simp: v2_archive_ok_def getUint16_def split: if_splits)
  then have b: "bytes_of a 0 16384 = Some (take 16384 a)" "bytes_of a 0 512000 = Some (take 512000 a)"
    by (simp_all add: bytes_of_def)
  obtain r s1 where g: "e_get env 0 16384 None s = (Inr r, s1)" "rr_data r = take 16384 a"
    "v2_world env archive version ok a h s1"
    using v2_world_get[OF assms b(1), of None] by blast
  obtain r2 s2 where g2: "e_get env 0 512000 None s1 = (Inr r2, s2)" "rr_data r2 = take 512000 a"
    "rr_etag r2 = v2_etag h" "v2_world env archive version ok a h s2"
    using v2_world_get[OF g(3) b(2), of None] by blast
  have "parse_v2_header (e_json env) r2 = Inr h"
    using ok parse_v2_header_resp[of r2 "\<lparr>rr_data = take 512000 a, rr_etag = v2_etag h, rr_cache_control = None, rr_expires = None\<rparr>"]
      g2(2,3) by (simp add: v2_archive_ok_def)
  with ok g g2 show ?thesis
    by (auto simp: getHeaderAndRoot_def v2_getHeader_def v2_archive_ok_def split: sum.splits)
qed

lemma v2_fetch_buffer:
  assumes "v2_world env archive version ok a h s" and "bytes_of a off l = Some b"
  shows "\<exists>s'. fetch_buffer env off l (V2 h) s = (Inr b, s') \<and> v2_world env archive version ok a h s'"
  using v2_world_get[OF assms, of "v2_etag h"] by (auto simp: fetch_buffer_def h_tag_def)

interpretation v2_archive: served_archive env "V2 h" "v2_parts_of a" "v2_world env archive version ok a h"
  for env :: "'s env" and h a archive version ok
proof (unfold_locales, goal_cases)
  case (1 off l v)
  then show ?case by (auto simp: v2_parts_of_def dest: bytes_of_range)
next
  case (2 s)
  then show ?case using v2_getHeaderAndRoot by (fastforce simp: root_right_def)
next
  case (3 s off l v)
  then obtain b where b: "bytes_of a off l = Some b" "v = C_bytes b" by (auto simp: v2_parts_of_def)
  from v2_fetch_buffer[OF 3(1) b(1)] b(2) show ?case by (auto simp: part_task_def run_task_def)
qed

text \<open>Both caches are such a cache.\<close>

lemma v2_directory_sorted:
  assumes "v2_dir_of a (v2_specVersion h) off l = Some es" and "bytes_of a off l = Some b"
    and "c_getArrayBuffer ops env off l (V2 h) st = (Inr b, st')"
  shows "v2_directory ops env off l (V2 h) st = (Inr (createDirectory es), st')"
  using assms by (auto simp: v2_dir_of_def v2_directory_def h_spec_def sortDir_def split: sum.splits if_splits)

lemma v2_dir_ofE:
  assumes "v2_dir_of a spec off l = Some es"
  obtains b where "bytes_of a off l = Some b" "v2_parts_of a off l = Some (C_bytes b)" "v2_dir_ok es"
  using assms by (auto simp: v2_dir_of_def v2_parts_of_def split: option.splits sum.splits if_splits)

lemma v2_bytes_law:
  assumes "v2_world env archive version ok a h s" and "bytes_of a off l = Some b" and "tag = None \<or> tag = v2_etag h"
  shows "\<exists>r s'. on_source (e_get env off l tag) (c, s) = (Inr r, c, s') \<and> rr_data r = b
    \<and> v2_world env archive version ok a h s'"
  using v2_world_get[OF assms] by (auto simp: on_source_def)

interpretation v2_value: v2_cache resolved_ops env h "bytes_of a" "v2_rv_good env archive version ok a h"
    "v2_dir_of a (v2_specVersion h)"
  for env :: "'s env" and h a archive version ok
proof (unfold_locales, goal_cases)
  case (1 st)
  then show ?case using v2_archive.rv_header_right[of env h a "fst st" archive version ok "snd st"]
    by (auto simp: v2_rv_good_def resolved_ops_def)
next
  case (2 st off l b tag)
  then show ?case using v2_bytes_law[of env archive version ok a h "snd st" off l b tag "fst st"]
    by (auto simp: v2_rv_good_def h_tag_def)
next
  case (3 st)
  then show ?case by (cases st) (simp add: v2_rv_good_def resolved_ops_def rv_invalidate_def rv_slots_right_delete)
next
  case (4 st off l es)
  obtain b where b: "bytes_of a off l = Some b" "v2_parts_of a off l = Some (C_bytes b)" using 4(2) by (rule v2_dir_ofE)
  obtain s' where f: "fetch_buffer env off l (V2 h) (snd st) = (Inr b, s')" "v2_world env archive version ok a h s'"
    using 4(1) v2_fetch_buffer[OF _ b(1), of env archive version ok h "snd st"] by (auto simp: v2_rv_good_def)
  from v2_archive.rv_part_right[where fetch = "fetch_buffer env off l (V2 h)" and wrap = C_bytes and read = as_bytes
      and s = "snd st" and r = b and c = "fst st" and archive = archive and version = version and ok = ok, OF _ _ b(2) f] 4(1)
  have "\<exists>st'. c_getArrayBuffer resolved_ops env off l (V2 h) st = (Inr b, st') \<and> v2_rv_good env archive version ok a h st'"
    by (auto simp: v2_rv_good_def resolved_ops_def rv_getArrayBuffer_def Let_def)
  then show ?case using v2_directory_sorted[OF 4(2) b(1)] by blast
next
  case (5 off l es)
  then show ?case by (rule v2_dir_ofE)
qed

interpretation v2_shared: v2_cache promise_ops env h "bytes_of a" "v2_pc_good env archive version ok a h"
    "v2_dir_of a (v2_specVersion h)"
  for env :: "'s env" and h a archive version ok
proof (unfold_locales, goal_cases)
  case (1 st)
  then show ?case using v2_archive.pc_header_right[of env h a "fst st" archive version ok "snd st"]
    by (auto simp: v2_pc_good_def promise_ops_def)
next
  case (2 st off l b tag)
  then show ?case using v2_bytes_law[of env archive version ok a h "snd st" off l b tag "fst st"]
    by (auto simp: v2_pc_good_def h_tag_def)
next
  case (3 st)
  then show ?case by (cases st) (simp add: v2_pc_good_def promise_ops_def pc_slots_right_invalidate)
next
  case (4 st off l es)
  obtain b where b: "bytes_of a off l = Some b" "v2_parts_of a off l = Some (C_bytes b)" using 4(2) by (rule v2_dir_ofE)
  from v2_archive.pc_part_right[where env = env and h = h and read = as_bytes and c = "fst st" and s = "snd st"
      and archive = archive and version = version and ok = ok, OF _ _ b(2)] 4(1)
  have "\<exists>st'. c_getArrayBuffer promise_ops env off l (V2 h) st = (Inr b, st') \<and> v2_pc_good env archive version ok a h st'"
    by (auto simp: v2_pc_good_def promise_ops_def pc_getArrayBuffer_def part_task_def)
  then show ?case using v2_directory_sorted[OF 4(2) b(1)] by blast
next
  case (5 off l es)
  then show ?case by (rule v2_dir_ofE)
qed

definition v2_tile_of :: "'s env \<Rightarrow> bytes \<Rightarrow> v2_header \<Rightarrow> nat \<Rightarrow> int \<Rightarrow> int \<Rightarrow> (js_error + bytes option) option" where
  "v2_tile_of env a h = v2_held (v2_dir_of a (v2_specVersion h)) (bytes_of a) (e_inflate env) h"

text \<open>
  C5: Archives of the versions 1 and 2 are read right. From any good state of either cache and the
  source, \<^verbatim>\<open>getZxy\<close> gives for a tile of the levels 0 to 26 what the archive holds for it: the bytes
  of its entry in the root directory or, when that has none, in the leaf of its ancestor on the level of
  the leaves, unpacked when they start with the magic number of gzip; that there is no such tile; or the
  error of unpacking. The directories of version 1 may be in any order. The state stays good.
\<close>

theorem v2_getZxy_refines_archive:
  assumes "v2_pc_good env archive version ok a h st1" and "v2_rv_good env archive version ok a h st2"
    and "z \<le> 26" and "0 \<le> x" and "x < 2 ^ z" and "0 \<le> y" and "y < 2 ^ z" and "v2_tile_of env a h z x y = Some r"
  shows "(\<exists>t st'. getZxy promise_ops env z (of_int x) (of_int y) st1 = (t, st') \<and> contents t = r
      \<and> v2_pc_good env archive version ok a h st')
    \<and> (\<exists>t st'. getZxy resolved_ops env z (of_int x) (of_int y) st2 = (t, st') \<and> contents t = r
      \<and> v2_rv_good env archive version ok a h st')"
  using v2_shared.serve_tile[OF assms(1)] v2_value.serve_tile[OF assms(2)] assms(3-8)
  by (simp add: v2_tile_of_def tile_place_def)

section \<open>An archive of version 2\<close>

text \<open>A root directory with one tile and one leaf, and a tile of the level below the leaf.\<close>

definition v2_demo_root :: "v2_entry list" where
  "v2_demo_root =
     [\<lparr>ez = 0, ex = 0, ey = 0, eoffset = 63, elength = 2, isDir = False\<rparr>,
      \<lparr>ez = 1, ex = 0, ey = 1, eoffset = 46, elength = 17, isDir = True\<rparr>]"

definition v2_demo_leaf :: "v2_entry list" where
  "v2_demo_leaf = [\<lparr>ez = 2, ex = 1, ey = 3, eoffset = 65, elength = 1, isDir = False\<rparr>]"

definition v2_demo :: bytes where
  "v2_demo = [80, 77, 2, 0, 2, 0, 0, 0, 2, 0, 123, 125] @ createDirectory v2_demo_root
     @ createDirectory v2_demo_leaf @ [7, 9, 8]"

definition v2_demo_env :: "file_source env" where
  "v2_demo_env = demo_env\<lparr>e_json := (\<lambda>_. Inr (Obj []))\<rparr>"

definition v2_demo_header :: v2_header where
  "v2_demo_header = \<lparr>v2_specVersion = 2, v2_rootOffset = 12, v2_rootLength = 34, v2_metadataOffset = 10,
     v2_metadataLength = 2, v2_tileCompression = 0, v2_tileType = 1, v2_minZoom = Fin 0, v2_maxZoom = Fin 0,
     v2_minLon = Fin (- 180), v2_minLat = Fin (- 85), v2_maxLon = Fin 180, v2_maxLat = Fin 85,
     v2_centerZoom = Fin 0, v2_centerLon = Fin 0, v2_centerLat = Fin 0, v2_etag = None\<rparr>"

lemma v2_demo_dirs: "v2_dir_ok v2_demo_root" "v2_dir_ok v2_demo_leaf"
  by (simp_all add: v2_dir_ok_def v2_demo_root_def v2_demo_leaf_def v2_ok_def v2_key_def zRaw_of_def)

lemma v2_demo_parsed:
  "parse_entries (createDirectory v2_demo_root) 0 = Inr v2_demo_root"
  "parse_entries (createDirectory v2_demo_leaf) 0 = Inr v2_demo_leaf"
  using v2_demo_dirs
  by (simp_all add: parse_created v2_dir_ok_def)
    (simp_all add: v2_demo_root_def v2_demo_leaf_def v2_key_def zRaw_of_def kept_offset_def)

lemma v2_demo_lengths: "length (createDirectory v2_demo_root) = 34" "length (createDirectory v2_demo_leaf) = 17"
  using v2_demo_dirs by (simp_all add: createDirectory_bytes v2_dir_ok_def) (simp_all add: v2_demo_root_def v2_demo_leaf_def)

lemma v2_demo_dir_of:
  "v2_dir_of v2_demo 2 12 34 = Some v2_demo_root" "v2_dir_of v2_demo 2 46 17 = Some v2_demo_leaf"
  by (simp_all add: v2_dir_of_def bytes_of_def v2_demo_def v2_demo_lengths v2_demo_parsed v2_demo_dirs)

lemma v2_demo_ok: "v2_archive_ok v2_demo_env v2_demo v2_demo_header"
proof -
  have "length v2_demo = 66" by (simp add: v2_demo_def v2_demo_lengths)
  then have t: "take 16384 v2_demo = v2_demo" "take 512000 v2_demo = v2_demo" "length v2_demo = 66" by simp_all
  have b: "getUint16 v2_demo 0 = Inr 19792" "getUint16 v2_demo 2 = Inr 2" "getUint32 v2_demo 4 = Inr 2"
    "getUint16 v2_demo 8 = Inr 2"
    by (simp_all add: getUint16_def getUint32_def t(3) v2_demo_lengths) (simp_all add: v2_demo_def)
  show ?thesis
    by (simp add: v2_archive_ok_def t b detectVersion_def parse_v2_header_def v2_demo_header_def v2_demo_env_def
        read_prop_def get_prop_def zoom_prop_def has_key_def bounds_prop_def center_prop_def truthy_def
        compression_code_def)
qed

lemma v2_demo_tile: "v2_tile_of v2_demo_env v2_demo v2_demo_header 2 1 3 = Some (Inr (Some [8]))"
proof -
  have q: "find_v2 False 2 1 3 v2_demo_root = None" "leaf_level v2_demo_root = Some 1"
    "find_v2 True 1 0 1 v2_demo_root = Some (v2_demo_root ! Suc 0)"
    "find_v2 False 2 1 3 v2_demo_leaf = Some (v2_demo_leaf ! 0)"
    by (simp_all add: find_v2_def leaf_level_def v2_demo_root_def v2_demo_leaf_def)
  have e: "eoffset (v2_demo_root ! Suc 0) = 46" "elength (v2_demo_root ! Suc 0) = 17"
    "eoffset (v2_demo_leaf ! 0) = 65" "elength (v2_demo_leaf ! 0) = 1"
    by (simp_all add: v2_demo_root_def v2_demo_leaf_def)
  have "bytes_of v2_demo 65 1 = Some [8]"
    by (simp add: bytes_of_def v2_demo_def v2_demo_lengths)
  then show ?thesis
    by (simp add: v2_tile_of_def v2_held_def v2_demo_header_def v2_demo_dir_of q e v2_bytes_def v2_unpack_def getUint8_def)
qed

lemma v2_getZxy_refines_archive_witness:
  "contents (fst (getZxy promise_ops v2_demo_env 2 (of_int 1) (of_int 3)
      (new_SharedPromiseCache 100, \<lparr>file_name = ''demo'', content = v2_demo\<rparr>))) = Inr (Some [8])"
proof -
  have w: "v2_world v2_demo_env content (\<lambda>_. None) (\<lambda>_. True) v2_demo v2_demo_header \<lparr>file_name = ''demo'', content = v2_demo\<rparr>"
    using v2_demo_ok local_file.byte_source_axioms
    by (simp add: v2_world_def v2_demo_env_def demo_env_def v2_demo_header_def)
  have p: "v2_pc_good v2_demo_env content (\<lambda>_. None) (\<lambda>_. True) v2_demo v2_demo_header
      (new_SharedPromiseCache 100, \<lparr>file_name = ''demo'', content = v2_demo\<rparr>)"
    using w by (simp add: v2_pc_good_def pc_slots_right_def new_SharedPromiseCache_def)
  have r: "v2_rv_good v2_demo_env content (\<lambda>_. None) (\<lambda>_. True) v2_demo v2_demo_header
      (new_ResolvedValueCache 100, \<lparr>file_name = ''demo'', content = v2_demo\<rparr>)"
    using w by (simp add: v2_rv_good_def rv_slots_right_def new_ResolvedValueCache_def)
  from v2_getZxy_refines_archive[OF p r, of 2 1 3] v2_demo_tile show ?thesis by auto
qed

end
