(* ===== verification/Concurrent_Readers.thy ===== *)
theory Concurrent_Readers
  imports Transparency
begin

text \<open>
  Many calls of \<^verbatim>\<open>getZxy\<close> at once, over the default cache. A map asks for all tiles of a view
  together, so the calls overlap: each runs from one suspension to the next, in any order, and they share
  the cache, its promises and the source. \<open>run_step\<close> is the event loop's view of them. A call that runs
  alone does what \<open>getZxy\<close> does, in every run; together they finish, whatever the source answers; and over an archive
  that stays what it is each gets what the archive holds, in every order.
\<close>

section \<open>A call between two suspensions\<close>

text \<open>
  What a call waits for, a promise of the cache or bytes of the source, with what it goes on with: the
  local variables of \<^verbatim>\<open>getZxyAttempt\<close> and of the \<^verbatim>\<open>getZxy\<close> of \<^verbatim>\<open>v2.ts\<close> at that point.
\<close>

datatype waiting = For_header rat | For_directory any_header rat nat | For_root any_header | For_leaf any_header

datatype reading = Tile_bytes any_header | Old_tile_bytes

datatype phase =
    Idle
  | Awaits nat waiting
  | Reads int int "string option" reading
  | Returned "js_error + tile option"

text \<open>A call of \<^verbatim>\<open>getZxy\<close>: its arguments, whether it is in its second attempt, and where it is.\<close>

record call =
  c_z :: nat
  c_x :: rat
  c_y :: rat
  c_again :: bool
  c_phase :: phase

definition new_call :: "nat \<Rightarrow> rat \<Rightarrow> rat \<Rightarrow> call" where
  "new_call z x y = \<lparr>c_z = z, c_x = x, c_y = y, c_again = False, c_phase = Idle\<rparr>"

text \<open>The synchronous parts. The cache starts or shares a fetch, and the call waits for its promise.\<close>

definition ask :: "string \<Rightarrow> task \<Rightarrow> waiting \<Rightarrow> pcache \<Rightarrow> phase \<times> pcache" where
  "ask k t w c = (case pc_request k t c of (p, c') \<Rightarrow> (Awaits p w, c'))"

definition ask_directory :: "'s env \<Rightarrow> any_header \<Rightarrow> rat \<Rightarrow> nat \<Rightarrow> int \<Rightarrow> int \<Rightarrow> pcache \<Rightarrow> phase \<times> pcache" where
  "ask_directory env h tid n dO dL c =
     (case n of
        0 \<Rightarrow> (Returned (Inl (Error ''Maximum directory depth exceeded'')), c)
      | Suc m \<Rightarrow> ask (dir_key (e_key env) (h_tag h) dO dL) (T_dir dO dL h) (For_directory h tid m) c)"

definition ask_buffer :: "'s env \<Rightarrow> any_header \<Rightarrow> int \<Rightarrow> int \<Rightarrow> waiting \<Rightarrow> pcache \<Rightarrow> phase \<times> pcache" where
  "ask_buffer env h off l w c = ask (dir_key (e_key env) (h_tag h) off l) (T_buffer off l h) w c"

definition begin_attempt :: "'s env \<Rightarrow> nat \<Rightarrow> rat \<Rightarrow> rat \<Rightarrow> pcache \<Rightarrow> phase \<times> pcache" where
  "begin_attempt env z x y c =
     (case zxyToTileId z x y of
        Inl e \<Rightarrow> (Returned (Inl e), c)
      | Inr tid \<Rightarrow> ask (e_key env) T_header (For_header tid) c)"

definition after_header :: "'s env \<Rightarrow> nat \<Rightarrow> rat \<Rightarrow> any_header \<Rightarrow> pcache \<Rightarrow> phase \<times> pcache" where
  "after_header env z tid h c =
     (if h_spec h < 3 then ask_buffer env h (h_rootOffset h) (h_rootLength h) (For_root h) c
      else if jless (Fin (of_nat z)) (h_minZoom h) \<or> jless (h_maxZoom h) (Fin (of_nat z)) then (Returned (Inr None), c)
      else ask_directory env h tid 4 (h_rootOffset h) (h_rootLength h) c)"

definition after_directory :: "'s env \<Rightarrow> any_header \<Rightarrow> rat \<Rightarrow> nat \<Rightarrow> entry list \<Rightarrow> pcache \<Rightarrow> phase \<times> pcache" where
  "after_directory env h tid n directory c =
     (case findTile directory tid of
        None \<Rightarrow> (Returned (Inr None), c)
      | Some entry \<Rightarrow>
          if runLength entry > 0 then
            (Reads (fli (h_tileDataOffset h + offset entry)) (len entry) (h_tag h) (Tile_bytes h), c)
          else ask_directory env h tid n (fli (h_leafDirectoryOffset h + offset entry)) (len entry) c)"

text \<open>The versions 1 and 2: the last search of a directory, and the one of the root before it.\<close>

definition read_old_tile :: "v2_entry option \<Rightarrow> phase" where
  "read_old_tile found =
     (case found of
        None \<Rightarrow> Returned (Inr None)
      | Some e \<Rightarrow> Reads (eoffset e) (elength e) None Old_tile_bytes)"

definition thrown :: "js_error + phase \<times> pcache \<Rightarrow> pcache \<Rightarrow> phase \<times> pcache" where
  "thrown r c = (case r of Inl e \<Rightarrow> (Returned (Inl e), c) | Inr pc \<Rightarrow> pc)"

definition sorted_directory :: "any_header \<Rightarrow> bytes \<Rightarrow> js_error + bytes" where
  "sorted_directory h b = (if h_spec h = 1 then sortDir b else Inr b)"

definition after_root :: "'s env \<Rightarrow> nat \<Rightarrow> rat \<Rightarrow> rat \<Rightarrow> any_header \<Rightarrow> bytes \<Rightarrow> pcache \<Rightarrow> phase \<times> pcache" where
  "after_root env z x y h b c = thrown
     (bind_sum (sorted_directory h b) (\<lambda>rootDir.
      bind_sum (queryTile rootDir (int z) x y) (\<lambda>entry.
      if entry \<noteq> None then Inr (read_old_tile entry, c) else
      bind_sum (deriveLeaf rootDir (int z) x y) (\<lambda>leafcoords.
      case leafcoords of None \<Rightarrow> Inr (Returned (Inr None), c) | Some (lz, lx, ly) \<Rightarrow>
      bind_sum (queryLeafdir rootDir lz lx ly) (\<lambda>leafdirEntry.
      case leafdirEntry of None \<Rightarrow> Inr (Returned (Inr None), c) | Some le \<Rightarrow>
        Inr (ask_buffer env h (eoffset le) (elength le) (For_leaf h) c)))))) c"

definition after_leaf :: "nat \<Rightarrow> rat \<Rightarrow> rat \<Rightarrow> any_header \<Rightarrow> bytes \<Rightarrow> pcache \<Rightarrow> phase \<times> pcache" where
  "after_leaf z x y h b c = thrown
     (bind_sum (sorted_directory h b) (\<lambda>leafDir.
      bind_sum (queryTile leafDir (int z) x y) (\<lambda>entry. Inr (read_old_tile entry, c)))) c"

text \<open>A call goes on when its promise has settled, or when its bytes have arrived.\<close>

definition go_on :: "'s env \<Rightarrow> nat \<Rightarrow> rat \<Rightarrow> rat \<Rightarrow> waiting \<Rightarrow> js_error + cached \<Rightarrow> pcache \<Rightarrow> phase \<times> pcache" where
  "go_on env z x y w v c =
     (case w of
        For_header tid \<Rightarrow> thrown (bind_sum v (\<lambda>d. bind_sum (as_header d) (\<lambda>h. Inr (after_header env z tid h c)))) c
      | For_directory h tid n \<Rightarrow>
          thrown (bind_sum v (\<lambda>d. bind_sum (as_dir d) (\<lambda>es. Inr (after_directory env h tid n es c)))) c
      | For_root h \<Rightarrow> thrown (bind_sum v (\<lambda>d. bind_sum (as_bytes d) (\<lambda>b. Inr (after_root env z x y h b c)))) c
      | For_leaf h \<Rightarrow> thrown (bind_sum v (\<lambda>d. bind_sum (as_bytes d) (\<lambda>b. Inr (after_leaf z x y h b c)))) c)"

definition unpack_tile :: "'s env \<Rightarrow> reading \<Rightarrow> range_response \<Rightarrow> js_error + tile" where
  "unpack_tile env r resp =
     (let view = rr_data resp in
      case r of
        Tile_bytes h \<Rightarrow>
          bind_sum (e_tile_decompress env view (h_tileCompression h)) (\<lambda>d.
          Inr \<lparr>tile_data = d, tile_cacheControl = rr_cache_control resp, tile_expires = rr_expires resp\<rparr>)
      | Old_tile_bytes \<Rightarrow>
          bind_sum (getUint8 view 0) (\<lambda>b0.
          bind_sum (if b0 = 31 then getUint8 view 1 else Inr 0) (\<lambda>b1.
          bind_sum (if b0 = 31 \<and> b1 = 139 then e_inflate env view else Inr view) (\<lambda>d.
          Inr \<lparr>tile_data = d, tile_cacheControl = None, tile_expires = None\<rparr>))))"

definition arrived :: "'s env \<Rightarrow> reading \<Rightarrow> js_error + range_response \<Rightarrow> phase" where
  "arrived env r res = Returned (map_sum id Some (bind_sum res (unpack_tile env r)))"

section \<open>Many calls\<close>

text \<open>
  What a settled promise gives those who wait for it, and what a call has returned: a first attempt that
  met another version of the archive has not returned yet.
\<close>

definition settled :: "promise \<Rightarrow> (js_error + cached) option" where
  "settled r = (case r of Pending t \<Rightarrow> None | Fulfilled v \<Rightarrow> Some (Inr v) | Rejected e \<Rightarrow> Some (Inl e))"

definition result :: "call \<Rightarrow> (js_error + tile option) option" where
  "result cl = (case c_phase cl of
     Returned r \<Rightarrow> if r = Inl Etag_mismatch \<and> \<not> c_again cl then None else Some r
   | _ \<Rightarrow> None)"

definition move :: "nat \<Rightarrow> phase \<Rightarrow> call list \<Rightarrow> call list" where
  "move i ph cls = cls[i := (cls ! i)\<lparr>c_phase := ph\<rparr>]"

definition move_again :: "nat \<Rightarrow> phase \<Rightarrow> call list \<Rightarrow> call list" where
  "move_again i ph cls = cls[i := (cls ! i)\<lparr>c_again := True, c_phase := ph\<rparr>]"

text \<open>
  One step of the event loop: a call begins, goes on, gets its bytes, or begins its second attempt with
  the header dropped from the cache; or a fetch of the cache ends. A fetch and a read are one step, when
  the answer arrives.
\<close>

inductive run_step :: "'s env \<Rightarrow> pcache \<times> 's \<times> call list \<Rightarrow> pcache \<times> 's \<times> call list \<Rightarrow> bool" for env where
  begins: "i < length cls \<Longrightarrow> c_phase (cls ! i) = Idle
    \<Longrightarrow> begin_attempt env (c_z (cls ! i)) (c_x (cls ! i)) (c_y (cls ! i)) c = (ph, c')
    \<Longrightarrow> run_step env (c, s, cls) (c', s, move i ph cls)"
| goes_on: "i < length cls \<Longrightarrow> c_phase (cls ! i) = Awaits p w \<Longrightarrow> settled (promises c ! p) = Some v
    \<Longrightarrow> go_on env (c_z (cls ! i)) (c_x (cls ! i)) (c_y (cls ! i)) w v c = (ph, c')
    \<Longrightarrow> run_step env (c, s, cls) (c', s, move i ph cls)"
| gets: "i < length cls \<Longrightarrow> c_phase (cls ! i) = Reads off l tag r \<Longrightarrow> e_get env off l tag s = (res, s')
    \<Longrightarrow> run_step env (c, s, cls) (c, s', move i (arrived env r res) cls)"
| begins_again: "i < length cls \<Longrightarrow> c_phase (cls ! i) = Returned (Inl Etag_mismatch) \<Longrightarrow> \<not> c_again (cls ! i)
    \<Longrightarrow> begin_attempt env (c_z (cls ! i)) (c_x (cls ! i)) (c_y (cls ! i)) (pc_invalidate (e_key env) c) = (ph, c')
    \<Longrightarrow> run_step env (c, s, cls) (c', s, move_again i ph cls)"
| settles: "p < length (promises c) \<Longrightarrow> promises c ! p = Pending t \<Longrightarrow> run_task env t s = (res, s')
    \<Longrightarrow> run_step env (c, s, cls) (pc_settle p res c, s', cls)"

section \<open>The calls finish\<close>

text \<open>The steps a call can still make, with the fetches it can start.\<close>

definition phase_work :: "phase \<Rightarrow> nat" where
  "phase_work ph =
     (case ph of
        Idle \<Rightarrow> 13
      | Awaits p w \<Rightarrow>
          (case w of For_header tid \<Rightarrow> 11 | For_directory h tid n \<Rightarrow> 2 * n + 3 | For_root h \<Rightarrow> 5 | For_leaf h \<Rightarrow> 3)
      | Reads off l tag r \<Rightarrow> 1
      | Returned r \<Rightarrow> 0)"

definition call_work :: "call \<Rightarrow> nat" where
  "call_work cl = (if c_again cl then 0 else 15) + phase_work (c_phase cl)"

definition work :: "pcache \<times> 's \<times> call list \<Rightarrow> nat" where
  "work st = (case st of (c, s, cls) \<Rightarrow> pending c + sum_list (map call_work cls))"

lemma phase_work_simps [simp]:
  "phase_work Idle = 13" "phase_work (Awaits p (For_header tid)) = 11"
  "phase_work (Awaits p (For_directory h tid n)) = 2 * n + 3" "phase_work (Awaits p (For_root h)) = 5"
  "phase_work (Awaits p (For_leaf h)) = 3" "phase_work (Reads off l tag r) = 1" "phase_work (Returned t) = 0"
  by (simp_all add: phase_work_def)

lemma pending_request: "pending (snd (pc_request k t c)) \<le> pending c + 1"
  by (cases rule: pc_request_cases[of c k t]) (simp_all add: pending_def)

lemma pending_invalidate: "pending (pc_invalidate k c) \<le> pending c + 1"
  using pending_request[of k T_header "lru_delete k c"]
  by (auto simp: pc_invalidate_def pending_def split: option.split prod.split)

lemma pending_settle:
  assumes "p < length (promises c)" and "promises c ! p = Pending t"
  shows "pending (pc_settle p res c) < pending c"
proof -
  obtain rs where rs: "promises (pc_settle p res c) = (promises c)[p := outcome_promise res] @ rs"
    "\<forall>r\<in>set rs. \<not> is_pending r"
    using settle_promises[OF assms(1)] by metis
  then have "filter is_pending rs = []" by (simp add: filter_empty_conv)
  with rs(1) count_update[OF assms(1), of is_pending "outcome_promise res"] assms(2) show ?thesis
    by (simp add: pending_def)
qed

lemma ask_work: "ask k t w c = (ph, c') \<Longrightarrow> phase_work ph + pending c' \<le> phase_work (Awaits p w) + pending c + 1"
  using pending_request[of k t c]
  by (cases w) (auto simp: ask_def split: prod.splits)

lemma ask_buffer_work:
  "ask_buffer env h off l w c = (ph, c') \<Longrightarrow> phase_work ph + pending c' \<le> phase_work (Awaits p w) + pending c + 1"
  unfolding ask_buffer_def by (rule ask_work)

lemma ask_directory_work:
  "ask_directory env h tid n off l c = (ph, c') \<Longrightarrow> phase_work ph + pending c' \<le> 2 * n + 2 + pending c"
  using ask_work[of "dir_key (e_key env) (h_tag h) off l" "T_dir off l h" "For_directory h tid (n - 1)" c ph c']
  by (cases n) (auto simp: ask_directory_def)

lemma thrown_work:
  assumes "thrown r c = (ph, c')" and "\<And>ph c'. r = Inr (ph, c') \<Longrightarrow> phase_work ph + pending c' \<le> m + pending c"
  shows "phase_work ph + pending c' \<le> m + pending c"
  using assms by (cases r) (auto simp: thrown_def)

lemma read_old_tile_work: "phase_work (read_old_tile found) \<le> 1"
  by (simp add: read_old_tile_def split: option.split)

lemma after_header_work:
  "after_header env z tid h c = (ph, c') \<Longrightarrow> phase_work ph + pending c' \<le> 10 + pending c"
  using ask_buffer_work[of env h "h_rootOffset h" "h_rootLength h" "For_root h" c ph c']
    ask_directory_work[of env h tid 4 "h_rootOffset h" "h_rootLength h" c ph c']
  by (auto simp: after_header_def split: if_splits)

lemma after_directory_work:
  "after_directory env h tid n es c = (ph, c') \<Longrightarrow> phase_work ph + pending c' \<le> 2 * n + 2 + pending c"
  using ask_directory_work[of env h tid n] by (auto simp: after_directory_def split: option.splits if_splits)

lemma after_root_work:
  assumes "after_root env z x y h b c = (ph, c')"
  shows "phase_work ph + pending c' \<le> 4 + pending c"
proof -
  have "phase_work ph' + pending c'' \<le> 4 + pending c"
    if "ask_buffer env h off l (For_leaf h) c = (ph', c'')" for off l ph' c''
    using ask_buffer_work[OF that] by simp
  moreover have "phase_work (read_old_tile e) + pending c \<le> 4 + pending c" for e
    using read_old_tile_work[of e] by linarith
  ultimately show ?thesis
    by (intro thrown_work[OF assms[unfolded after_root_def]])
      (auto simp: bind_sum_def split: sum.splits if_splits option.splits)
qed

lemma after_leaf_work:
  assumes "after_leaf z x y h b c = (ph, c')"
  shows "phase_work ph + pending c' \<le> 2 + pending c"
  by (intro thrown_work[OF assms[unfolded after_leaf_def]])
    (auto simp: bind_sum_def intro!: le_trans[OF read_old_tile_work] split: sum.splits)

lemma go_on_work:
  assumes "go_on env z x y w v c = (ph, c')"
  shows "phase_work ph + pending c' < phase_work (Awaits p w) + pending c"
proof -
  have r: "phase_work ph + pending c' \<le> m + pending c"
    if "thrown (bind_sum v (\<lambda>d. bind_sum (rd d) (\<lambda>x. Inr (f x)))) c = (ph, c')"
      "\<And>x ph c'. f x = (ph, c') \<Longrightarrow> phase_work ph + pending c' \<le> m + pending c" for m rd and f :: "'b \<Rightarrow> phase \<times> pcache"
    using that(2) by (intro thrown_work[OF that(1)]) (auto simp: bind_sum_def split: sum.splits)
  show ?thesis
  proof (cases w)
    case (For_header tid)
    with r[of as_header "\<lambda>h. after_header env z tid h c" 10] after_header_work assms show ?thesis
      by (fastforce simp: go_on_def)
  next
    case (For_directory h tid n)
    with r[of as_dir "\<lambda>es. after_directory env h tid n es c" "2 * n + 2"] after_directory_work assms show ?thesis
      by (fastforce simp: go_on_def)
  next
    case (For_root h)
    with r[of as_bytes "\<lambda>b. after_root env z x y h b c" 4] after_root_work assms show ?thesis
      by (fastforce simp: go_on_def)
  next
    case (For_leaf h)
    with r[of as_bytes "\<lambda>b. after_leaf z x y h b c" 2] after_leaf_work assms show ?thesis
      by (fastforce simp: go_on_def)
  qed
qed

lemma begin_work:
  "begin_attempt env z x y c = (ph, c') \<Longrightarrow> phase_work ph + pending c' \<le> 12 + pending c"
  using ask_work[of "e_key env" T_header _ c ph c'] by (fastforce simp: begin_attempt_def split: sum.splits)

lemma sum_list_move:
  fixes f :: "'a \<Rightarrow> nat"
  shows "i < length xs \<Longrightarrow> sum_list (map f (xs[i := y])) + f (xs ! i) = sum_list (map f xs) + f y"
proof (induction xs arbitrary: i)
  case (Cons x xs)
  then show ?case by (cases i) auto
qed simp

lemma move_work:
  assumes "i < length cls"
  shows "sum_list (map call_work (move i ph cls)) + phase_work (c_phase (cls ! i)) = sum_list (map call_work cls) + phase_work ph"
    and "c_again (cls ! i) = False \<Longrightarrow> sum_list (map call_work (move_again i ph cls)) + 15 + phase_work (c_phase (cls ! i))
      = sum_list (map call_work cls) + phase_work ph"
  using sum_list_move[OF assms, of call_work "(cls ! i)\<lparr>c_phase := ph\<rparr>"]
    sum_list_move[OF assms, of call_work "(cls ! i)\<lparr>c_again := True, c_phase := ph\<rparr>"]
  by (simp_all add: move_def move_again_def call_work_def)

lemma run_step_work: "run_step env st st' \<Longrightarrow> work st' < work st"
proof (induction rule: run_step.induct)
  case (begins i cls c ph c' s)
  with begin_work[OF begins(3)] move_work(1)[OF begins(1), of ph] show ?case by (simp add: work_def)
next
  case (goes_on i cls p w c v ph c' s)
  with go_on_work[OF goes_on(4), of p] move_work(1)[OF goes_on(1), of ph] show ?case by (simp add: work_def)
next
  case (gets i cls off l tag r s res s' c)
  with move_work(1)[OF gets(1), of "arrived env r res"] show ?case by (simp add: work_def arrived_def)
next
  case (begins_again i cls c ph c' s)
  with begin_work[OF begins_again(4)] pending_invalidate[of "e_key env" c] move_work(2)[OF begins_again(1), of ph]
  show ?case by (simp add: work_def)
next
  case (settles p c t s res s' cls)
  with pending_settle[of p c t res] show ?case by (simp add: work_def)
qed

text \<open>What a synchronous part leaves behind: promises are only added, and what is waited for is one of them.\<close>

definition phase_valid :: "pcache \<Rightarrow> phase \<Rightarrow> bool" where
  "phase_valid c ph = (case ph of Awaits p w \<Rightarrow> p < length (promises c) | _ \<Rightarrow> True)"

definition sound :: "pcache \<Rightarrow> phase \<times> pcache \<Rightarrow> bool" where
  "sound c pc \<longleftrightarrow> slots_valid (snd pc) \<and> (\<exists>rs. promises (snd pc) = promises c @ rs) \<and> phase_valid (snd pc) (fst pc)"

lemma phase_valid_simps [simp]:
  "phase_valid c Idle" "phase_valid c (Reads off l tag r)" "phase_valid c (Returned t)"
  "phase_valid c (Awaits p w) \<longleftrightarrow> p < length (promises c)"
  by (simp_all add: phase_valid_def)

lemma sound_stay [simp]: "slots_valid c \<Longrightarrow> phase_valid c ph \<Longrightarrow> sound c (ph, c)"
  by (simp add: sound_def)

lemma slots_valid_request:
  assumes "slots_valid c" and "pc_request k t c = (p, c')"
  shows "slots_valid c' \<and> p < length (promises c') \<and> (\<exists>rs. promises c' = promises c @ rs)"
proof (cases rule: pc_request_cases[of c k t])
  case (shared q sl)
  with assms map_of_slot[OF assms(1) shared(1)] show ?thesis by (auto simp: slots_valid_set)
next
  case fresh
  with assms slots_valid_new[OF assms(1), of "Pending t"] show ?thesis
    by (auto simp: slots_valid_set)
qed

lemma slots_valid_invalidate:
  assumes "slots_valid c"
  shows "slots_valid (pc_invalidate k c) \<and> (\<exists>rs. promises (pc_invalidate k c) = promises c @ rs)"
proof (cases "map_of (invalidations c) k")
  case None
  obtain p c' where r: "pc_request k T_header (lru_delete k c) = (p, c')" by fastforce
  have "slots_valid (lru_delete k c)"
    using assms set_delete[of k "cache c"] by (auto simp: slots_valid_def lru_delete_def)
  from slots_valid_request[OF this r] show ?thesis by (simp add: pc_invalidate_def None r slots_valid_def)
qed (use assms in \<open>simp add: pc_invalidate_def\<close>)

lemma slots_valid_settle:
  assumes "slots_valid c"
  shows "slots_valid (pc_settle p res c) \<and> length (promises c) \<le> length (promises (pc_settle p res c))"
proof (cases res)
  case (Inr out)
  have v: "slots_valid (pc_store_root out c) \<and> length (promises c) \<le> length (promises (pc_store_root out c))"
    by (cases rule: pc_store_root_cases[of out c]) (simp_all add: assms slots_valid_set slots_valid_new)
  then show ?thesis
    by (auto simp: pc_settle_def Inr slots_valid_def pc_prune_def dest: set_delete_min[THEN subsetD])
qed (use assms in \<open>simp add: pc_settle_def slots_valid_def\<close>)

lemma ask_sound: "slots_valid c \<Longrightarrow> sound c (ask k t w c)"
  using slots_valid_request[of c k t] by (auto simp: ask_def sound_def split: prod.split)

lemma thrown_simps [simp]: "thrown (Inl e) c = (Returned (Inl e), c)" "thrown (Inr pc) c = pc"
  by (simp_all add: thrown_def)

lemma thrown_bind_sound:
  "slots_valid c \<Longrightarrow> (\<And>x. sound c (thrown (f x) c)) \<Longrightarrow> sound c (thrown (bind_sum v f) c)"
  by (cases v) simp_all

lemma read_old_tile_valid [simp]: "phase_valid c (read_old_tile found)"
  by (simp add: read_old_tile_def split: option.split)

lemma ask_directory_sound: "slots_valid c \<Longrightarrow> sound c (ask_directory env h tid n off l c)"
  by (simp add: ask_directory_def ask_sound split: nat.split)

lemma begin_sound: "slots_valid c \<Longrightarrow> sound c (begin_attempt env z x y c)"
  by (simp add: begin_attempt_def ask_sound split: sum.split)

lemma go_on_sound:
  assumes "slots_valid c"
  shows "sound c (go_on env z x y w v c)"
proof -
  have "sound c (after_header env z tid h c)" "sound c (after_directory env h tid n es c)"
    "sound c (after_leaf z x y h b c)" "sound c (after_root env z x y h b c)" for tid h n es b
    using assms
    by (simp_all add: after_header_def after_directory_def after_leaf_def after_root_def ask_buffer_def ask_sound
        ask_directory_sound thrown_bind_sound split: option.split)
  then show ?thesis
    using assms by (simp add: go_on_def thrown_bind_sound split: waiting.split)
qed

definition calls_valid :: "pcache \<times> 's \<times> call list \<Rightarrow> bool" where
  "calls_valid st = (case st of (c, s, cls) \<Rightarrow> slots_valid c \<and> list_all (\<lambda>cl. phase_valid c (c_phase cl)) cls)"

lemma phase_valid_mono:
  "phase_valid c ph \<Longrightarrow> length (promises c) \<le> length (promises c') \<Longrightarrow> phase_valid c' ph"
  by (cases ph) simp_all

lemma calls_valid_move:
  assumes "list_all (\<lambda>cl. phase_valid c (c_phase cl)) cls" and "sound c0 (ph, c')"
    and "length (promises c) \<le> length (promises c0)"
  shows "calls_valid (c', s, move i ph cls)" and "calls_valid (c', s, move_again i ph cls)"
proof -
  have "length (promises c) \<le> length (promises c')" using assms(2,3) by (auto simp: sound_def)
  then have "\<forall>cl \<in> set cls. phase_valid c' (c_phase cl)"
    using assms(1) phase_valid_mono by (auto simp: list_all_iff)
  then show "calls_valid (c', s, move i ph cls)" and "calls_valid (c', s, move_again i ph cls)"
    using assms(2) set_update_subset_insert[of cls i] unfolding calls_valid_def move_def move_again_def sound_def prod.case
    by (fastforce simp: list_all_iff)+
qed

lemma run_step_valid: "run_step env st st' \<Longrightarrow> calls_valid st \<Longrightarrow> calls_valid st'"
proof (induction rule: run_step.induct)
  case (begins i cls c ph c' s)
  have "sound c (ph, c')"
    using begins begin_sound[of c env "c_z (cls ! i)" "c_x (cls ! i)" "c_y (cls ! i)"] by (simp add: calls_valid_def)
  with begins show ?case using calls_valid_move(1)[of c cls c ph c'] by (simp add: calls_valid_def)
next
  case (goes_on i cls p w c v ph c' s)
  have "sound c (ph, c')"
    using goes_on go_on_sound[of c env "c_z (cls ! i)" "c_x (cls ! i)" "c_y (cls ! i)" w v] by (simp add: calls_valid_def)
  with goes_on show ?case using calls_valid_move(1)[of c cls c ph c'] by (simp add: calls_valid_def)
next
  case (gets i cls off l tag r s res s' c)
  then show ?case using calls_valid_move(1)[of c cls c _ c] by (simp add: calls_valid_def arrived_def)
next
  case (begins_again i cls c ph c' s)
  have i: "slots_valid (pc_invalidate (e_key env) c)" "length (promises c) \<le> length (promises (pc_invalidate (e_key env) c))"
    using begins_again slots_valid_invalidate[of c "e_key env"] by (auto simp: calls_valid_def)
  have "sound (pc_invalidate (e_key env) c) (ph, c')"
    using begins_again begin_sound[OF i(1), of env "c_z (cls ! i)" "c_x (cls ! i)" "c_y (cls ! i)"] by simp
  with begins_again i(2) show ?case
    using calls_valid_move(2)[of c cls "pc_invalidate (e_key env) c" ph c'] by (simp add: calls_valid_def)
next
  case (settles p c t s res s' cls)
  then show ?case
    using slots_valid_settle[of c p res] phase_valid_mono[of c _ "pc_settle p res c"]
    by (auto simp: calls_valid_def list_all_iff)
qed

lemma run_step_progress:
  assumes "calls_valid (c, s, cls)" and "cl \<in> set cls" and "result cl = None"
  shows "\<exists>st'. run_step env (c, s, cls) st'"
proof -
  obtain i where i: "i < length cls" "cl = cls ! i" using assms(2) by (metis in_set_conv_nth)
  have v: "phase_valid c (c_phase cl)" using assms(1,2) by (auto simp: calls_valid_def list_all_iff)
  show ?thesis
  proof (cases "c_phase cl")
    case Idle
    with i show ?thesis by (meson begins surj_pair)
  next
    case (Awaits p w)
    with v have p: "p < length (promises c)" by simp
    show ?thesis
    proof (cases "promises c ! p")
      case (Pending t)
      with p show ?thesis by (meson settles surj_pair)
    next
      case (Fulfilled d)
      then have "settled (promises c ! p) = Some (Inr d)" by (simp add: settled_def)
      with i Awaits show ?thesis by (meson goes_on surj_pair)
    next
      case (Rejected e)
      then have "settled (promises c ! p) = Some (Inl e)" by (simp add: settled_def)
      with i Awaits show ?thesis by (meson goes_on surj_pair)
    qed
  next
    case (Reads off l tag r)
    with i show ?thesis by (meson gets surj_pair)
  next
    case (Returned t)
    with assms(3) have "c_phase cl = Returned (Inl Etag_mismatch)" "\<not> c_again cl"
      by (auto simp: result_def split: if_splits)
    with i show ?thesis by (meson begins_again surj_pair)
  qed
qed

lemma run_steps_work:
  "(run_step env ^^ n) st st' \<Longrightarrow> calls_valid st \<Longrightarrow> work st' + n \<le> work st \<and> calls_valid st'"
proof (induction n arbitrary: st')
  case (Suc n)
  then obtain st1 where "(run_step env ^^ n) st st1" "run_step env st1 st'" by auto
  with Suc.IH[of st1] Suc.prems(2) run_step_work[of env st1 st'] run_step_valid[of env st1 st'] show ?case by auto
qed simp

text \<open>Calls for a list of tiles.\<close>

definition calls_for :: "(nat \<times> int \<times> int) list \<Rightarrow> call list" where
  "calls_for asks = map (\<lambda>(z, x, y). new_call z (of_int x) (of_int y)) asks"

lemma calls_for_work: "sum_list (map call_work (calls_for asks)) = 28 * length asks"
  by (induction asks) (auto simp: calls_for_def new_call_def call_work_def)

text \<open>
  C7: Calls always finish. However many calls of \<^verbatim>\<open>getZxy\<close> run at once, in whatever order they and the
  fetches go on, and whatever the source answers: a run has at most 28 steps for each call and one for
  each fetch on its way at the start, and it stops only when every call has returned.
\<close>

theorem calls_finish:
  assumes "pc_reachable m c" and "1 \<le> m" and "(run_step env ^^ n) (c, s, calls_for asks) st"
  shows "n \<le> 28 * length asks + pending c
    \<and> ((\<forall>st'. \<not> run_step env st st') \<longrightarrow> (\<forall>cl \<in> set (snd (snd st)). result cl \<noteq> None))"
proof -
  have "slots_valid c" using pc_reachable_inv[OF assms(1,2)] by (simp add: pc_inv_def)
  then have "calls_valid (c, s, calls_for asks)"
    by (auto simp: calls_valid_def calls_for_def new_call_def list_all_iff)
  from run_steps_work[OF assms(3) this] have w: "work st + n \<le> work (c, s, calls_for asks)" "calls_valid st"
    by blast+
  moreover have "work (c, s, calls_for asks) = 28 * length asks + pending c"
    by (simp add: work_def calls_for_work)
  moreover have "result cl \<noteq> None" if "\<forall>st'. \<not> run_step env st st'" "cl \<in> set (snd (snd st))" for cl
    using run_step_progress[of "fst st" "fst (snd st)" "snd (snd st)" cl env] w(2) that by auto
  ultimately show ?thesis by simp
qed

section \<open>A call alone\<close>

text \<open>
  From a phase of the only call to its return: the promises it waits for settle when it waits for them.
\<close>

definition returns ::
  "'s env \<Rightarrow> call \<Rightarrow> phase \<times> pcache \<Rightarrow> 's \<Rightarrow> (js_error + tile option) \<times> pcache \<times> 's \<Rightarrow> bool" where
  "returns env cl pc s out \<longleftrightarrow> (case out of (r, c', s') \<Rightarrow>
     slots_valid c' \<and> (run_step env)\<^sup>*\<^sup>* (snd pc, s, [cl\<lparr>c_phase := fst pc\<rparr>]) (c', s', [cl\<lparr>c_phase := Returned r\<rparr>]))"

lemma returns_now [simp]: "slots_valid c \<Longrightarrow> returns env cl (Returned r, c) s (r, c, s)"
  by (simp add: returns_def)

lemma returns_step:
  assumes "run_step env (c, s, [cl\<lparr>c_phase := ph\<rparr>]) (c1, s1, [cl\<lparr>c_phase := ph1\<rparr>])" and "returns env cl (ph1, c1) s1 out"
  shows "returns env cl (ph, c) s out"
  using assms by (cases out) (auto simp: returns_def intro: converse_rtranclp_into_rtranclp)

lemma move_alone [simp]:
  "move 0 ph' [cl\<lparr>c_phase := ph\<rparr>] = [cl\<lparr>c_phase := ph'\<rparr>]"
  by (simp add: move_def)

lemma settled_promise: "settled (outcome_promise res) = Some (map_sum id outcome_value res)"
  by (cases res) (simp_all add: settled_def outcome_promise_def)

lemma returns_await:
  assumes "slots_valid c" and "p < length (promises c)" and "pc_await env p (c, s) = (v, c', s')"
    and "slots_valid c' \<Longrightarrow> returns env cl (go_on env (c_z cl) (c_x cl) (c_y cl) w v c') s' out"
  shows "returns env cl (Awaits p w, c) s out"
proof -
  have resume: "returns env cl (Awaits p w, c') s' out" if "slots_valid c'" "settled (promises c' ! p) = Some v"
  proof -
    obtain ph c2 where g: "go_on env (c_z cl) (c_x cl) (c_y cl) w v c' = (ph, c2)" by fastforce
    have "run_step env (c', s', [cl\<lparr>c_phase := Awaits p w\<rparr>]) (c2, s', [cl\<lparr>c_phase := ph\<rparr>])"
      using goes_on[where cls = "[cl\<lparr>c_phase := Awaits p w\<rparr>]" and i = 0 and c = c' and v = v and s = s' and env = env
          and ph = ph and c' = c2 and p = p and w = w] that(2) g by simp
    then show ?thesis using assms(4)[OF that(1)] g by (auto intro: returns_step)
  qed
  show ?thesis
  proof (cases "promises c ! p")
    case (Pending t)
    obtain res s1 where r: "run_task env t s = (res, s1)" by fastforce
    with Pending assms(3) have e: "v = map_sum id outcome_value res" "c' = pc_settle p res c" "s' = s1"
      by (auto simp: pc_await_def)
    obtain rs where "promises c' = (promises c)[p := outcome_promise res] @ rs"
      using settle_promises[OF assms(2)] e(2) by metis
    then have "settled (promises c' ! p) = Some v" using assms(2) by (simp add: nth_append settled_promise e(1))
    moreover have "slots_valid c'" using slots_valid_settle[OF assms(1)] e(2) by blast
    moreover have "run_step env (c, s, [cl\<lparr>c_phase := Awaits p w\<rparr>]) (c', s', [cl\<lparr>c_phase := Awaits p w\<rparr>])"
      using settles[OF assms(2) Pending r] e(2,3) by simp
    ultimately show ?thesis using resume by (auto intro: returns_step)
  qed (use assms resume in \<open>simp_all add: pc_await_def settled_def\<close>)
qed

text \<open>Asking the cache and waiting is a method of the cache.\<close>

lemma returns_ask:
  assumes "slots_valid c" and "pc_get env k t read (c, s) = (r, c', s')"
    and "\<And>v c. slots_valid c \<Longrightarrow> go_on env (c_z cl) (c_x cl) (c_y cl) w v c
      = thrown (bind_sum v (\<lambda>d. bind_sum (read d) (\<lambda>x. Inr (f x c)))) c"
    and "slots_valid c' \<Longrightarrow> returns env cl (thrown (bind_sum r (\<lambda>x. Inr (f x c'))) c') s' out"
  shows "returns env cl (ask k t w c) s out"
proof -
  obtain p c1 where a: "pc_request k t c = (p, c1)" by fastforce
  obtain v c2 s2 where v: "pc_await env p (c1, s) = (v, c2, s2)" by (metis surj_pair)
  have e: "bind_st (v, c2, s2) (\<lambda>v st. (read v, st)) = (r, c', s')"
    using assms(2) a v by (simp add: pc_get_def)
  then have c: "c2 = c'" "s2 = s'" "r = bind_sum v read" by (cases v; simp)+
  have "thrown (bind_sum v (\<lambda>d. bind_sum (read d) (\<lambda>x. Inr (f x c')))) c' = thrown (bind_sum r (\<lambda>x. Inr (f x c'))) c'"
    unfolding c(3) by (cases v) simp_all
  then have "returns env cl (go_on env (c_z cl) (c_x cl) (c_y cl) w v c') s' out" if "slots_valid c'"
    using assms(3)[OF that] assms(4)[OF that] by simp
  then show ?thesis
    using slots_valid_request[OF assms(1) a] v c(1,2) unfolding ask_def a prod.case
    by (intro returns_await[where p = p and c = c1 and c' = c' and s' = s' and v = v]) simp_all
qed

lemma returns_read:
  assumes "slots_valid c" and "e_get env off l tag s = (res, s')"
  shows "returns env cl (Reads off l tag r, c) s (map_sum id Some (bind_sum res (unpack_tile env r)), c, s')"
proof -
  have "run_step env (c, s, [cl\<lparr>c_phase := Reads off l tag r\<rparr>]) (c, s', [cl\<lparr>c_phase := arrived env r res\<rparr>])"
    using gets[where cls = "[cl\<lparr>c_phase := Reads off l tag r\<rparr>]" and i = 0 and c = c and r = r, OF _ _ assms(2)] by simp
  from returns_step[OF this] assms(1) show ?thesis by (simp add: arrived_def)
qed

lemma returns_tile:
  assumes "slots_valid c"
    and "bind_st (on_source (e_get env off l tag) (c, s)) (\<lambda>resp st. (map_sum id Some (unpack_tile env r resp), st)) = out"
  shows "returns env cl (Reads off l tag r, c) s out"
proof -
  obtain res s' where g: "e_get env off l tag s = (res, s')" by fastforce
  have "out = (map_sum id Some (bind_sum res (unpack_tile env r)), c, s')"
    using assms(2) by (cases res) (auto simp: on_source_def g)
  then show ?thesis using returns_read[OF assms(1) g] by simp
qed

lemma returns_directory:
  assumes "slots_valid c" and "read_tile promise_ops env h tid n off l (c, s) = out"
  shows "returns env cl (ask_directory env h tid n off l c) s out"
  using assms
proof (induction n arbitrary: off l c s)
  case 0
  then show ?case by (auto simp: ask_directory_def)
next
  case (Suc n)
  obtain r c1 s1 where d: "pc_getDirectory env off l h (c, s) = (r, c1, s1)" by (metis surj_pair)
  have "returns env cl (thrown (bind_sum r (\<lambda>es. Inr (after_directory env h tid n es c1))) c1) s1 out"
    if v: "slots_valid c1"
  proof (cases r)
    case (Inl e)
    with v Suc.prems(2) d show ?thesis by (auto simp: promise_ops_def)
  next
    case es: (Inr es)
    show ?thesis
    proof (cases "findTile es tid")
      case None
      with es v Suc.prems(2) d show ?thesis by (auto simp: promise_ops_def after_directory_def)
    next
      case (Some e)
      show ?thesis
      proof (cases "runLength e > 0")
        case True
        have "bind_st (on_source (e_get env (fli (h_tileDataOffset h + offset e)) (len e) (h_tag h)) (c1, s1))
            (\<lambda>resp st. (map_sum id Some (unpack_tile env (Tile_bytes h) resp), st)) = out"
          using Suc.prems(2) d es Some True
          by (auto simp: promise_ops_def unpack_tile_def bind_st_def bind_sum_def split: sum.splits prod.splits)
        with v es Some True show ?thesis by (simp add: after_directory_def returns_tile)
      next
        case False
        have "read_tile promise_ops env h tid n (fli (h_leafDirectoryOffset h + offset e)) (len e) (c1, s1) = out"
          using Suc.prems(2) d es Some False by (simp add: promise_ops_def)
        from Suc.IH[OF v this] es Some False show ?thesis by (simp add: after_directory_def)
      qed
    qed
  qed
  from returns_ask[where f = "after_directory env h tid n" and read = as_dir and w = "For_directory h tid n",
      OF Suc.prems(1) d[unfolded pc_getDirectory_def] _ this]
  show ?case by (simp add: ask_directory_def go_on_def)
qed

text \<open>The versions 1 and 2.\<close>

lemma returns_old_tile:
  assumes "slots_valid c" and "v2_tile env e (c, s) = (t, st)"
  shows "returns env cl (read_old_tile (Some e), c) s (map_sum id Some t, st)"
proof -
  have "bind_st (on_source (e_get env (eoffset e) (elength e) None) (c, s))
      (\<lambda>resp st. (map_sum id Some (unpack_tile env Old_tile_bytes resp), st)) = (map_sum id Some t, st)"
    using assms(2)
    by (auto simp: v2_tile_def unpack_tile_def bind_st_def bind_sum_def Let_def split: sum.splits prod.splits if_splits)
  from returns_tile[OF assms(1) this] show ?thesis by (simp add: read_old_tile_def)
qed

lemma returns_buffer:
  assumes "slots_valid c" and "v2_directory promise_ops env off l h (c, s) = (r, c', s')"
    and "\<And>v c. slots_valid c \<Longrightarrow> go_on env (c_z cl) (c_x cl) (c_y cl) w v c
      = thrown (bind_sum v (\<lambda>d. bind_sum (as_bytes d) (\<lambda>b. Inr (g b c)))) c"
    and "\<And>b c. g b c = thrown (bind_sum (sorted_directory h b) (\<lambda>d. f d c)) c"
    and "slots_valid c' \<Longrightarrow> returns env cl (thrown (bind_sum r (\<lambda>d. f d c')) c') s' out"
  shows "returns env cl (ask_buffer env h off l w c) s out"
proof -
  obtain r1 c1 s1 where d: "pc_getArrayBuffer env off l h (c, s) = (r1, c1, s1)" by (metis surj_pair)
  with assms(2) have e: "c1 = c'" "s1 = s'" "r = bind_sum r1 (sorted_directory h)"
    by (cases r1; auto simp: v2_directory_def promise_ops_def sorted_directory_def)+
  have "returns env cl (thrown (bind_sum r1 (\<lambda>b. Inr (g b c'))) c') s' out" if "slots_valid c'"
    using assms(5)[OF that] unfolding e(3) assms(4) by (cases r1) simp_all
  from returns_ask[where f = g, OF assms(1) d[unfolded pc_getArrayBuffer_def] assms(3) this[folded e(1,2)]]
  show ?thesis by (simp add: ask_buffer_def e(1,2))
qed

lemma returns_found:
  assumes "slots_valid c"
    and "(case found of Some e \<Rightarrow> bind_st (v2_tile env e (c, s)) (\<lambda>t st. (Inr (Some t), st)) | None \<Rightarrow> (Inr None, c, s)) = out"
  shows "returns env cl (read_old_tile found, c) s out"
proof (cases found)
  case None
  with assms show ?thesis by (auto simp: read_old_tile_def)
next
  case (Some e)
  obtain t st where t: "v2_tile env e (c, s) = (t, st)" by (metis surj_pair)
  with Some assms(2) have "out = (map_sum id Some t, st)" by (cases t) auto
  with returns_old_tile[OF assms(1) t] Some show ?thesis by simp
qed

lemma returns_leaf:
  assumes "slots_valid c"
    and "bind_st (v2_directory promise_ops env off l h (c, s)) (\<lambda>leafDir st.
      bind_st (queryTile leafDir (int (c_z cl)) (c_x cl) (c_y cl), st) (\<lambda>tileEntry st.
      case tileEntry of None \<Rightarrow> (Inr None, st) | Some e \<Rightarrow> bind_st (v2_tile env e st) (\<lambda>t st. (Inr (Some t), st)))) = out"
  shows "returns env cl (ask_buffer env h off l (For_leaf h) c) s out"
proof -
  obtain r c1 s1 where d: "v2_directory promise_ops env off l h (c, s) = (r, c1, s1)" by (metis surj_pair)
  define f where "f d c = bind_sum (queryTile d (int (c_z cl)) (c_x cl) (c_y cl)) (\<lambda>entry. Inr (read_old_tile entry, c))"
    for d and c :: pcache
  have "returns env cl (thrown (bind_sum r (\<lambda>d. f d c1)) c1) s1 out" if v: "slots_valid c1"
  proof (cases "bind_sum r (\<lambda>d. queryTile d (int (c_z cl)) (c_x cl) (c_y cl))")
    case (Inl e)
    with v assms(2) d show ?thesis by (cases r) (auto simp: f_def)
  next
    case (Inr found)
    then obtain b where b: "r = Inr b" "queryTile b (int (c_z cl)) (c_x cl) (c_y cl) = Inr found" by (cases r) auto
    have "(case found of Some e \<Rightarrow> bind_st (v2_tile env e (c1, s1)) (\<lambda>t st. (Inr (Some t), st)) | None \<Rightarrow> (Inr None, c1, s1)) = out"
      using assms(2) b d by (cases found) simp_all
    from returns_found[OF v this] b show ?thesis by (simp add: f_def)
  qed
  from returns_buffer[where f = f and g = "after_leaf (c_z cl) (c_x cl) (c_y cl) h", OF assms(1) d _ _ this]
  show ?thesis by (simp add: go_on_def after_leaf_def f_def)
qed

lemma returns_root:
  assumes "slots_valid c" and "v2_getZxy promise_ops env h (int (c_z cl)) (c_x cl) (c_y cl) (c, s) = out"
  shows "returns env cl (ask_buffer env h (h_rootOffset h) (h_rootLength h) (For_root h) c) s out"
proof -
  obtain r c1 s1 where d: "v2_directory promise_ops env (h_rootOffset h) (h_rootLength h) h (c, s) = (r, c1, s1)"
    by (metis surj_pair)
  note code = assms(2)[unfolded v2_getZxy_def d]
  define f where "f d c = bind_sum (queryTile d (int (c_z cl)) (c_x cl) (c_y cl)) (\<lambda>entry.
      if entry \<noteq> None then Inr (read_old_tile entry, c) else
      bind_sum (deriveLeaf d (int (c_z cl)) (c_x cl) (c_y cl)) (\<lambda>leafcoords.
      case leafcoords of None \<Rightarrow> Inr (Returned (Inr None), c) | Some (lz, lx, ly) \<Rightarrow>
      bind_sum (queryLeafdir d lz lx ly) (\<lambda>leafdirEntry.
      case leafdirEntry of None \<Rightarrow> Inr (Returned (Inr None), c) | Some le \<Rightarrow>
        Inr (ask_buffer env h (eoffset le) (elength le) (For_leaf h) c))))" for d c
  have "returns env cl (thrown (f d c1) c1) s1 out" if v: "slots_valid c1" and r: "r = Inr d" for d
  proof (cases "queryTile d (int (c_z cl)) (c_x cl) (c_y cl)")
    case (Inr found)
    show ?thesis
    proof (cases found)
      case None
      show ?thesis
      proof (cases "deriveLeaf d (int (c_z cl)) (c_x cl) (c_y cl)")
        case leaf: (Inr coords)
        show ?thesis
        proof (cases coords)
          case (Some q)
          obtain lz lx ly where q: "q = (lz, lx, ly)" by (cases q)
          show ?thesis
          proof (cases "queryLeafdir d lz lx ly")
            case dir: (Inr le)
            with code r Inr None leaf Some q v returns_leaf[where env = env and h = h and s = s1 and cl = cl and out = out, OF v] show ?thesis
              by (cases le) (auto simp: f_def)
          qed (use code r Inr None leaf Some q v in \<open>auto simp: f_def\<close>)
        qed (use code r Inr None leaf v in \<open>auto simp: f_def\<close>)
      qed (use code r Inr None v in \<open>auto simp: f_def\<close>)
    next
      case (Some e)
      with code r Inr v returns_found[where found = found and env = env and s = s1 and out = out and cl = cl, OF v] show ?thesis by (simp add: f_def)
    qed
  qed (use code r v in \<open>auto simp: f_def\<close>)
  then have "returns env cl (thrown (bind_sum r (\<lambda>d. f d c1)) c1) s1 out" if "slots_valid c1"
    using that code by (cases r) auto
  from returns_buffer[where f = f and g = "after_root env (c_z cl) (c_x cl) (c_y cl) h", OF assms(1) d _ _ this]
  show ?thesis by (simp add: go_on_def after_root_def f_def)
qed

lemma returns_header:
  assumes "slots_valid c"
    and "(if h_spec h < 3 then v2_getZxy promise_ops env h (int (c_z cl)) (c_x cl) (c_y cl) (c, s)
      else if jless (Fin (of_nat (c_z cl))) (h_minZoom h) \<or> jless (h_maxZoom h) (Fin (of_nat (c_z cl))) then (Inr None, c, s)
      else read_tile promise_ops env h tid 4 (h_rootOffset h) (h_rootLength h) (c, s)) = out"
  shows "returns env cl (after_header env (c_z cl) tid h c) s out"
  using assms returns_root[OF assms(1), of env h cl s out] returns_directory[OF assms(1), of env h tid 4 _ _ s out cl]
  by (auto simp: after_header_def split: if_splits)

lemma returns_attempt:
  assumes "slots_valid c" and "getZxyAttempt promise_ops env (c_z cl) (c_x cl) (c_y cl) (c, s) = out"
  shows "returns env cl (begin_attempt env (c_z cl) (c_x cl) (c_y cl) c) s out"
proof (cases "zxyToTileId (c_z cl) (c_x cl) (c_y cl)")
  case (Inl e)
  with assms show ?thesis by (auto simp: begin_attempt_def getZxyAttempt_def)
next
  case (Inr tid)
  obtain r c1 s1 where d: "pc_getHeader env (c, s) = (r, c1, s1)" by (metis surj_pair)
  note code = assms(2)[unfolded getZxyAttempt_def Inr]
  have "returns env cl (thrown (bind_sum r (\<lambda>h. Inr (after_header env (c_z cl) tid h c1))) c1) s1 out" if v: "slots_valid c1"
  proof (cases r)
    case (Inl e)
    with v code d show ?thesis by (auto simp: promise_ops_def)
  next
    case h: (Inr h)
    with code d have "(if h_spec h < 3 then v2_getZxy promise_ops env h (int (c_z cl)) (c_x cl) (c_y cl) (c1, s1)
      else if jless (Fin (of_nat (c_z cl))) (h_minZoom h) \<or> jless (h_maxZoom h) (Fin (of_nat (c_z cl))) then (Inr None, c1, s1)
      else read_tile promise_ops env h tid 4 (h_rootOffset h) (h_rootLength h) (c1, s1)) = out"
      by (simp add: promise_ops_def)
    from returns_header[OF v this] h show ?thesis by simp
  qed
  from returns_ask[where f = "after_header env (c_z cl) tid" and read = as_header and w = "For_header tid",
      OF assms(1) d[unfolded pc_getHeader_def] _ this]
  show ?thesis by (simp add: begin_attempt_def Inr go_on_def)
qed

lemma move_again_alone [simp]:
  "move_again 0 ph' [cl\<lparr>c_phase := ph\<rparr>] = [cl\<lparr>c_again := True, c_phase := ph'\<rparr>]"
  by (simp add: move_again_def)

lemma returns_getZxy:
  assumes "slots_valid c" and "getZxy promise_ops env z x y (c, s) = (r, c', s')"
  shows "\<exists>cl. (run_step env)\<^sup>*\<^sup>* (c, s, [new_call z x y]) (c', s', [cl]) \<and> result cl = Some r"
proof -
  let ?cl = "new_call z x y"
  let ?again = "?cl\<lparr>c_again := True\<rparr>"
  have cl: "c_z ?cl = z" "c_x ?cl = x" "c_y ?cl = y" "?cl = ?cl\<lparr>c_phase := Idle\<rparr>" "\<not> c_again ?cl"
    by (simp_all add: new_call_def)
  obtain r1 c1 s1 where a: "getZxyAttempt promise_ops env z x y (c, s) = (r1, c1, s1)" by (metis surj_pair)
  obtain ph c0 where b: "begin_attempt env z x y c = (ph, c0)" by fastforce
  have "run_step env (c, s, [?cl]) (c0, s, [?cl\<lparr>c_phase := ph\<rparr>])"
    using begins[where cls = "[?cl]" and i = 0 and s = s and env = env and c = c] b by (simp add: move_def new_call_def)
  with returns_attempt[OF assms(1), of env ?cl s "(r1, c1, s1)"] a b cl have
    first: "slots_valid c1" "(run_step env)\<^sup>*\<^sup>* (c, s, [?cl]) (c1, s1, [?cl\<lparr>c_phase := Returned r1\<rparr>])"
    by (auto simp: returns_def intro: converse_rtranclp_into_rtranclp)
  show ?thesis
  proof (cases "r1 = Inl Etag_mismatch")
    case False
    with a assms(2) have "r1 = r" "c1 = c'" "s1 = s'" by (auto simp: getZxy_def with_retry_def split: sum.splits)
    with first False show ?thesis by (auto simp: result_def)
  next
    case True
    with a assms(2) have second: "getZxyAttempt promise_ops env z x y (pc_invalidate (e_key env) c1, s1) = (r, c', s')"
      by (auto simp: getZxy_def with_retry_def promise_ops_def)
    obtain ph2 c2 where b2: "begin_attempt env z x y (pc_invalidate (e_key env) c1) = (ph2, c2)" by fastforce
    have "run_step env (c1, s1, [?cl\<lparr>c_phase := Returned r1\<rparr>]) (c2, s1, [?again\<lparr>c_phase := ph2\<rparr>])"
      using begins_again[where cls = "[?cl\<lparr>c_phase := Returned r1\<rparr>]" and i = 0 and s = s1 and env = env and c = c1] b2 True
      by (simp add: new_call_def move_again_def)
    moreover have "slots_valid (pc_invalidate (e_key env) c1)" using slots_valid_invalidate[OF first(1)] by blast
    from returns_attempt[OF this, of env ?again s1 "(r, c', s')"] second b2
    have "(run_step env)\<^sup>*\<^sup>* (c2, s1, [?again\<lparr>c_phase := ph2\<rparr>]) (c', s', [?again\<lparr>c_phase := Returned r\<rparr>])"
      by (simp add: returns_def new_call_def)
    ultimately have "(run_step env)\<^sup>*\<^sup>* (c, s, [?cl]) (c', s', [?again\<lparr>c_phase := Returned r\<rparr>])"
      using first(2) by (meson rtranclp_trans converse_rtranclp_into_rtranclp)
    then show ?thesis by (auto simp: result_def)
  qed
qed

text \<open>
  The runs of a single call are one run: no other fetch is on its way than the one the call waits for.
  The header that the invalidation asks for is the one the second attempt asks for.
\<close>

definition quiet :: "phase \<times> pcache \<Rightarrow> bool" where
  "quiet pc \<longleftrightarrow> (\<forall>q < length (promises (snd pc)). is_pending (promises (snd pc) ! q) \<longrightarrow> (\<exists>w. fst pc = Awaits q w))"

lemma quiet_stay: "pending c = 0 \<Longrightarrow> quiet (ph, c)"
  by (auto simp: quiet_def pending_def filter_empty_conv)

lemma pending_none: "pending c = 0 \<longleftrightarrow> (\<forall>q < length (promises c). \<not> is_pending (promises c ! q))"
  by (auto simp: pending_def filter_empty_conv all_set_conv_all_nth)

lemma quiet_pending: "quiet (ph, c) \<Longrightarrow> (\<And>q w. ph \<noteq> Awaits q w) \<Longrightarrow> pending c = 0"
  unfolding pending_none quiet_def by simp

lemma ask_quiet:
  assumes "pending c = 0"
  shows "quiet (ask k t w c)"
  using assms
  by (cases rule: pc_request_cases[of c k t])
    (auto simp: ask_def quiet_def pending_none nth_append less_Suc_eq)

lemma thrown_quiet:
  "pending c = 0 \<Longrightarrow> (\<And>x. quiet (thrown (f x) c)) \<Longrightarrow> quiet (thrown (bind_sum v f) c)"
  by (cases v) (simp_all add: quiet_stay)

lemma ask_directory_quiet: "pending c = 0 \<Longrightarrow> quiet (ask_directory env h tid n off l c)"
  by (simp add: ask_directory_def ask_quiet quiet_stay split: nat.split)

lemma go_on_quiet:
  assumes "pending c = 0"
  shows "quiet (go_on env z x y w v c)"
proof -
  have "quiet (after_header env z tid h c)" "quiet (after_directory env h tid n es c)"
    "quiet (after_leaf z x y h b c)" "quiet (after_root env z x y h b c)" for tid h n es b
    using assms
    by (simp_all add: after_header_def after_directory_def after_leaf_def after_root_def ask_buffer_def ask_quiet
        ask_directory_quiet quiet_stay thrown_quiet split: option.split)
  then show ?thesis
    using assms by (simp add: go_on_def thrown_quiet split: waiting.split)
qed

lemma invalidate_quiet:
  assumes "pending c = 0"
  shows "quiet (ask (e_key env) T_header w (pc_invalidate (e_key env) c))"
proof (cases "map_of (invalidations c) (e_key env)")
  case (Some p)
  then show ?thesis using ask_quiet[OF assms] by (simp add: pc_invalidate_def)
next
  case None
  let ?d = "lru_delete (e_key env) c"
  have "map_of (cache ?d) (e_key env) = None" by (simp add: lru_delete_def delete_conv')
  then have r: "pc_request (e_key env) T_header ?d
      = (length (promises c), lru_set (e_key env) (length (promises c)) (new_promise (Pending T_header) ?d))"
    by (cases rule: pc_request_cases[of ?d "e_key env" T_header]) simp_all
  define c1 where "c1 = pc_invalidate (e_key env) c"
  have c1: "promises c1 = promises c @ [Pending T_header]" "\<exists>u. map_of (cache c1) (e_key env) = Some u \<and> data u = length (promises c)"
    unfolding c1_def by (simp_all add: pc_invalidate_def None r) (simp add: lru_set_def update_conv')
  then show ?thesis
    using assms unfolding c1_def[symmetric]
    by (cases rule: pc_request_cases[of c1 "e_key env" T_header])
      (auto simp: ask_def quiet_def pending_none nth_append less_Suc_eq)
qed

definition lone :: "pcache \<times> 's \<times> call list \<Rightarrow> bool" where
  "lone st \<longleftrightarrow> (\<exists>c s cl. st = (c, s, [cl]) \<and> quiet (c_phase cl, c)
     \<and> (c_phase cl = Returned (Inl Etag_mismatch) \<or> (\<exists>p w. c_phase cl = Awaits p w)
          \<or> (\<exists>off l tag r. c_phase cl = Reads off l tag r)
        \<longrightarrow> (\<exists>tid. zxyToTileId (c_z cl) (c_x cl) (c_y cl) = Inr tid)))"

text \<open>Only one step is possible.\<close>

lemma lone_deterministic:
  assumes "lone st" and "run_step env st st1" and "run_step env st st2"
  shows "st1 = st2"
proof -
  obtain c s cl where st: "st = (c, s, [cl])" and q: "quiet (c_phase cl, c)"
    using assms(1) by (auto simp: lone_def)
  have p: "\<exists>w. c_phase cl = Awaits p w" if "p < length (promises c)" "promises c ! p = Pending t" for p t
    using q that by (simp add: quiet_def)
  show ?thesis
  proof (cases "\<exists>p t. p < length (promises c) \<and> promises c ! p = Pending t")
    case True
    then obtain p t w where t: "p < length (promises c)" "promises c ! p = Pending t" "c_phase cl = Awaits p w"
      using p by blast
    have "st' = (case run_task env t s of (res, s') \<Rightarrow> (pc_settle p res c, s', [cl]))" if "run_step env (c, s, [cl]) st'" for st'
      using that
    proof cases
      case (settles p' t' res s')
      then have "p' = p" using p[of p' t'] t(3) by simp
      with settles t(2) show ?thesis by simp
    qed (use t in \<open>auto simp: settled_def\<close>)
    with assms(2,3) show ?thesis unfolding st by blast
  next
    case False
    with assms(2,3) show ?thesis
      unfolding st by (elim run_step.cases) auto
  qed
qed

lemma lone_move:
  assumes "quiet (ph, c')" and "zxyToTileId (c_z cl) (c_x cl) (c_y cl) = Inr tid"
  shows "lone (c', s, move 0 ph [cl])" and "lone (c', s, move_again 0 ph [cl])"
  using assms by (simp_all add: lone_def move_def move_again_def)

lemma lone_step:
  assumes "lone st" and "run_step env st st'"
  shows "lone st'"
proof -
  obtain c s cl where st: "st = (c, s, [cl])" and q: "quiet (c_phase cl, c)"
    and tid: "c_phase cl = Returned (Inl Etag_mismatch) \<or> (\<exists>p w. c_phase cl = Awaits p w)
          \<or> (\<exists>off l tag r. c_phase cl = Reads off l tag r)
        \<Longrightarrow> \<exists>tid. zxyToTileId (c_z cl) (c_x cl) (c_y cl) = Inr tid"
    using assms(1) by (auto simp: lone_def)
  from assms(2)[unfolded st] show ?thesis
  proof cases
    case (begins i ph c')
    then have n: "pending c = 0" using quiet_pending[OF q] by simp
    show ?thesis
    proof (cases "zxyToTileId (c_z cl) (c_x cl) (c_y cl)")
      case (Inl e)
      then have "e \<noteq> Etag_mismatch" by (auto simp: zxyToTileId_def split: if_splits)
      with Inl begins n show ?thesis
        by (auto simp: begin_attempt_def lone_def move_def quiet_stay)
    next
      case (Inr tid)
      with begins have "quiet (ph, c')" using ask_quiet[OF n, of "e_key env" T_header] by (simp add: begin_attempt_def) metis
      from lone_move(1)[OF this Inr] begins show ?thesis by simp
    qed
  next
    case (goes_on i p w v ph c')
    then obtain tid where t: "zxyToTileId (c_z cl) (c_x cl) (c_y cl) = Inr tid" using tid by auto
    have "pending c = 0"
      using q goes_on unfolding pending_none by (auto simp: quiet_def settled_def is_pending_def split: promise.splits)
    from go_on_quiet[OF this] goes_on have "quiet (ph, c')" by metis
    from lone_move(1)[OF this t] goes_on show ?thesis by simp
  next
    case (gets i off l tag r res s')
    then obtain tid where t: "zxyToTileId (c_z cl) (c_x cl) (c_y cl) = Inr tid" using tid by auto
    have "pending c = 0" using quiet_pending[OF q] gets by simp
    then have "quiet (arrived env r res, c)" by (rule quiet_stay)
    from lone_move(1)[OF this t] gets show ?thesis by simp
  next
    case (begins_again i ph c')
    then obtain tid where t: "zxyToTileId (c_z cl) (c_x cl) (c_y cl) = Inr tid" using tid by auto
    have "pending c = 0" using quiet_pending[OF q] begins_again by simp
    from invalidate_quiet[OF this, of env "For_header tid"] begins_again t have "quiet (ph, c')"
      by (simp add: begin_attempt_def)
    from lone_move(2)[OF this t] begins_again show ?thesis by simp
  next
    case (settles p t res s')
    then obtain w where w: "c_phase cl = Awaits p w" using q by (auto simp: quiet_def)
    have only: "q' = p" if "q' < length (promises c)" "is_pending (promises c ! q')" for q' using q w that by (auto simp: quiet_def)
    obtain rs where rs: "promises (pc_settle p res c) = (promises c)[p := outcome_promise res] @ rs"
      "\<forall>r\<in>set rs. \<not> is_pending r"
      using settle_promises[OF settles(2)] by metis
    have o: "\<not> is_pending (outcome_promise res)" by (cases res) (simp_all add: outcome_promise_def)
    have "\<not> is_pending (promises (pc_settle p res c) ! q')" if q': "q' < length (promises (pc_settle p res c))" for q'
    proof (cases "q' < length (promises c)")
      case True
      with only[OF True] o show ?thesis by (cases "q' = p") (simp_all add: rs(1) nth_append, blast)
    next
      case False
      with q' have "promises (pc_settle p res c) ! q' \<in> set rs" by (simp add: rs(1) nth_append)
      with rs(2) show ?thesis by blast
    qed
    then have "quiet (c_phase cl, pc_settle p res c)" by (simp add: quiet_def)
    moreover have "\<exists>tid. zxyToTileId (c_z cl) (c_x cl) (c_y cl) = Inr tid" using tid w by blast
    ultimately show ?thesis unfolding settles(1) lone_def by blast
  qed
qed

lemma lone_runs:
  assumes "(run_step env)\<^sup>*\<^sup>* st st1" and "lone st" and "(run_step env)\<^sup>*\<^sup>* st st2" and "\<And>st'. \<not> run_step env st2 st'"
  shows "(run_step env)\<^sup>*\<^sup>* st1 st2"
  using assms(1)
proof (induction rule: rtranclp_induct)
  case (step st1 st1')
  from assms(2) step(1) have l: "lone st1" by (rotate_tac) (induction rule: rtranclp_induct, auto intro: lone_step)
  from step.IH show ?case
  proof (cases rule: converse_rtranclpE)
    case base
    with step(2) assms(4) show ?thesis by blast
  next
    case (step st')
    with lone_deterministic[OF l] \<open>run_step env st1 st1'\<close> show ?thesis by metis
  qed
qed (rule assms(3))

text \<open>
  A call that runs alone is \<^verbatim>\<open>getZxy\<close> as the other properties have it: from any state of the cache
  without a fetch on its way, every run of a single call that returns gives the result, the cache and
  the source that \<open>getZxy\<close> gives, the second attempt and the versions 1 and 2 included.
\<close>

lemma call_alone:
  assumes "pc_reachable m c" and "1 \<le> m" and "pending c = 0" and "getZxy promise_ops env z x y (c, s) = (r, c', s')"
    and "(run_step env)\<^sup>*\<^sup>* (c, s, [new_call z x y]) (c1, s1, [cl])" and "result cl = Some t"
  shows "t = r \<and> c1 = c' \<and> s1 = s'"
proof -
  have v: "slots_valid c" using pc_reachable_inv[OF assms(1,2)] by (simp add: pc_inv_def)
  obtain cl' where r: "(run_step env)\<^sup>*\<^sup>* (c, s, [new_call z x y]) (c', s', [cl'])" "result cl' = Some r"
    using returns_getZxy[OF v assms(4)] by blast
  have l: "lone (c, s, [new_call z x y])"
    using quiet_stay[OF assms(3)] by (simp add: lone_def new_call_def)
  have stuck: "\<not> run_step env (c2, s2, [cl2]) st'"
    if r2: "(run_step env)\<^sup>*\<^sup>* (c, s, [new_call z x y]) (c2, s2, [cl2])" "result cl2 = Some u" for c2 s2 cl2 u st'
  proof
    have "lone (c2, s2, [cl2])" using r2(1) l by (induction rule: rtranclp_induct) (auto intro: lone_step)
    then have q: "quiet (c_phase cl2, c2)" by (simp add: lone_def)
    obtain w where w: "c_phase cl2 = Returned w" "\<not> (w = Inl Etag_mismatch \<and> \<not> c_again cl2)"
      using r2(2) by (auto simp: result_def split: phase.splits if_splits)
    then have n: "pending c2 = 0" using quiet_pending[OF q] by simp
    assume "run_step env (c2, s2, [cl2]) st'"
    then show False by cases (use w n in \<open>auto simp: pending_none\<close>)
  qed
  have "(run_step env)\<^sup>*\<^sup>* (c1, s1, [cl]) (c', s', [cl'])" by (rule lone_runs[OF assms(5) l r(1) stuck[OF r]])
  then have "(c1, s1, [cl]) = (c', s', [cl'])" by (cases rule: converse_rtranclpE) (auto simp: stuck[OF assms(5,6)])
  with r(2) assms(6) show ?thesis by simp
qed

lemma demo_run:
  "\<exists>c' s' cl t. (run_step demo_env)\<^sup>*\<^sup>* (new_SharedPromiseCache 100, demo_archive, calls_for [(0, 0, 0)]) (c', s', [cl])
    \<and> result cl = Some t"
proof -
  obtain t c' s' where "getZxy promise_ops demo_env 0 (of_int 0) (of_int 0) (new_SharedPromiseCache 100, demo_archive) = (t, c', s')"
    by (metis surj_pair)
  from returns_getZxy[OF _ this] show ?thesis
    by (fastforce simp: calls_for_def slots_valid_def new_SharedPromiseCache_def)
qed

lemma calls_finish_witness:
  "\<exists>n st. (run_step demo_env ^^ n) (new_SharedPromiseCache 100, demo_archive, calls_for [(0, 0, 0)]) st
    \<and> 0 < n \<and> n \<le> 28 \<and> ((\<forall>st'. \<not> run_step demo_env st st') \<longrightarrow> (\<forall>cl \<in> set (snd (snd st)). result cl \<noteq> None))"
proof -
  obtain c' s' cl t where r: "(run_step demo_env)\<^sup>*\<^sup>* (new_SharedPromiseCache 100, demo_archive, calls_for [(0, 0, 0)]) (c', s', [cl])"
    "result cl = Some t"
    using demo_run by blast
  then obtain n where n: "(run_step demo_env ^^ n) (new_SharedPromiseCache 100, demo_archive, calls_for [(0, 0, 0)]) (c', s', [cl])"
    using rtranclp_imp_relpowp by metis
  moreover have "n \<noteq> 0"
  proof
    assume "n = 0"
    with n r(2) show False by (auto simp: calls_for_def new_call_def result_def)
  qed
  moreover have "pending (new_SharedPromiseCache 100) = 0" by (simp add: pending_def new_SharedPromiseCache_def)
  ultimately show ?thesis using calls_finish[OF pc_reachable.initial _ n] by fastforce
qed

end
