(* ===== verification/Concurrent_Archive.thy ===== *)
theory Concurrent_Archive
  imports Concurrent_Readers V2_Archive
begin

text \<open>
  Many calls of \<^verbatim>\<open>getZxy\<close> at once over an archive that stays what it is: each gets what the archive
  holds, in every order of the calls and the fetches, whatever the cache evicts in between. The interface
  \<open>concurrent_archive\<close> is what a call has to keep from one suspension to the next; all runs are treated
  inside it, and it is interpreted for version 3 and for the versions before.
\<close>

section \<open>The promises of a served archive\<close>

text \<open>All fetches on their way are fetches of the archive.\<close>

definition task_known :: "any_header \<Rightarrow> parts \<Rightarrow> task \<Rightarrow> bool" where
  "task_known hdr parts t \<longleftrightarrow> t = T_header \<or> (\<exists>off l. parts off l \<noteq> None \<and> t = part_task hdr off l)"

definition cache_right :: "string \<Rightarrow> any_header \<Rightarrow> parts \<Rightarrow> pcache \<Rightarrow> bool" where
  "cache_right key hdr parts c \<longleftrightarrow>
     pc_slots_right key hdr parts c \<and> (\<forall>t. Pending t \<in> set (promises c) \<longrightarrow> task_known hdr parts t)"

lemma cache_right_new [simp]: "cache_right key hdr parts (new_SharedPromiseCache m)"
  by (simp add: cache_right_def pc_slots_right_def new_SharedPromiseCache_def)

lemma cache_right_request:
  assumes "cache_right key hdr parts c" and "task_right key hdr parts k t" and "task_known hdr parts t"
    and "pc_request k t c = (p, c')"
  shows "cache_right key hdr parts c' \<and> p < length (promises c') \<and> promise_right key hdr parts k (promises c' ! p)
    \<and> (\<exists>rs. promises c' = promises c @ rs)"
proof -
  have s: "pc_slots_right key hdr parts c" using assms(1) by (simp add: cache_right_def)
  note r = pc_slots_right_request[OF s assms(2,4)]
  have "promises c' = promises c \<or> promises c' = promises c @ [Pending t]"
    using assms(4) by (cases rule: pc_request_cases[of c k t]) auto
  with r assms(1,3) show ?thesis by (auto simp: cache_right_def)
qed

lemma cache_right_invalidate:
  assumes "cache_right key hdr parts c"
  shows "cache_right key hdr parts (pc_invalidate key c)
    \<and> (\<exists>rs. promises (pc_invalidate key c) = promises c @ rs)"
proof (cases "map_of (invalidations c) key")
  case None
  obtain p c' where r: "pc_request key T_header (lru_delete key c) = (p, c')" by fastforce
  have "cache_right key hdr parts (lru_delete key c)"
    using assms by (simp add: cache_right_def pc_slots_right_delete)
  from cache_right_request[OF this task_right_header _ r] show ?thesis
    by (simp add: pc_invalidate_def None r task_known_def cache_right_def pc_slots_right_def)
qed (use assms in \<open>simp add: pc_invalidate_def\<close>)

lemma cache_right_settle:
  assumes "cache_right key hdr parts c" and "p < length (promises c)" and "promises c ! p = Pending t"
    and "outcome_right key hdr parts t out"
  shows "cache_right key hdr parts (pc_settle p (Inr out) c)"
proof -
  obtain rs where rs: "promises (pc_settle p (Inr out) c) = (promises c)[p := outcome_promise (Inr out)] @ rs"
    "\<forall>r\<in>set rs. \<not> is_pending r"
    using settle_promises[OF assms(2)] by metis
  have "Pending t' \<in> set (promises c)" if "Pending t' \<in> set (promises (pc_settle p (Inr out) c))" for t'
    using that rs set_update_subset_insert[of "promises c" p "outcome_promise (Inr out)"]
    by (auto simp: outcome_promise_def)
  with assms pc_slots_right_settle[OF _ assms(2-4)] show ?thesis by (auto simp: cache_right_def)
qed

text \<open>What a promise holds for those who wait for it stays right when a fetch ends.\<close>

lemma promise_right_settle:
  assumes "promise_right key hdr parts k (promises c ! q)" and "q < length (promises c)"
    and "p < length (promises c)" and "promises c ! p = Pending t" and "outcome_right key hdr parts t out"
  shows "promise_right key hdr parts k (promises (pc_settle p (Inr out) c) ! q)"
proof -
  obtain rs where rs: "promises (pc_settle p (Inr out) c) = (promises c)[p := outcome_promise (Inr out)] @ rs"
    using settle_promises[OF assms(3)] by metis
  show ?thesis
  proof (cases "q = p")
    case True
    with assms(1,4) have "task_right key hdr parts k t" by (simp add: promise_right_def)
    from outcome_slot_right[OF this assms(5)] True assms(2) rs show ?thesis
      by (simp add: nth_append promise_right_def outcome_promise_def)
  next
    case False
    with assms(1,2) rs show ?thesis by (simp add: nth_append)
  qed
qed

context served_archive
begin

lemma task_served:
  assumes "served s" and "task_known hdr parts t" and "run_task env t s = (res, s')"
  shows "\<exists>out. res = Inr out \<and> outcome_right (e_key env) hdr parts t out \<and> served s'"
proof (cases "t = T_header")
  case True
  obtain ro s1 where "getHeaderAndRoot env s = (Inr (hdr, ro), s1)" "root_right (e_key env) hdr parts ro" "served s1"
    using fetch_header[OF assms(1)] by blast
  with True assms(3) show ?thesis by (auto simp: run_task_def outcome_right_def)
next
  case False
  then obtain off l v where t: "t = part_task hdr off l" "parts off l = Some v"
    using assms(2) by (auto simp: task_known_def)
  obtain out s1 where "run_task env t s = (Inr out, s1)" "outcome_value out = v" "\<forall>h ro. out \<noteq> O_header h ro" "served s1"
    using fetch_part[OF assms(1) t(2)] t(1) by blast
  with t assms(3) show ?thesis by (cases out) (auto simp: outcome_right_def)
qed

lemma ask_part:
  assumes "cache_right (e_key env) hdr parts c" and "parts off l \<noteq> None"
    and "pc_request (dir_key (e_key env) (h_tag hdr) off l) (part_task hdr off l) c = (p, c')"
  shows "cache_right (e_key env) hdr parts c' \<and> p < length (promises c')
    \<and> promise_right (e_key env) hdr parts (dir_key (e_key env) (h_tag hdr) off l) (promises c' ! p)
    \<and> (\<exists>rs. promises c' = promises c @ rs)"
proof -
  obtain v where v: "parts off l = Some v" using assms(2) by blast
  have "task_known hdr parts (part_task hdr off l)" using assms(2) by (auto simp: task_known_def)
  from cache_right_request[OF assms(1) task_right_part[OF v] this assms(3)] show ?thesis .
qed

end

section \<open>The calls\<close>

text \<open>
  Where a call is right, that has to return \<open>r\<close>: what it waits for and reads is right for \<open>r\<close>, as a version
  of the format says, or it has returned \<open>r\<close>.
\<close>

definition phase_right ::
  "(waiting \<Rightarrow> promise \<Rightarrow> bool) \<Rightarrow> (int \<Rightarrow> int \<Rightarrow> string option \<Rightarrow> reading \<Rightarrow> bool) \<Rightarrow> js_error + bytes option
    \<Rightarrow> pcache \<Rightarrow> phase \<Rightarrow> bool" where
  "phase_right waits reads r c ph \<longleftrightarrow>
     (case ph of
        Idle \<Rightarrow> True
      | Awaits p w \<Rightarrow> p < length (promises c) \<and> waits w (promises c ! p)
      | Reads off l tag rd \<Rightarrow> reads off l tag rd
      | Returned t \<Rightarrow> contents t = r)"

lemma phase_right_simps [simp]:
  "phase_right waits reads r c Idle"
  "phase_right waits reads r c (Awaits p w) \<longleftrightarrow> p < length (promises c) \<and> waits w (promises c ! p)"
  "phase_right waits reads r c (Reads off l tag rd) \<longleftrightarrow> reads off l tag rd"
  "phase_right waits reads r c (Returned t) \<longleftrightarrow> contents t = r"
  by (simp_all add: phase_right_def)

lemma phase_right_grows:
  "phase_right waits reads r c ph \<Longrightarrow> promises c' = promises c @ rs \<Longrightarrow> phase_right waits reads r c' ph"
  by (cases ph) (auto simp: nth_append)

lemma phase_right_settle:
  assumes "phase_right waits reads r c ph" and "p < length (promises c)" and "promises c ! p = Pending t"
    and "\<And>w. waits w (Pending t) \<Longrightarrow> waits w (outcome_promise res)"
  shows "phase_right waits reads r (pc_settle p res c) ph"
proof (cases ph)
  case (Awaits q w)
  obtain rs where rs: "promises (pc_settle p res c) = (promises c)[p := outcome_promise res] @ rs"
    using settle_promises[OF assms(2)] by metis
  with Awaits assms show ?thesis
    by (cases "q = p") (auto simp: nth_append)
qed (use assms(1) in simp_all)

text \<open>A synchronous part that leaves the cache and the call right.\<close>

definition goes_right ::
  "string \<Rightarrow> any_header \<Rightarrow> parts \<Rightarrow> (waiting \<Rightarrow> promise \<Rightarrow> bool) \<Rightarrow> (int \<Rightarrow> int \<Rightarrow> string option \<Rightarrow> reading \<Rightarrow> bool)
    \<Rightarrow> js_error + bytes option \<Rightarrow> pcache \<Rightarrow> phase \<times> pcache \<Rightarrow> bool" where
  "goes_right key hdr parts waits reads r c pc \<longleftrightarrow>
     cache_right key hdr parts (snd pc) \<and> phase_right waits reads r (snd pc) (fst pc)
     \<and> (\<exists>rs. promises (snd pc) = promises c @ rs)"

lemma goes_right_stay:
  "cache_right key hdr parts c \<Longrightarrow> phase_right waits reads r c ph \<Longrightarrow> goes_right key hdr parts waits reads r c (ph, c)"
  by (simp add: goes_right_def)

text \<open>A call goes on with what its promise was settled with.\<close>

lemma settled_right:
  assumes "settled q = Some v" and "promise_right key hdr parts k q"
    and "\<And>e. \<not> promise_right key hdr parts k (Rejected e)"
  shows "\<exists>d. v = Inr d \<and> slot_right key hdr parts k d"
  using assms by (cases q) (auto simp: settled_def promise_right_def)

section \<open>All runs\<close>

locale concurrent_archive = served_archive env hdr parts served
  for env :: "'s env" and hdr :: any_header and parts :: parts and served :: "'s \<Rightarrow> bool" +
  fixes held :: "nat \<Rightarrow> int \<Rightarrow> int \<Rightarrow> (js_error + bytes option) option"
    and waits :: "nat \<times> int \<times> int \<Rightarrow> js_error + bytes option \<Rightarrow> waiting \<Rightarrow> promise \<Rightarrow> bool"
    and reads :: "nat \<times> int \<times> int \<Rightarrow> js_error + bytes option \<Rightarrow> int \<Rightarrow> int \<Rightarrow> string option \<Rightarrow> reading \<Rightarrow> bool"
  assumes waits_settle: "waits place r w (Pending t) \<Longrightarrow> outcome_right (e_key env) hdr parts t out
      \<Longrightarrow> waits place r w (Fulfilled (outcome_value out))"
    and begins_right: "cache_right (e_key env) hdr parts c \<Longrightarrow> tile_place z x y \<Longrightarrow> held z x y = Some r
      \<Longrightarrow> goes_right (e_key env) hdr parts (waits (z, x, y) r) (reads (z, x, y) r) r c
        (begin_attempt env z (of_int x) (of_int y) c)"
    and goes_on_right: "cache_right (e_key env) hdr parts c \<Longrightarrow> tile_place z x y \<Longrightarrow> held z x y = Some r
      \<Longrightarrow> waits (z, x, y) r w q \<Longrightarrow> settled q = Some v
      \<Longrightarrow> goes_right (e_key env) hdr parts (waits (z, x, y) r) (reads (z, x, y) r) r c
        (go_on env z (of_int x) (of_int y) w v c)"
    and gets_right: "served s \<Longrightarrow> reads place r off l tag rd \<Longrightarrow> e_get env off l tag s = (res, s')
      \<Longrightarrow> \<exists>t. arrived env rd res = Returned t \<and> contents t = r \<and> served s'"
begin

definition call_right :: "pcache \<Rightarrow> nat \<times> int \<times> int \<Rightarrow> call \<Rightarrow> bool" where
  "call_right c place cl \<longleftrightarrow> (case place of (z, x, y) \<Rightarrow>
     c_z cl = z \<and> c_x cl = of_int x \<and> c_y cl = of_int y \<and> tile_place z x y
     \<and> (\<exists>r. held z x y = Some r \<and> phase_right (waits place r) (reads place r) r c (c_phase cl)))"

definition run_right :: "(nat \<times> int \<times> int) list \<Rightarrow> pcache \<times> 's \<times> call list \<Rightarrow> bool" where
  "run_right asks st \<longleftrightarrow> (case st of (c, s, cls) \<Rightarrow>
     served s \<and> cache_right (e_key env) hdr parts c \<and> list_all2 (call_right c) asks cls)"

lemma run_right_at:
  assumes "run_right asks (c, s, cls)" and "i < length cls"
  obtains z x y r where "asks ! i = (z, x, y)" "c_z (cls ! i) = z" "c_x (cls ! i) = of_int x" "c_y (cls ! i) = of_int y"
    "tile_place z x y" "held z x y = Some r"
    "phase_right (waits (z, x, y) r) (reads (z, x, y) r) r c (c_phase (cls ! i))"
    "served s" "cache_right (e_key env) hdr parts c"
proof -
  have "call_right c (asks ! i) (cls ! i)" using assms list_all2_nthD2[of "call_right c" asks cls i] by (simp add: run_right_def)
  then show thesis using that assms(1) by (auto simp: call_right_def run_right_def)
qed

lemma calls_right_replace:
  assumes "list_all2 (call_right c) asks cls" and "call_right c' (asks ! i) cl" and "promises c' = promises c @ rs"
  shows "list_all2 (call_right c') asks (cls[i := cl])"
proof -
  have "list_all2 (call_right c') asks cls"
    using assms(1) by (rule list_all2_mono) (auto simp: call_right_def intro: phase_right_grows[OF _ assms(3)])
  from list_all2_update_cong[OF this assms(2), of i] show ?thesis by simp
qed

lemma run_right_go:
  assumes "run_right asks (c, s, cls)" and "i < length cls" and "asks ! i = (z, x, y)" and "held z x y = Some r"
    and "goes_right (e_key env) hdr parts (waits (z, x, y) r) (reads (z, x, y) r) r c0 (ph, c')"
    and "promises c0 = promises c @ rs0" and "served s'"
  shows "run_right asks (c', s', move i ph cls)" and "run_right asks (c', s', move_again i ph cls)"
proof -
  have l: "list_all2 (call_right c) asks cls" using assms(1) by (simp add: run_right_def)
  from assms(5,6) obtain rs where c: "promises c' = promises c @ rs" "cache_right (e_key env) hdr parts c'"
    "phase_right (waits (z, x, y) r) (reads (z, x, y) r) r c' ph"
    by (auto simp: goes_right_def)
  have "call_right c (z, x, y) (cls ! i)" using list_all2_nthD2[OF l assms(2)] assms(3) by simp
  with c(3) assms(4) have "call_right c' (asks ! i) ((cls ! i)\<lparr>c_phase := ph\<rparr>)"
    "call_right c' (asks ! i) ((cls ! i)\<lparr>c_again := True, c_phase := ph\<rparr>)"
    by (auto simp: call_right_def assms(3))
  from this[THEN calls_right_replace[OF l _ c(1)]] c(2) assms(7)
  show "run_right asks (c', s', move i ph cls)" and "run_right asks (c', s', move_again i ph cls)"
    by (simp_all add: run_right_def move_def move_again_def)
qed

lemma run_step_right:
  assumes "run_step env st st'" and "run_right asks st"
  shows "run_right asks st'"
  using assms
proof (induction rule: run_step.induct)
  case (begins i cls c ph c' s)
  obtain z x y r where t: "asks ! i = (z, x, y)" "c_z (cls ! i) = z" "c_x (cls ! i) = of_int x" "c_y (cls ! i) = of_int y"
    "tile_place z x y" "held z x y = Some r" "served s" "cache_right (e_key env) hdr parts c"
    by (rule run_right_at[OF begins(4,1)])
  from begins_right[OF t(8,5,6)] begins(3) t(2-4) show ?case
    by (intro run_right_go(1)[OF begins(4,1) t(1,6) _ _ t(7), of c _ _ "[]"]) simp_all
next
  case (goes_on i cls p w c u ph c' s)
  obtain z x y r where t: "asks ! i = (z, x, y)" "c_z (cls ! i) = z" "c_x (cls ! i) = of_int x" "c_y (cls ! i) = of_int y"
    "tile_place z x y" "held z x y = Some r" "phase_right (waits (z, x, y) r) (reads (z, x, y) r) r c (c_phase (cls ! i))"
    "served s" "cache_right (e_key env) hdr parts c"
    by (rule run_right_at[OF goes_on(5,1)])
  have "waits (z, x, y) r w (promises c ! p)" using t(7) goes_on(2) by simp
  from goes_on_right[OF t(9,5,6) this goes_on(3)] goes_on(4) t(2-4) show ?case
    by (intro run_right_go(1)[OF goes_on(5,1) t(1,6) _ _ t(8), of c _ _ "[]"]) simp_all
next
  case (gets i cls off l tag rd s res s' c)
  obtain z x y r where t: "asks ! i = (z, x, y)" "held z x y = Some r"
    "phase_right (waits (z, x, y) r) (reads (z, x, y) r) r c (c_phase (cls ! i))" "served s" "cache_right (e_key env) hdr parts c"
    by (rule run_right_at[OF gets(4,1)])
  have "reads (z, x, y) r off l tag rd" using t(3) gets(2) by simp
  from gets_right[OF t(4) this gets(3)] obtain q where q: "arrived env rd res = Returned q" "contents q = r" "served s'"
    by blast
  then have "goes_right (e_key env) hdr parts (waits (z, x, y) r) (reads (z, x, y) r) r c (arrived env rd res, c)"
    by (intro goes_right_stay[OF t(5)]) simp
  then show ?case by (rule run_right_go(1)[OF gets(4,1) t(1,2) _ _ q(3), of c _ _ "[]"]) simp
next
  case (begins_again i cls c ph c' s)
  obtain z x y r where t: "asks ! i = (z, x, y)" "c_z (cls ! i) = z" "c_x (cls ! i) = of_int x" "c_y (cls ! i) = of_int y"
    "tile_place z x y" "held z x y = Some r" "served s" "cache_right (e_key env) hdr parts c"
    by (rule run_right_at[OF begins_again(5,1)])
  obtain rs where i: "cache_right (e_key env) hdr parts (pc_invalidate (e_key env) c)"
    "promises (pc_invalidate (e_key env) c) = promises c @ rs"
    using cache_right_invalidate[OF t(8)] by blast
  from begins_right[OF i(1) t(5,6)] begins_again(4) t(2-4) show ?case
    by (intro run_right_go(2)[OF begins_again(5,1) t(1,6) _ i(2) t(7)]) simp_all
next
  case (settles p c t s res s' cls)
  then have w: "served s" "cache_right (e_key env) hdr parts c" "list_all2 (call_right c) asks cls"
    by (simp_all add: run_right_def)
  have "task_known hdr parts t" using w(2) settles(1,2) by (auto simp: cache_right_def) (metis nth_mem)
  from task_served[OF w(1) this settles(3)] obtain out where
    o: "res = Inr out" "outcome_right (e_key env) hdr parts t out" "served s'"
    by blast
  have "phase_right (waits place r) (reads place r) r (pc_settle p (Inr out) c) ph"
    if "phase_right (waits place r) (reads place r) r c ph" for place r ph
    using that settles(1,2) by (rule phase_right_settle) (simp add: outcome_promise_def waits_settle[OF _ o(2)])
  then have "list_all2 (call_right (pc_settle p res c)) asks cls"
    using w(3) by (auto simp: call_right_def o(1) elim!: list_all2_mono)
  with cache_right_settle[OF w(2) settles(1,2) o(2)] o(1,3) show ?case by (simp add: run_right_def)
qed

lemma all_runs_right:
  assumes "served s" and "list_all (\<lambda>(z, x, y). tile_place z x y \<and> held z x y \<noteq> None) asks"
    and "(run_step env)\<^sup>*\<^sup>* (new_SharedPromiseCache m, s, calls_for asks) (c', s', cls)"
  shows "list_all2 (\<lambda>(z, x, y) cl. \<forall>t. result cl = Some t \<longrightarrow> held z x y = Some (contents t)) asks cls"
proof -
  have "run_right asks (new_SharedPromiseCache m, s, calls_for asks)"
    using assms(1,2)
    by (auto simp: run_right_def calls_for_def list_all2_map2 list_all_length call_right_def new_call_def
        intro!: list_all2_all_nthI)
  with assms(3) have "run_right asks (c', s', cls)"
    by (induction rule: rtranclp_induct) (simp_all add: run_step_right)
  then have "list_all2 (call_right c') asks cls" by (simp add: run_right_def)
  then show ?thesis
    by (rule list_all2_mono) (auto simp: call_right_def result_def split: phase.splits if_splits)
qed

end

section \<open>Version 3\<close>

definition unpack_of :: "'s env \<Rightarrow> header \<Rightarrow> bytes \<Rightarrow> js_error + bytes" where
  "unpack_of env h b = e_tile_decompress env b (tileCompression h)"

text \<open>
  A call waits for the header, or for a directory below which the archive holds what the call has to
  return, or for the bytes of the tile.
\<close>

definition waits_v3 ::
  "'s env \<Rightarrow> bytes \<Rightarrow> header \<Rightarrow> nat \<times> int \<times> int \<Rightarrow> js_error + bytes option \<Rightarrow> waiting \<Rightarrow> promise \<Rightarrow> bool" where
  "waits_v3 env a h place r w q \<longleftrightarrow> (case place of (z, x, y) \<Rightarrow>
     (case w of
        For_header t \<Rightarrow> t = of_int (tile_base z + hil_enc z (x, y))
          \<and> promise_right (e_key env) (V3 h) (parts_of env a h) (e_key env) q
      | For_directory h' t n \<Rightarrow> h' = V3 h \<and> t = of_int (tile_base z + hil_enc z (x, y)) \<and>
          (\<exists>off l. archive_tile (dir_of env a h) (bytes_of a) (unpack_of env h) h (tile_base z + hil_enc z (x, y)) (Suc n) off l
              = Some r
            \<and> promise_right (e_key env) (V3 h) (parts_of env a h) (dir_key (e_key env) (etag h) off l) q)
      | _ \<Rightarrow> False))"

definition reads_v3 ::
  "'s env \<Rightarrow> bytes \<Rightarrow> header \<Rightarrow> nat \<times> int \<times> int \<Rightarrow> js_error + bytes option \<Rightarrow> int \<Rightarrow> int \<Rightarrow> string option \<Rightarrow> reading \<Rightarrow> bool"
where
  "reads_v3 env a h place r off l tag rd \<longleftrightarrow> rd = Tile_bytes (V3 h) \<and> tag = etag h
     \<and> (\<exists>b. bytes_of a off l = Some b \<and> r = map_sum id Some (unpack_of env h b))"

abbreviation goes_v3 ::
  "'s env \<Rightarrow> bytes \<Rightarrow> header \<Rightarrow> nat \<times> int \<times> int \<Rightarrow> js_error + bytes option \<Rightarrow> pcache \<Rightarrow> phase \<times> pcache \<Rightarrow> bool" where
  "goes_v3 env a h place r \<equiv>
     goes_right (e_key env) (V3 h) (parts_of env a h) (waits_v3 env a h place r) (reads_v3 env a h place r) r"

text \<open>
  What a call does next, for an archive that holds \<open>r\<close> at \<open>t\<close>: it returns that there is none (or that the
  directories are too deep), reads the bytes, or asks for a directory below which the archive holds \<open>r\<close>.
\<close>

definition next_read :: "'s env \<Rightarrow> bytes \<Rightarrow> header \<Rightarrow> int \<Rightarrow> js_error + bytes option \<Rightarrow> pcache \<Rightarrow> phase \<times> pcache \<Rightarrow> bool" where
  "next_read env a h t r c pc \<longleftrightarrow>
     (\<exists>u. pc = (Returned u, c) \<and> contents u = r \<and> (\<forall>b. u \<noteq> Inr (Some b)))
   \<or> (\<exists>off l b. pc = (Reads off l (etag h) (Tile_bytes (V3 h)), c) \<and> bytes_of a off l = Some b
        \<and> r = map_sum id Some (unpack_of env h b))
   \<or> (\<exists>off l n. pc = ask (dir_key (e_key env) (etag h) off l) (T_dir off l (V3 h)) (For_directory (V3 h) (of_int t) n) c
        \<and> archive_tile (dir_of env a h) (bytes_of a) (unpack_of env h) h t (Suc n) off l = Some r)"

lemma next_read_cases:
  assumes "next_read env a h t r c pc"
  obtains u where "pc = (Returned u, c)" "contents u = r" "\<And>b. u \<noteq> Inr (Some b)"
    | off l b where "pc = (Reads off l (etag h) (Tile_bytes (V3 h)), c)" "bytes_of a off l = Some b"
        "r = map_sum id Some (unpack_of env h b)"
    | off l n es where
        "pc = ask (dir_key (e_key env) (etag h) off l) (T_dir off l (V3 h)) (For_directory (V3 h) (of_int t) n) c"
        "archive_tile (dir_of env a h) (bytes_of a) (unpack_of env h) h t (Suc n) off l = Some r"
        "dir_of env a h off l = Some es"
  using assms unfolding next_read_def by (fastforce split: option.splits)

lemma next_read_returned: "(\<And>b. u \<noteq> Inr (Some b)) \<Longrightarrow> contents u = r \<Longrightarrow> next_read env a h t r c (Returned u, c)"
  by (simp add: next_read_def)

lemma ask_directory_next:
  assumes "archive_tile (dir_of env a h) (bytes_of a) (unpack_of env h) h t n off l = Some r"
  shows "next_read env a h t r c (ask_directory env (V3 h) (of_int t) n off l c)"
proof (cases n)
  case 0
  with assms show ?thesis by (auto simp: ask_directory_def intro!: next_read_returned)
next
  case (Suc m)
  with assms show ?thesis unfolding next_read_def by (auto simp: ask_directory_def h_tag_def simp del: archive_tile.simps)
qed

lemma after_directory_next:
  assumes "archive_tile (dir_of env a h) (bytes_of a) (unpack_of env h) h t (Suc n) off l = Some r"
    and "dir_of env a h off l = Some es" and "0 \<le> t" and "t \<le> 2 ^ 53"
  shows "next_read env a h t r c (after_directory env (V3 h) (of_int t) n es c)"
proof -
  have f: "dir_fits h es" using assms(2) by (rule dir_of_fits)
  then have ft: "findTile es (of_int t) = find_linear es t"
    using findTile_eq_find_linear[of es t] assms(3,4) by (simp add: dir_fits_def)
  show ?thesis
  proof (cases "find_linear es t")
    case None
    with assms(1,2) ft show ?thesis by (auto simp: after_directory_def intro!: next_read_returned)
  next
    case (Some e)
    then have "e \<in> set es" using find_linear_iff[of es t e] f by (simp add: dir_fits_def)
    with f have b: "\<bar>tileDataOffset h + offset e\<bar> \<le> 2 ^ 53" "\<bar>leafDirectoryOffset h + offset e\<bar> \<le> 2 ^ 53"
      by (auto simp: dir_fits_def list_all_iff)
    show ?thesis
    proof (cases "runLength e > 0")
      case True
      then obtain bs where "bytes_of a (tileDataOffset h + offset e) (len e) = Some bs" "r = map_sum id Some (unpack_of env h bs)"
        using assms(1,2) Some by (auto split: option.splits)
      with ft Some True b(1) show ?thesis
        by (auto simp: after_directory_def next_read_def h_tag_def h_tileDataOffset_def)
    next
      case False
      with assms(1,2) Some have
        "archive_tile (dir_of env a h) (bytes_of a) (unpack_of env h) h t n (leafDirectoryOffset h + offset e) (len e) = Some r"
        by simp
      from ask_directory_next[OF this] ft Some False b(2) show ?thesis
        by (simp add: after_directory_def h_leafDirectoryOffset_def)
    qed
  qed
qed

lemma after_header_next:
  assumes "specVersion h = 3" and "tile_of env a h z x y = Some r"
  shows "next_read env a h (tile_base z + hil_enc z (x, y)) r c
    (after_header env z (of_int (tile_base z + hil_enc z (x, y))) (V3 h) c)"
proof (cases "minZoom h \<le> int z \<and> int z \<le> maxZoom h")
  case True
  then have "archive_tile (dir_of env a h) (bytes_of a) (unpack_of env h) h (tile_base z + hil_enc z (x, y)) 4
      (rootDirectoryOffset h) (rootDirectoryLength h) = Some r"
    using assms(2) by (simp add: tile_of_def unpack_of_def[abs_def])
  from ask_directory_next[OF this] True assms(1) show ?thesis
    by (auto simp: after_header_def h_spec_def h_minZoom_def h_maxZoom_def jless_def finite_value_def
        h_rootOffset_def h_rootLength_def)
next
  case False
  with assms show ?thesis
    by (auto simp: after_header_def h_spec_def h_minZoom_def h_maxZoom_def jless_def finite_value_def
        tile_of_def intro!: next_read_returned)
qed

lemma next_read_right:
  assumes "cache_right (e_key env) (V3 h) (parts_of env a h) c"
    and "next_read env a h (tile_base z + hil_enc z (x, y)) r c pc"
  shows "goes_v3 env a h (z, x, y) r c pc"
  using assms(2)
proof (cases rule: next_read_cases)
  case (3 off l n es)
  have d: "parts_of env a h off l \<noteq> None" using 3(3) by (simp add: parts_of_def)
  obtain p c' where p: "pc_request (dir_key (e_key env) (h_tag (V3 h)) off l) (part_task (V3 h) off l) c = (p, c')"
    by fastforce
  from v3_archive.ask_part[OF assms(1) d p] 3(2) p show ?thesis
    unfolding 3(1) by (auto simp: ask_def part_task_def goes_right_def waits_v3_def h_tag_def)
qed (use assms(1) in \<open>auto simp: reads_v3_def intro!: goes_right_stay\<close>)

text \<open>Every version begins with the header.\<close>

lemma begin_right:
  assumes "cache_right (e_key env) hdr parts c" and "tile_place z x y"
    and "\<And>q. promise_right (e_key env) hdr parts (e_key env) q \<Longrightarrow> waits (For_header (of_int (tile_base z + hil_enc z (x, y)))) q"
  shows "goes_right (e_key env) hdr parts waits reads r c (begin_attempt env z (of_int x) (of_int y) c)"
proof -
  have t: "zxyToTileId z (of_int x) (of_int y) = Inr (of_int (tile_base z + hil_enc z (x, y)))"
    using assms(2) by (intro zxyToTileId_correct) (simp_all add: tile_place_def)
  obtain p c' where p: "pc_request (e_key env) T_header c = (p, c')" by fastforce
  have "task_known hdr parts T_header" by (simp add: task_known_def)
  from cache_right_request[OF assms(1) task_right_header this p] p assms(3) show ?thesis
    by (simp add: begin_attempt_def t ask_def goes_right_def)
qed

lemma go_on_next:
  assumes "tile_place z x y" and "specVersion h = 3" and "tile_of env a h z x y = Some r"
    and "waits_v3 env a h (z, x, y) r w q" and "settled q = Some v"
  shows "next_read env a h (tile_base z + hil_enc z (x, y)) r c (go_on env z (of_int x) (of_int y) w v c)"
proof -
  let ?t = "tile_base z + hil_enc z (x, y)"
  have t: "0 \<le> ?t" "?t \<le> 2 ^ 53" using assms(1) tile_range[of z x y] by (simp_all add: tile_place_def)
  show ?thesis
  proof (cases w)
    case (For_header tid)
    then have w: "tid = of_int ?t" "promise_right (e_key env) (V3 h) (parts_of env a h) (e_key env) q"
      using assms(4) by (simp_all add: waits_v3_def)
    have "v = Inr (C_header (V3 h))"
      using settled_right[OF assms(5) w(2)] by (auto simp: right_header)
    with For_header w(1) after_header_next[OF assms(2,3)] show ?thesis by (simp add: go_on_def)
  next
    case (For_directory h' tid n)
    then obtain off l where w: "h' = V3 h" "tid = of_int ?t"
      "archive_tile (dir_of env a h) (bytes_of a) (unpack_of env h) h ?t (Suc n) off l = Some r"
      "promise_right (e_key env) (V3 h) (parts_of env a h) (dir_key (e_key env) (etag h) off l) q"
      using assms(4) by (auto simp: waits_v3_def)
    obtain es where es: "dir_of env a h off l = Some es" using w(3) by (auto split: option.splits)
    then have ps: "parts_of env a h off l = Some (C_dir es)" by (simp add: parts_of_def)
    note R = right_partD[where parts = "parts_of env a h" and hdr = "V3 h" and key = "e_key env", OF ps]
    have "v = Inr (C_dir es)"
      using settled_right[OF assms(5) w(4)] R(1,3) by (auto simp: h_tag_def)
    with For_directory w(1,2) after_directory_next[OF w(3) es t] show ?thesis by (simp add: go_on_def)
  qed (use assms(4) in \<open>simp_all add: waits_v3_def\<close>)
qed

lemma arrived_v3:
  assumes "world env archive version ok a h s" and "reads_v3 env a h place r off l tag rd" and "e_get env off l tag s = (res, s')"
  shows "\<exists>t. arrived env rd res = Returned t \<and> contents t = r \<and> world env archive version ok a h s'"
proof -
  obtain b where b: "rd = Tile_bytes (V3 h)" "tag = etag h" "bytes_of a off l = Some b" "r = map_sum id Some (unpack_of env h b)"
    using assms(2) by (auto simp: reads_v3_def)
  obtain resp s1 where "e_get env off l tag s = (Inr resp, s1)" "rr_data resp = b" "world env archive version ok a h s1"
    using world_get[OF assms(1) b(3), of tag] b(2) by blast
  with assms(3) b show ?thesis
    by (cases "unpack_of env h b") (auto simp: arrived_def unpack_tile_def unpack_of_def h_tileCompression_def)
qed

text \<open>What the archive holds, when its header says that it is of version 3.\<close>

definition held_v3 :: "'s env \<Rightarrow> bytes \<Rightarrow> header \<Rightarrow> nat \<Rightarrow> int \<Rightarrow> int \<Rightarrow> (js_error + bytes option) option" where
  "held_v3 env a h z x y = (if specVersion h = 3 then tile_of env a h z x y else None)"

interpretation v3_calls: concurrent_archive env "V3 h" "parts_of env a h" "world env archive version ok a h"
    "held_v3 env a h" "waits_v3 env a h" "reads_v3 env a h"
  for env :: "'s env" and h a archive version ok
proof (unfold_locales, goal_cases)
  case (1 place r w t out)
  then show ?case
    by (cases w) (auto simp: waits_v3_def split: prod.splits intro: promise_right_outcome)
next
  case (2 c z x y r)
  then show ?case by (intro begin_right) (simp_all add: waits_v3_def)
next
  case (3 c z x y r w q v)
  then show ?case by (intro next_read_right go_on_next) (auto simp: held_v3_def split: if_splits)
next
  case (4 s place r off l tag rd res s')
  then show ?case by (rule arrived_v3)
qed

section \<open>The versions 1 and 2\<close>

definition waits_v2 ::
  "'s env \<Rightarrow> bytes \<Rightarrow> v2_header \<Rightarrow> nat \<times> int \<times> int \<Rightarrow> js_error + bytes option \<Rightarrow> waiting \<Rightarrow> promise \<Rightarrow> bool" where
  "waits_v2 env a h place r w q \<longleftrightarrow> (case place of (z, x, y) \<Rightarrow>
     (case w of
        For_header t \<Rightarrow> promise_right (e_key env) (V2 h) (v2_parts_of a) (e_key env) q
      | For_root h' \<Rightarrow> h' = V2 h \<and> promise_right (e_key env) (V2 h) (v2_parts_of a)
          (dir_key (e_key env) (v2_etag h) (v2_rootOffset h) (v2_rootLength h)) q
      | For_leaf h' \<Rightarrow> h' = V2 h \<and>
          (\<exists>off l ls. v2_dir_of a (v2_specVersion h) off l = Some ls
            \<and> v2_bytes (bytes_of a) (e_inflate env) (find_v2 False (int z) x y ls) = Some r
            \<and> promise_right (e_key env) (V2 h) (v2_parts_of a) (dir_key (e_key env) (v2_etag h) off l) q)
      | _ \<Rightarrow> False))"

definition reads_v2 ::
  "'s env \<Rightarrow> bytes \<Rightarrow> nat \<times> int \<times> int \<Rightarrow> js_error + bytes option \<Rightarrow> int \<Rightarrow> int \<Rightarrow> string option \<Rightarrow> reading \<Rightarrow> bool"
where
  "reads_v2 env a place r off l tag rd \<longleftrightarrow> rd = Old_tile_bytes \<and> tag = None
     \<and> (\<exists>b. bytes_of a off l = Some b \<and> r = map_sum id Some (v2_unpack (e_inflate env) b))"

abbreviation goes_v2 ::
  "'s env \<Rightarrow> bytes \<Rightarrow> v2_header \<Rightarrow> nat \<times> int \<times> int \<Rightarrow> js_error + bytes option \<Rightarrow> pcache \<Rightarrow> phase \<times> pcache \<Rightarrow> bool" where
  "goes_v2 env a h place r \<equiv>
     goes_right (e_key env) (V2 h) (v2_parts_of a) (waits_v2 env a h place r) (reads_v2 env a place r) r"

lemma ask_buffer_right:
  assumes "cache_right (e_key env) (V2 h) (v2_parts_of a) c" and "v2_dir_of a (v2_specVersion h) off l = Some es"
    and "\<And>q. promise_right (e_key env) (V2 h) (v2_parts_of a) (dir_key (e_key env) (v2_etag h) off l) q \<Longrightarrow> waits w q"
  shows "goes_right (e_key env) (V2 h) (v2_parts_of a) waits reads r c (ask_buffer env (V2 h) off l w c)"
proof -
  have d: "v2_parts_of a off l \<noteq> None" using assms(2) by (auto elim: v2_dir_ofE)
  obtain p c' where p: "pc_request (dir_key (e_key env) (h_tag (V2 h)) off l) (part_task (V2 h) off l) c = (p, c')"
    by fastforce
  from v2_archive.ask_part[OF assms(1) d p] p assms(3) show ?thesis
    by (auto simp: ask_buffer_def ask_def part_task_def goes_right_def h_tag_def)
qed

lemma read_old_tile_right:
  assumes "cache_right (e_key env) (V2 h) (v2_parts_of a) c" and "v2_bytes (bytes_of a) (e_inflate env) found = Some r"
  shows "goes_v2 env a h place r c (read_old_tile found, c)"
  using assms by (cases found) (auto simp: read_old_tile_def v2_bytes_def reads_v2_def intro!: goes_right_stay)

lemma sorted_directory_created:
  assumes "v2_dir_of a (v2_specVersion h) off l = Some es" and "v2_parts_of a off l = Some (C_bytes b)"
  shows "sorted_directory (V2 h) b = Inr (createDirectory es)"
  using assms
  by (auto simp: v2_dir_of_def v2_parts_of_def sorted_directory_def h_spec_def sortDir_def split: option.splits sum.splits if_splits)

lemma after_leaf_right:
  assumes "cache_right (e_key env) (V2 h) (v2_parts_of a) c" and "tile_place z x y"
    and "v2_dir_of a (v2_specVersion h) off l = Some ls" and "v2_parts_of a off l = Some (C_bytes b)"
    and "v2_bytes (bytes_of a) (e_inflate env) (find_v2 False (int z) x y ls) = Some r"
  shows "goes_v2 env a h (z, x, y) r c (after_leaf z (of_int x) (of_int y) (V2 h) b c)"
proof -
  have ok: "v2_dir_ok ls" using assms(3) by (rule v2_dir_ofE)
  have z: "0 \<le> int z" "int z < 128" using assms(2) by (simp_all add: tile_place_def)
  from read_old_tile_right[OF assms(1,5)] show ?thesis
    by (simp add: after_leaf_def sorted_directory_created[OF assms(3,4)] query_found(1)[OF ok z])
qed

lemma after_root_right:
  assumes "cache_right (e_key env) (V2 h) (v2_parts_of a) c" and "tile_place z x y"
    and "v2_dir_of a (v2_specVersion h) (v2_rootOffset h) (v2_rootLength h) = Some es"
    and "v2_parts_of a (v2_rootOffset h) (v2_rootLength h) = Some (C_bytes b)" and "v2_tile_of env a h z x y = Some r"
  shows "goes_v2 env a h (z, x, y) r c (after_root env z (of_int x) (of_int y) (V2 h) b c)"
proof -
  have ok: "v2_dir_ok es" using assms(3) by (rule v2_dir_ofE)
  have p: "z \<le> 26" "0 \<le> x" "x < 2 ^ z" "0 \<le> y" "y < 2 ^ z" using assms(2) by (simp_all add: tile_place_def)
  then have z: "0 \<le> int z" "int z < 128" by simp_all
  note start = after_root_def sorted_directory_created[OF assms(3,4)] query_found(1)[OF ok z]
  note held = assms(5)[unfolded v2_tile_of_def v2_held_def assms(3) option.case]
  show ?thesis
  proof (cases "find_v2 False (int z) x y es")
    case (Some e)
    then have "v2_bytes (bytes_of a) (e_inflate env) (Some e) = Some r" using held by (simp split: if_splits)
    from read_old_tile_right[OF assms(1) this] Some show ?thesis by (simp add: start)
  next
    case None
    have lz: "lz \<le> int z" if "leaf_level es = Some lz" for lz using held None that by (auto split: if_splits)
    have leaf: "deriveLeaf (createDirectory es) (int z) (of_int x) (of_int y) = Inr (case leaf_level es of None \<Rightarrow> None
      | Some lz \<Rightarrow> Some (lz, of_int (x div 2 ^ nat (int z - lz)), of_int (y div 2 ^ nat (int z - lz))))"
      using ok p lz by (rule deriveLeaf_created)
    show ?thesis
    proof (cases "leaf_level es")
      case nolevel: None
      with held None assms(1) show ?thesis by (auto simp: start leaf split: if_splits intro!: goes_right_stay)
    next
      case (Some lz)
      note more = start None leaf Some query_found(2)[OF ok leaf_level_range[OF ok Some]]
      show ?thesis
      proof (cases "find_v2 True lz (x div 2 ^ nat (int z - lz)) (y div 2 ^ nat (int z - lz)) es")
        case noleaf: None
        with held None Some assms(1) show ?thesis by (auto simp: more split: if_splits intro!: goes_right_stay)
      next
        case dir: (Some le)
        then obtain ls where ls: "v2_dir_of a (v2_specVersion h) (eoffset le) (elength le) = Some ls"
          "v2_bytes (bytes_of a) (e_inflate env) (find_v2 False (int z) x y ls) = Some r"
          using held None Some by (auto split: if_splits option.splits)
        have "goes_v2 env a h (z, x, y) r c (ask_buffer env (V2 h) (eoffset le) (elength le) (For_leaf (V2 h)) c)"
          using ls by (intro ask_buffer_right[OF assms(1) ls(1)]) (auto simp: waits_v2_def)
        then show ?thesis by (simp add: more dir)
      qed
    qed
  qed
qed

lemma go_on_v2:
  assumes "cache_right (e_key env) (V2 h) (v2_parts_of a) c" and "tile_place z x y" and "v2_tile_of env a h z x y = Some r"
    and "waits_v2 env a h (z, x, y) r w q" and "settled q = Some v"
  shows "goes_v2 env a h (z, x, y) r c (go_on env z (of_int x) (of_int y) w v c)"
proof -
  obtain es where es: "v2_dir_of a (v2_specVersion h) (v2_rootOffset h) (v2_rootLength h) = Some es" "v2_specVersion h < 3"
    using assms(3) by (auto simp: v2_tile_of_def v2_held_def split: option.splits if_splits)
  have part: "\<exists>b. v2_parts_of a off l = Some (C_bytes b) \<and> v = Inr (C_bytes b)"
    if ls: "v2_dir_of a (v2_specVersion h) off l = Some ls"
      and w: "promise_right (e_key env) (V2 h) (v2_parts_of a) (dir_key (e_key env) (v2_etag h) off l) q" for off l ls
  proof -
    obtain b where b: "v2_parts_of a off l = Some (C_bytes b)" using v2_dir_ofE[OF ls] by blast
    note R = right_partD[where parts = "v2_parts_of a" and hdr = "V2 h" and key = "e_key env", OF b]
    from settled_right[OF assms(5) w] R(1,3) b show ?thesis by (auto simp: h_tag_def)
  qed
  show ?thesis
  proof (cases w)
    case (For_header tid)
    then have w: "promise_right (e_key env) (V2 h) (v2_parts_of a) (e_key env) q"
      using assms(4) by (simp add: waits_v2_def)
    have "v = Inr (C_header (V2 h))" using settled_right[OF assms(5) w] by (auto simp: right_header)
    moreover have "goes_v2 env a h (z, x, y) r c
        (ask_buffer env (V2 h) (v2_rootOffset h) (v2_rootLength h) (For_root (V2 h)) c)"
      by (intro ask_buffer_right[OF assms(1) es(1)]) (simp add: waits_v2_def)
    ultimately show ?thesis
      using es(2) For_header by (simp add: go_on_def after_header_def h_spec_def h_rootOffset_def h_rootLength_def)
  next
    case (For_root h')
    then have w: "h' = V2 h" "promise_right (e_key env) (V2 h) (v2_parts_of a)
        (dir_key (e_key env) (v2_etag h) (v2_rootOffset h) (v2_rootLength h)) q"
      using assms(4) by (simp_all add: waits_v2_def)
    obtain b where b: "v2_parts_of a (v2_rootOffset h) (v2_rootLength h) = Some (C_bytes b)" "v = Inr (C_bytes b)"
      using part[OF es(1) w(2)] by blast
    from after_root_right[OF assms(1,2) es(1) b(1) assms(3)] b(2) w(1) For_root show ?thesis by (simp add: go_on_def)
  next
    case (For_leaf h')
    then obtain off l ls where w: "h' = V2 h" "v2_dir_of a (v2_specVersion h) off l = Some ls"
      "v2_bytes (bytes_of a) (e_inflate env) (find_v2 False (int z) x y ls) = Some r"
      "promise_right (e_key env) (V2 h) (v2_parts_of a) (dir_key (e_key env) (v2_etag h) off l) q"
      using assms(4) by (auto simp: waits_v2_def)
    obtain b where b: "v2_parts_of a off l = Some (C_bytes b)" "v = Inr (C_bytes b)"
      using part[OF w(2,4)] by blast
    from after_leaf_right[OF assms(1,2) w(2) b(1) w(3)] b(2) w(1) For_leaf show ?thesis by (simp add: go_on_def)
  qed (use assms(4) in \<open>simp add: waits_v2_def\<close>)
qed

lemma arrived_v2:
  assumes "v2_world env archive version ok a h s" and "reads_v2 env a place r off l tag rd" and "e_get env off l tag s = (res, s')"
  shows "\<exists>t. arrived env rd res = Returned t \<and> contents t = r \<and> v2_world env archive version ok a h s'"
proof -
  obtain b where b: "rd = Old_tile_bytes" "tag = None" "bytes_of a off l = Some b" "r = map_sum id Some (v2_unpack (e_inflate env) b)"
    using assms(2) by (auto simp: reads_v2_def)
  obtain resp s1 where "e_get env off l tag s = (Inr resp, s1)" "rr_data resp = b" "v2_world env archive version ok a h s1"
    using v2_world_get[OF assms(1) b(3), of tag] b(2) by blast
  with assms(3) b show ?thesis
    by (cases "getUint8 b 0"; cases "getUint8 b 1"; cases "e_inflate env b")
      (auto simp: arrived_def unpack_tile_def v2_unpack_def)
qed

interpretation v2_calls: concurrent_archive env "V2 h" "v2_parts_of a" "v2_world env archive version ok a h"
    "v2_tile_of env a h" "waits_v2 env a h" "reads_v2 env a"
  for env :: "'s env" and h a archive version ok
proof (unfold_locales, goal_cases)
  case (1 place r w t out)
  then show ?case
    by (cases w) (auto simp: waits_v2_def split: prod.splits intro: promise_right_outcome)
next
  case (2 c z x y r)
  then show ?case by (intro begin_right) (simp_all add: waits_v2_def)
next
  case (3 c z x y r w q v)
  then show ?case by (intro go_on_v2)
next
  case (4 s place r off l tag rd res s')
  then show ?case by (rule arrived_v2)
qed

section \<open>Properties\<close>

text \<open>
  C2: Concurrent calls cannot disturb each other. Let any number of calls of \<^verbatim>\<open>getZxy\<close> run at once over
  one fresh default cache and one archive of version 3, in any order of their parts and of the fetches,
  with whatever limit the cache evicts. A call that has returned has what the archive holds for its tile,
  found by a linear search of the directories, at every moment of every run.
\<close>

theorem concurrent_calls_correct:
  assumes "world env archive version ok a h s" and "specVersion h = 3"
    and "list_all (\<lambda>(z, x, y). tile_place z x y \<and> tile_of env a h z x y \<noteq> None) asks"
    and "(run_step env)\<^sup>*\<^sup>* (new_SharedPromiseCache m, s, calls_for asks) (c', s', cls)"
  shows "list_all2 (\<lambda>(z, x, y) cl. \<forall>t. result cl = Some t \<longrightarrow> tile_of env a h z x y = Some (contents t)) asks cls"
  using v3_calls.all_runs_right[OF assms(1) _ assms(4)] assms(2,3) by (simp add: held_v3_def)

lemma concurrent_calls_correct_witness:
  "\<exists>c' s' cl t. (run_step demo_env)\<^sup>*\<^sup>* (new_SharedPromiseCache 100, demo_archive, calls_for [(0, 0, 0)]) (c', s', [cl])
    \<and> result cl = Some t \<and> contents t = Inr (Some [7, 9])"
proof -
  obtain c' s' cl t where r: "(run_step demo_env)\<^sup>*\<^sup>* (new_SharedPromiseCache 100, demo_archive, calls_for [(0, 0, 0)]) (c', s', [cl])"
    "result cl = Some t"
    using demo_run by blast
  have "specVersion demo_header = 3" by (simp add: demo_header_def sample_header_def)
  from concurrent_calls_correct[OF demo_world this _ r(1)] r demo_tile show ?thesis
    by (auto simp: tile_place_def)
qed

text \<open>The same for archives of the versions 1 and 2.\<close>

lemma concurrent_calls_correct_v2:
  assumes "v2_world env archive version ok a h s"
    and "list_all (\<lambda>(z, x, y). tile_place z x y \<and> v2_tile_of env a h z x y \<noteq> None) asks"
    and "(run_step env)\<^sup>*\<^sup>* (new_SharedPromiseCache m, s, calls_for asks) (c', s', cls)"
  shows "list_all2 (\<lambda>(z, x, y) cl. \<forall>t. result cl = Some t \<longrightarrow> v2_tile_of env a h z x y = Some (contents t)) asks cls"
  using v2_calls.all_runs_right[OF assms] .

end
