(* ===== verification/Concurrent_Refresh.thy ===== *)
theory Concurrent_Refresh
  imports Concurrent_Archive Refresh
begin

text \<open>
  Many calls of \<^verbatim>\<open>getZxy\<close> at once over an archive that was replaced while it was in use. The cache holds
  the header and directories of the old version, some of the calls have met the mismatch and are in
  their second attempt, others still read the old header, and all of them share the cache, its promises
  and its invalidation.
\<close>

section \<open>A cache with both versions\<close>

text \<open>
  Under the keys of the old version: its directories, fetches that will meet the mismatch, and fetches
  that did. Under all others what is right for the new version; the header may still be the old one.
\<close>

definition old_promise :: "header \<Rightarrow> int \<Rightarrow> int \<Rightarrow> entry list \<Rightarrow> promise \<Rightarrow> bool" where
  "old_promise h0 off l es q \<longleftrightarrow>
     q = Pending (T_dir off l (V3 h0)) \<or> q = Fulfilled (C_dir es) \<or> q = Rejected Etag_mismatch"

definition new_slot :: "'s env \<Rightarrow> bytes \<Rightarrow> header \<Rightarrow> bytes \<Rightarrow> header \<Rightarrow> string \<Rightarrow> promise \<Rightarrow> bool" where
  "new_slot env a0 h0 a h k q \<longleftrightarrow> promise_right (e_key env) (V3 h) (parts_of env a h) k q
     \<and> (\<forall>off l es. dir_of env a0 h0 off l = Some es \<longrightarrow> k = dir_key (e_key env) (etag h0) off l
          \<longrightarrow> old_promise h0 off l es q)"

definition mixed_slot :: "'s env \<Rightarrow> bytes \<Rightarrow> header \<Rightarrow> bytes \<Rightarrow> header \<Rightarrow> string \<Rightarrow> promise \<Rightarrow> bool" where
  "mixed_slot env a0 h0 a h k q \<longleftrightarrow>
     new_slot env a0 h0 a h k q \<or> k = e_key env \<and> q = Fulfilled (C_header (V3 h0))"

definition either_task :: "'s env \<Rightarrow> header \<Rightarrow> bytes \<Rightarrow> header \<Rightarrow> task \<Rightarrow> bool" where
  "either_task env h0 a h t \<longleftrightarrow> task_known (V3 h) (parts_of env a h) t \<or> (\<exists>off l. t = T_dir off l (V3 h0))"

text \<open>While an invalidation is on its way, the old header is no more in the cache.\<close>

definition cache_mixed :: "'s env \<Rightarrow> bytes \<Rightarrow> header \<Rightarrow> bytes \<Rightarrow> header \<Rightarrow> pcache \<Rightarrow> bool" where
  "cache_mixed env a0 h0 a h c \<longleftrightarrow> slots_sat (mixed_slot env a0 h0 a h) c
     \<and> (map_of (invalidations c) (e_key env) \<noteq> None \<longrightarrow> slots_sat (new_slot env a0 h0 a h) c)
     \<and> (\<forall>t. Pending t \<in> set (promises c) \<longrightarrow> either_task env h0 a h t)"

lemma slots_sat_weaken: "slots_sat P c \<Longrightarrow> (\<And>k q. P k q \<Longrightarrow> Q k q) \<Longrightarrow> slots_sat Q c"
  unfolding slots_sat_def by blast

lemma versions_differ: "tags_apart h0 h \<Longrightarrow> h0 \<noteq> h"
  by (auto simp: tags_apart_def)

lemma new_slot_header: "promise_right (e_key env) (V3 h) (parts_of env a h) (e_key env) q
    \<Longrightarrow> new_slot env a0 h0 a h (e_key env) q"
  by (simp add: new_slot_def)

lemma new_slot_dir:
  assumes "tags_apart h0 h"
    and "promise_right (e_key env) (V3 h) (parts_of env a h) (dir_key (e_key env) (etag h) off l) q"
  shows "new_slot env a0 h0 a h (dir_key (e_key env) (etag h) off l) q"
  using assms(2) dir_key_apart[OF assms(1), of "e_key env"] by (auto simp: new_slot_def) metis

lemma old_slot_dir:
  assumes "tags_apart h0 h" and "dir_of env a0 h0 off l = Some es"
  shows "new_slot env a0 h0 a h (dir_key (e_key env) (etag h0) off l) q \<longleftrightarrow> old_promise h0 off l es q"
proof -
  let ?k = "dir_key (e_key env) (etag h0) off l"
  have p: "parts_of env a0 h0 off l \<noteq> None" using assms(2) by (simp add: parts_of_def)
  have "off' = off \<and> l' = l" if "dir_of env a0 h0 off' l' \<noteq> None" "?k = dir_key (e_key env) (etag h0) off' l'" for off' l'
    using dir_key_inj[OF that(2)] p that(1) parts_of_range[of env a0 h0] by (force simp: parts_of_def)
  moreover have "promise_right (e_key env) (V3 h) (parts_of env a h) ?k q"
    using dir_key_apart[OF assms(1), of "e_key env" off l]
    by (cases q) (auto simp: promise_right_def slot_right_def task_right_def h_tag_def)
  ultimately show ?thesis using assms(2) by (fastforce simp: new_slot_def)
qed

lemma mixed_request:
  assumes "cache_mixed env a0 h0 a h c" and "new_slot env a0 h0 a h k (Pending t)" and "either_task env h0 a h t"
    and "pc_request k t c = (p, c')"
  shows "cache_mixed env a0 h0 a h c' \<and> p < length (promises c') \<and> mixed_slot env a0 h0 a h k (promises c' ! p)
    \<and> (slots_sat (new_slot env a0 h0 a h) c \<longrightarrow>
        slots_sat (new_slot env a0 h0 a h) c' \<and> new_slot env a0 h0 a h k (promises c' ! p))
    \<and> (\<exists>rs. promises c' = promises c @ rs)"
proof -
  have m: "slots_sat (mixed_slot env a0 h0 a h) c" "mixed_slot env a0 h0 a h k (Pending t)"
    using assms(1,2) by (simp_all add: cache_mixed_def mixed_slot_def)
  have "invalidations c' = invalidations c" using invalidations_request[of k t c] assms(4) by simp
  with slots_sat_request[where P = "mixed_slot env a0 h0 a h", OF m(1,2) assms(4)]
    slots_sat_request[where P = "new_slot env a0 h0 a h", OF _ assms(2,4)] assms(1,3) show ?thesis
    by (auto simp: cache_mixed_def)
qed

lemma mixed_invalidate:
  assumes "cache_mixed env a0 h0 a h c" and "pc_invalidate (e_key env) c = c'"
  shows "cache_mixed env a0 h0 a h c' \<and> slots_sat (new_slot env a0 h0 a h) c' \<and> (\<exists>rs. promises c' = promises c @ rs)"
proof (cases "map_of (invalidations c) (e_key env)")
  case (Some p)
  with assms show ?thesis by (auto simp: pc_invalidate_def cache_mixed_def)
next
  case None
  let ?d = "lru_delete (e_key env) c"
  have "slots_sat (new_slot env a0 h0 a h) ?d"
    unfolding slots_sat_def
  proof (intro allI impI)
    fix k s assume "map_of (cache ?d) k = Some s"
    then have "k \<noteq> e_key env" "map_of (cache c) k = Some s"
      by (auto simp: lru_delete_def delete_conv' split: if_splits)
    then show "data s < length (promises ?d) \<and> new_slot env a0 h0 a h k (promises ?d ! data s)"
      using slots_satD[of "mixed_slot env a0 h0 a h" c k s] assms(1) by (simp add: cache_mixed_def mixed_slot_def)
  qed
  note d = this
  have "cache_mixed env a0 h0 a h ?d"
    using assms(1) d by (simp add: cache_mixed_def slots_sat_delete)
  moreover have "new_slot env a0 h0 a h (e_key env) (Pending T_header)"
    by (rule new_slot_header) (simp add: promise_right_def task_right_header)
  moreover have "either_task env h0 a h T_header" by (simp add: either_task_def task_known_def)
  moreover obtain p c1 where r: "pc_request (e_key env) T_header ?d = (p, c1)" by fastforce
  ultimately have "cache_mixed env a0 h0 a h c1" "slots_sat (new_slot env a0 h0 a h) c1" "\<exists>rs. promises c1 = promises c @ rs"
    using mixed_request[of env a0 h0 a h ?d "e_key env" T_header p c1] d by simp_all
  moreover have "c' = c1\<lparr>invalidations := AList.update (e_key env) p (invalidations c1)\<rparr>"
    using assms(2) None r by (simp add: pc_invalidate_def)
  ultimately show ?thesis by (simp add: cache_mixed_def slots_sat_def)
qed

section \<open>The fetches\<close>

text \<open>A fetch of the old version ends with the mismatch, every other one as the new version has it.\<close>

definition either_outcome :: "'s env \<Rightarrow> header \<Rightarrow> bytes \<Rightarrow> header \<Rightarrow> task \<Rightarrow> js_error + outcome \<Rightarrow> bool" where
  "either_outcome env h0 a h t res \<longleftrightarrow>
     (\<exists>out. res = Inr out \<and> outcome_right (e_key env) (V3 h) (parts_of env a h) t out
        \<and> (\<forall>hd dk rd. out = O_header hd (Some (dk, rd)) \<longrightarrow> (\<exists>off l. dk = dir_key (e_key env) (etag h) off l)))
     \<or> (\<exists>off l. t = T_dir off l (V3 h0)) \<and> res = Inl Etag_mismatch"

lemma either_fetch:
  assumes "mismatches env (etag h0) (world env archive version ok a h)" and "world env archive version ok a h s"
    and "either_task env h0 a h t" and "run_task env t s = (res, s')"
  shows "either_outcome env h0 a h t res \<and> world env archive version ok a h s'"
proof (cases "\<exists>off l. t = T_dir off l (V3 h0)")
  case True
  then obtain off l where t: "t = T_dir off l (V3 h0)" by blast
  obtain s1 where "e_get env off l (etag h0) s = (Inl Etag_mismatch, s1)" "world env archive version ok a h s1"
    using mismatchesD[OF assms(1,2)] by blast
  with t assms(4) show ?thesis
    by (auto simp: either_outcome_def run_task_def fetch_directory_def h_tag_def)
next
  case False
  then have k: "task_known (V3 h) (parts_of env a h) t" using assms(3) by (simp add: either_task_def)
  obtain out where out: "res = Inr out" "outcome_right (e_key env) (V3 h) (parts_of env a h) t out"
      "world env archive version ok a h s'"
    using v3_archive.task_served[OF assms(2) k assms(4)] by blast
  have "\<exists>off l. dk = dir_key (e_key env) (etag h) off l" if "out = O_header hd (Some (dk, rd))" for hd dk rd
  proof -
    have "t = T_header" using out(2) that by (simp add: outcome_right_def)
    then have "dk = root_key env h"
      using getHeaderAndRoot_world[OF assms(2)] assms(4) out(1) that by (auto simp: run_task_def)
    then show ?thesis by (auto simp: root_key_def)
  qed
  with out show ?thesis unfolding either_outcome_def by blast
qed

text \<open>What it settles its promise with is right wherever the pending promise was.\<close>

lemma either_outcome_right:
  assumes "tags_apart h0 h" and "either_outcome env h0 a h t res"
    and "promise_right (e_key env) (V3 h) (parts_of env a h) k (Pending t)"
  shows "promise_right (e_key env) (V3 h) (parts_of env a h) k (outcome_promise res)"
  using assms(2) unfolding either_outcome_def
proof (elim disjE exE conjE)
  fix out assume "res = Inr out" "outcome_right (e_key env) (V3 h) (parts_of env a h) t out"
  with promise_right_outcome[OF assms(3)] show ?thesis by (simp add: outcome_promise_def)
next
  fix off l assume "res = Inl Etag_mismatch" "t = T_dir off l (V3 h0)"
  with assms(3) versions_differ[OF assms(1)] show ?thesis
    by (auto simp: promise_right_def task_right_def outcome_promise_def part_task_def)
qed

lemma old_promise_settles:
  assumes "tags_apart h0 h" and "either_outcome env h0 a h t res" and "old_promise h0 off l es (Pending t)"
  shows "old_promise h0 off l es (outcome_promise res)"
proof -
  have t: "t = T_dir off l (V3 h0)" using assms(3) by (simp add: old_promise_def)
  have "res = Inl Etag_mismatch"
    using assms(2) versions_differ[OF assms(1)]
    by (auto simp: either_outcome_def t outcome_right_def part_task_def split: outcome.splits) (metis outcome.exhaust)
  then show ?thesis by (simp add: old_promise_def outcome_promise_def)
qed

lemma mixed_settle:
  assumes "tags_apart h0 h" and "cache_mixed env a0 h0 a h c" and "p < length (promises c)"
    and "promises c ! p = Pending t" and "either_outcome env h0 a h t res"
  shows "cache_mixed env a0 h0 a h (pc_settle p res c)"
proof -
  have new: "new_slot env a0 h0 a h k (outcome_promise res)" if "new_slot env a0 h0 a h k (Pending t)" for k
    using that either_outcome_right[OF assms(1,5)] old_promise_settles[OF assms(1,5)] unfolding new_slot_def by blast
  have root: "new_slot env a0 h0 a h dk (Fulfilled (C_dir rd))" if "res = Inr (O_header hd (Some (dk, rd)))" for hd dk rd
  proof -
    have "outcome_right (e_key env) (V3 h) (parts_of env a h) t (O_header hd (Some (dk, rd)))"
      "\<exists>off l. dk = dir_key (e_key env) (etag h) off l"
      using assms(5) that by (auto simp: either_outcome_def)
    then obtain off l where "dk = dir_key (e_key env) (etag h) off l"
      "promise_right (e_key env) (V3 h) (parts_of env a h) dk (Fulfilled (C_dir rd))"
      by (auto simp: outcome_right_def root_right_def promise_right_def)
    then show ?thesis using new_slot_dir[OF assms(1)] by simp
  qed
  have m: "slots_sat (mixed_slot env a0 h0 a h) (pc_settle p res c)"
    using assms(2) new root by (intro slots_sat_settle[OF _ assms(3,4)]) (auto simp: cache_mixed_def mixed_slot_def)
  have i: "slots_sat (new_slot env a0 h0 a h) (pc_settle p res c)"
    if "map_of (invalidations (pc_settle p res c)) (e_key env) \<noteq> None"
  proof -
    have "set (invalidations (pc_settle p res c)) \<subseteq> set (invalidations c)"
      by (cases res; cases rule: pc_store_root_cases[of "projr res" c])
        (auto simp: pc_settle_def end_invalidation_def)
    with that have "map_of (invalidations c) (e_key env) \<noteq> None"
      by (metis image_mono map_of_eq_None_iff subsetD)
    then show ?thesis
      using assms(2) new root by (intro slots_sat_settle[OF _ assms(3,4)]) (auto simp: cache_mixed_def)
  qed
  obtain rs where rs: "promises (pc_settle p res c) = (promises c)[p := outcome_promise res] @ rs"
    "\<forall>r\<in>set rs. \<not> is_pending r"
    using settle_promises[OF assms(3)] by metis
  have "Pending t' \<in> set (promises c)" if "Pending t' \<in> set (promises (pc_settle p res c))" for t'
    using that rs set_update_subset_insert[of "promises c" p "outcome_promise res"]
    by (cases res) (auto simp: outcome_promise_def)
  with m i assms(2) show ?thesis by (auto simp: cache_mixed_def)
qed

section \<open>The calls\<close>

text \<open>
  A call is on the way to what the new version holds, or in its first attempt with the old header: it
  waits for a directory of the old version or reads bytes under the old tag, has met the mismatch, or
  has found that the old version has no tile there.
\<close>

definition waits_old ::
  "'s env \<Rightarrow> bytes \<Rightarrow> header \<Rightarrow> nat \<times> int \<times> int \<Rightarrow> js_error + bytes option \<Rightarrow> waiting \<Rightarrow> promise \<Rightarrow> bool" where
  "waits_old env a0 h0 place r0 w q \<longleftrightarrow> (case place of (z, x, y) \<Rightarrow>
     (case w of
        For_header t \<Rightarrow> t = of_int (tile_base z + hil_enc z (x, y)) \<and> q = Fulfilled (C_header (V3 h0))
      | For_directory h' t n \<Rightarrow> h' = V3 h0 \<and> t = of_int (tile_base z + hil_enc z (x, y)) \<and>
          (\<exists>off l es. dir_of env a0 h0 off l = Some es \<and> old_promise h0 off l es q
            \<and> archive_tile (dir_of env a0 h0) (bytes_of a0) (unpack_of env h0) h0 (tile_base z + hil_enc z (x, y)) (Suc n) off l
                = Some r0)
      | _ \<Rightarrow> False))"

definition phase_old ::
  "'s env \<Rightarrow> bytes \<Rightarrow> header \<Rightarrow> nat \<times> int \<times> int \<Rightarrow> js_error + bytes option \<Rightarrow> pcache \<Rightarrow> phase \<Rightarrow> bool" where
  "phase_old env a0 h0 place r0 c ph \<longleftrightarrow> ph = Returned (Inl Etag_mismatch)
     \<or> phase_right (waits_old env a0 h0 place r0) (\<lambda>off l tag rd. tag = etag h0) r0 c ph
       \<and> (\<forall>u b. ph = Returned u \<longrightarrow> r0 \<noteq> Inr (Some b))"

abbreviation phase_new ::
  "'s env \<Rightarrow> bytes \<Rightarrow> header \<Rightarrow> nat \<times> int \<times> int \<Rightarrow> js_error + bytes option \<Rightarrow> pcache \<Rightarrow> phase \<Rightarrow> bool" where
  "phase_new env a h place r \<equiv> phase_right (waits_v3 env a h place r) (reads_v3 env a h place r) r"

definition on_the_way ::
  "'s env \<Rightarrow> bytes \<Rightarrow> header \<Rightarrow> bytes \<Rightarrow> header \<Rightarrow> nat \<times> int \<times> int \<Rightarrow> js_error + bytes option \<Rightarrow> js_error + bytes option
    \<Rightarrow> bool \<Rightarrow> pcache \<Rightarrow> phase \<Rightarrow> bool" where
  "on_the_way env a0 h0 a h place r0 r again c ph \<longleftrightarrow>
     phase_new env a h place r c ph \<or> \<not> again \<and> phase_old env a0 h0 place r0 c ph"

lemma on_the_way_grows:
  "on_the_way env a0 h0 a h place r0 r again c ph \<Longrightarrow> promises c' = promises c @ rs
    \<Longrightarrow> on_the_way env a0 h0 a h place r0 r again c' ph"
  unfolding on_the_way_def phase_old_def using phase_right_grows by blast

lemma on_the_way_settle:
  assumes "tags_apart h0 h" and "either_outcome env h0 a h t res" and "p < length (promises c)" and "promises c ! p = Pending t"
    and "on_the_way env a0 h0 a h place r0 r again c ph"
  shows "on_the_way env a0 h0 a h place r0 r again (pc_settle p res c) ph"
proof -
  have new: "waits_v3 env a h place r w (outcome_promise res)" if "waits_v3 env a h place r w (Pending t)" for w
    using that either_outcome_right[OF assms(1,2)] by (cases w) (auto simp: waits_v3_def split: prod.splits)
  have old: "waits_old env a0 h0 place r0 w (outcome_promise res)" if "waits_old env a0 h0 place r0 w (Pending t)" for w
    using that old_promise_settles[OF assms(1,2)]
    by (cases w) (auto simp: waits_old_def simp del: archive_tile.simps split: prod.splits, blast)
  show ?thesis
    using assms(5) phase_right_settle[where waits = "waits_v3 env a h place r" and res = res, OF _ assms(3,4) new]
      phase_right_settle[where waits = "waits_old env a0 h0 place r0" and res = res, OF _ assms(3,4) old]
    unfolding on_the_way_def phase_old_def by blast
qed

text \<open>A synchronous part of a call, with the cache it leaves.\<close>

definition goes_either ::
  "'s env \<Rightarrow> bytes \<Rightarrow> header \<Rightarrow> bytes \<Rightarrow> header \<Rightarrow> nat \<times> int \<times> int \<Rightarrow> js_error + bytes option \<Rightarrow> js_error + bytes option
    \<Rightarrow> bool \<Rightarrow> pcache \<Rightarrow> phase \<times> pcache \<Rightarrow> bool" where
  "goes_either env a0 h0 a h place r0 r again c pc \<longleftrightarrow>
     cache_mixed env a0 h0 a h (snd pc) \<and> on_the_way env a0 h0 a h place r0 r again (snd pc) (fst pc)
     \<and> fst pc \<noteq> Idle \<and> (\<exists>rs. promises (snd pc) = promises c @ rs)"

lemma goes_either_stay:
  "ph \<noteq> Idle \<Longrightarrow> cache_mixed env a0 h0 a h c \<Longrightarrow> on_the_way env a0 h0 a h place r0 r again c ph
    \<Longrightarrow> goes_either env a0 h0 a h place r0 r again c (ph, c)"
  by (simp add: goes_either_def)

lemma next_read_new:
  assumes "tags_apart h0 h" and "cache_mixed env a0 h0 a h c"
    and "next_read env a h (tile_base z + hil_enc z (x, y)) r c pc"
  shows "goes_either env a0 h0 a h (z, x, y) r0 r again c pc"
  using assms(3)
proof (cases rule: next_read_cases)
  case (3 off l n es)
  let ?k = "dir_key (e_key env) (etag h) off l"
  have part: "parts_of env a h off l = Some (C_dir es)" using 3(3) by (simp add: parts_of_def)
  then have e: "either_task env h0 a h (T_dir off l (V3 h))"
    by (auto simp: either_task_def task_known_def part_task_def)
  have "promise_right (e_key env) (V3 h) (parts_of env a h) ?k (Pending (T_dir off l (V3 h)))"
    using v3_archive.task_right_part[OF part] by (simp add: promise_right_def h_tag_def part_task_def)
  from new_slot_dir[OF assms(1) this] have n: "new_slot env a0 h0 a h ?k (Pending (T_dir off l (V3 h)))" .
  obtain p c' where r: "pc_request ?k (T_dir off l (V3 h)) c = (p, c')" by fastforce
  from mixed_request[OF assms(2) n e r] have "cache_mixed env a0 h0 a h c'" "p < length (promises c')"
    "promise_right (e_key env) (V3 h) (parts_of env a h) ?k (promises c' ! p)" "\<exists>rs. promises c' = promises c @ rs"
    by (auto simp: mixed_slot_def new_slot_def)
  with 3(2) show ?thesis
    unfolding 3(1) ask_def r goes_either_def on_the_way_def
    by (auto simp: waits_v3_def simp del: archive_tile.simps)
qed (use assms(2) in \<open>auto simp: on_the_way_def reads_v3_def intro!: goes_either_stay\<close>)

lemma next_read_old:
  assumes "tags_apart h0 h" and "cache_mixed env a0 h0 a h c"
    and "next_read env a0 h0 (tile_base z + hil_enc z (x, y)) r0 c pc"
  shows "goes_either env a0 h0 a h (z, x, y) r0 r False c pc"
  using assms(3)
proof (cases rule: next_read_cases)
  case (1 u)
  then have "r0 \<noteq> Inr (Some b)" for b by (cases u) auto
  with 1 assms(2) show ?thesis by (auto simp: on_the_way_def phase_old_def intro!: goes_either_stay)
next
  case (2 off l b)
  with assms(2) show ?thesis by (auto simp: on_the_way_def phase_old_def intro!: goes_either_stay)
next
  case (3 off l n es)
  let ?k = "dir_key (e_key env) (etag h0) off l"
  have n: "new_slot env a0 h0 a h ?k (Pending (T_dir off l (V3 h0)))"
    using old_slot_dir[OF assms(1) 3(3)] by (simp add: old_promise_def)
  have e: "either_task env h0 a h (T_dir off l (V3 h0))" by (auto simp: either_task_def)
  obtain p c' where r: "pc_request ?k (T_dir off l (V3 h0)) c = (p, c')" by fastforce
  from mixed_request[OF assms(2) n e r] have "cache_mixed env a0 h0 a h c'" "p < length (promises c')"
    "old_promise h0 off l es (promises c' ! p)" "\<exists>rs. promises c' = promises c @ rs"
    using old_slot_dir[OF assms(1) 3(3)] by (auto simp: mixed_slot_def)
  with 3(2,3) show ?thesis
    unfolding 3(1) ask_def r goes_either_def on_the_way_def phase_old_def
    by (auto simp: waits_old_def simp del: archive_tile.simps)
qed

text \<open>An attempt begins with the header, of whichever version; a second one with that of the new version.\<close>

lemma begin_either:
  assumes "cache_mixed env a0 h0 a h c" and "tile_place z x y"
    and "again \<Longrightarrow> slots_sat (new_slot env a0 h0 a h) c"
  shows "goes_either env a0 h0 a h (z, x, y) r0 r again c (begin_attempt env z (of_int x) (of_int y) c)"
proof -
  have t: "zxyToTileId z (of_int x) (of_int y) = Inr (of_int (tile_base z + hil_enc z (x, y)))"
    using assms(2) by (intro zxyToTileId_correct) (simp_all add: tile_place_def)
  obtain p c' where r: "pc_request (e_key env) T_header c = (p, c')" by fastforce
  have n: "new_slot env a0 h0 a h (e_key env) (Pending T_header)"
    by (rule new_slot_header) (simp add: promise_right_def task_right_header)
  have e: "either_task env h0 a h T_header" by (simp add: either_task_def task_known_def)
  from mixed_request[OF assms(1) n e r] assms(3) show ?thesis
    by (auto simp: begin_attempt_def t ask_def r goes_either_def on_the_way_def phase_old_def mixed_slot_def new_slot_def
        waits_v3_def waits_old_def)
qed

lemma go_on_old:
  assumes "tags_apart h0 h" and "specVersion h0 = 3" and "cache_mixed env a0 h0 a h c" and "tile_place z x y"
    and "tile_of env a0 h0 z x y = Some r0" and "waits_old env a0 h0 (z, x, y) r0 w q" and "settled q = Some v"
  shows "goes_either env a0 h0 a h (z, x, y) r0 r False c (go_on env z (of_int x) (of_int y) w v c)"
proof -
  let ?t = "tile_base z + hil_enc z (x, y)"
  have t: "0 \<le> ?t" "?t \<le> 2 ^ 53" using assms(4) tile_range[of z x y] by (simp_all add: tile_place_def)
  show ?thesis
  proof (cases w)
    case (For_header tid)
    then have "tid = of_int ?t" "v = Inr (C_header (V3 h0))"
      using assms(6,7) by (simp_all add: waits_old_def settled_def)
    with For_header next_read_old[OF assms(1,3) after_header_next[OF assms(2,5)]] show ?thesis by (simp add: go_on_def)
  next
    case (For_directory h' tid n)
    then obtain off l es where w: "h' = V3 h0" "tid = of_int ?t" "dir_of env a0 h0 off l = Some es" "old_promise h0 off l es q"
      "archive_tile (dir_of env a0 h0) (bytes_of a0) (unpack_of env h0) h0 ?t (Suc n) off l = Some r0"
      using assms(6) by (auto simp: waits_old_def simp del: archive_tile.simps)
    have "v = Inr (C_dir es) \<or> v = Inl Etag_mismatch"
      using w(4) assms(7) by (auto simp: old_promise_def settled_def)
    then show ?thesis
    proof
      assume "v = Inr (C_dir es)"
      with For_directory w(1,2) next_read_old[OF assms(1,3) after_directory_next[OF w(5,3) t]] show ?thesis
        by (simp add: go_on_def)
    next
      assume "v = Inl Etag_mismatch"
      with For_directory assms(3) show ?thesis
        by (auto simp: go_on_def on_the_way_def phase_old_def intro!: goes_either_stay)
    qed
  qed (use assms(6) in \<open>simp_all add: waits_old_def\<close>)
qed

section \<open>All runs\<close>

text \<open>The old version and the new one, and the server that answers with the new one only.\<close>

definition replaced ::
  "'s env \<Rightarrow> header \<Rightarrow> ('s \<Rightarrow> bytes) \<Rightarrow> ('s \<Rightarrow> string option) \<Rightarrow> ('s \<Rightarrow> bool) \<Rightarrow> bytes \<Rightarrow> header \<Rightarrow> bool" where
  "replaced env h0 archive version ok a h \<longleftrightarrow> tags_apart h0 h \<and> specVersion h0 = 3 \<and> specVersion h = 3
     \<and> mismatches env (etag h0) (world env archive version ok a h)"

definition call_either ::
  "'s env \<Rightarrow> bytes \<Rightarrow> header \<Rightarrow> bytes \<Rightarrow> header \<Rightarrow> pcache \<Rightarrow> nat \<times> int \<times> int \<Rightarrow> call \<Rightarrow> bool" where
  "call_either env a0 h0 a h c place cl \<longleftrightarrow> (case place of (z, x, y) \<Rightarrow>
     c_z cl = z \<and> c_x cl = of_int x \<and> c_y cl = of_int y \<and> tile_place z x y
     \<and> (c_phase cl = Idle \<longrightarrow> \<not> c_again cl)
     \<and> (\<exists>r0 r. tile_of env a0 h0 z x y = Some r0 \<and> tile_of env a h z x y = Some r
          \<and> on_the_way env a0 h0 a h place r0 r (c_again cl) c (c_phase cl)))"

definition run_either ::
  "'s env \<Rightarrow> bytes \<Rightarrow> header \<Rightarrow> bytes \<Rightarrow> header \<Rightarrow> ('s \<Rightarrow> bool) \<Rightarrow> (nat \<times> int \<times> int) list \<Rightarrow> pcache \<times> 's \<times> call list \<Rightarrow> bool"
where
  "run_either env a0 h0 a h W asks st \<longleftrightarrow> (case st of (c, s, cls) \<Rightarrow>
     W s \<and> cache_mixed env a0 h0 a h c \<and> list_all2 (call_either env a0 h0 a h c) asks cls)"

lemma run_either_at:
  assumes "run_either env a0 h0 a h W asks (c, s, cls)" and "i < length cls"
  obtains z x y r0 r where "asks ! i = (z, x, y)" "c_z (cls ! i) = z" "c_x (cls ! i) = of_int x" "c_y (cls ! i) = of_int y"
    "tile_place z x y" "tile_of env a0 h0 z x y = Some r0" "tile_of env a h z x y = Some r"
    "on_the_way env a0 h0 a h (z, x, y) r0 r (c_again (cls ! i)) c (c_phase (cls ! i))"
    "c_phase (cls ! i) = Idle \<longrightarrow> \<not> c_again (cls ! i)" "W s" "cache_mixed env a0 h0 a h c"
proof -
  have "call_either env a0 h0 a h c (asks ! i) (cls ! i)"
    using assms list_all2_nthD2[of "call_either env a0 h0 a h c" asks cls i] by (simp add: run_either_def)
  then show thesis using that assms(1) by (auto simp: call_either_def run_either_def)
qed

lemma run_either_replace:
  assumes "run_either env a0 h0 a h W asks (c, s, cls)" and "i < length cls" and "asks ! i = (z, x, y)"
    and "tile_of env a0 h0 z x y = Some r0" and "tile_of env a h z x y = Some r" and "W s'"
    and "goes_either env a0 h0 a h (z, x, y) r0 r again c0 (ph, c')" and "promises c0 = promises c @ added"
    and "c_again cl = again" "c_phase cl = ph" "c_z cl = c_z (cls ! i)" "c_x cl = c_x (cls ! i)" "c_y cl = c_y (cls ! i)"
  shows "run_either env a0 h0 a h W asks (c', s', cls[i := cl])"
proof -
  have l: "list_all2 (call_either env a0 h0 a h c) asks cls" using assms(1) by (simp add: run_either_def)
  obtain rs where c': "promises c' = promises c @ rs" "cache_mixed env a0 h0 a h c'"
    using assms(7,8) by (auto simp: goes_either_def)
  have "list_all2 (call_either env a0 h0 a h c') asks cls"
    using l by (rule list_all2_mono) (auto simp: call_either_def intro: on_the_way_grows[OF _ c'(1)])
  moreover have "call_either env a0 h0 a h c' (asks ! i) cl"
    using list_all2_nthD2[OF l assms(2)] assms(3-5,7,9-13) by (auto simp: call_either_def goes_either_def)
  ultimately have "list_all2 (call_either env a0 h0 a h c') asks (cls[i := cl])"
    using list_all2_update_cong[of "call_either env a0 h0 a h c'" asks cls "asks ! i" cl i] by simp
  with c'(2) assms(6) show ?thesis by (simp add: run_either_def)
qed

lemma arrived_either:
  assumes "mismatches env (etag h0) (world env archive version ok a h)" and "world env archive version ok a h s"
    and "on_the_way env a0 h0 a h place r0 r again c (Reads off l tag rd)" and "e_get env off l tag s = (res, s')"
  shows "on_the_way env a0 h0 a h place r0 r again c (arrived env rd res) \<and> world env archive version ok a h s'"
proof (cases "reads_v3 env a h place r off l tag rd")
  case True
  from arrived_v3[OF assms(2) this assms(4)] show ?thesis by (auto simp: on_the_way_def)
next
  case False
  then have o: "tag = etag h0" "\<not> again" using assms(3) by (auto simp: on_the_way_def phase_old_def)
  obtain s1 where "e_get env off l (etag h0) s = (Inl Etag_mismatch, s1)" "world env archive version ok a h s1"
    using mismatchesD[OF assms(1,2)] by blast
  with assms(4) o have "res = Inl Etag_mismatch" "s' = s1" by simp_all
  with \<open>world env archive version ok a h s1\<close> o show ?thesis by (simp add: arrived_def on_the_way_def phase_old_def)
qed

lemma run_step_either:
  assumes "run_step env st st'" and "replaced env h0 archive version ok a h"
    and "run_either env a0 h0 a h (world env archive version ok a h) asks st"
  shows "run_either env a0 h0 a h (world env archive version ok a h) asks st'"
  using assms(1,3)
proof (induction rule: run_step.induct)
  case (begins i cls c ph c' s)
  obtain z x y r0 r where t: "asks ! i = (z, x, y)" "c_z (cls ! i) = z" "c_x (cls ! i) = of_int x" "c_y (cls ! i) = of_int y"
    "tile_place z x y" "tile_of env a0 h0 z x y = Some r0" "tile_of env a h z x y = Some r"
    "\<not> c_again (cls ! i)" "world env archive version ok a h s" "cache_mixed env a0 h0 a h c"
    using run_either_at[OF begins(4,1)] begins(2) by metis
  have "goes_either env a0 h0 a h (z, x, y) r0 r False c (ph, c')"
    using begin_either[OF t(10,5), where again = False and r = r] begins(3) t(2-4) by simp
  then show ?case
    unfolding move_def by (rule run_either_replace[OF begins(4,1) t(1,6,7,9), where added = "[]"]) (simp_all add: t(8))
next
  case (goes_on i cls p w c v ph c' s)
  obtain z x y r0 r where t: "asks ! i = (z, x, y)" "c_z (cls ! i) = z" "c_x (cls ! i) = of_int x" "c_y (cls ! i) = of_int y"
    "tile_place z x y" "tile_of env a0 h0 z x y = Some r0" "tile_of env a h z x y = Some r"
    "on_the_way env a0 h0 a h (z, x, y) r0 r (c_again (cls ! i)) c (c_phase (cls ! i))"
    "world env archive version ok a h s" "cache_mixed env a0 h0 a h c"
    by (rule run_either_at[OF goes_on(5,1)])
  have R: "tags_apart h0 h" "specVersion h0 = 3" "specVersion h = 3" using assms(2) by (simp_all add: replaced_def)
  consider "waits_v3 env a h (z, x, y) r w (promises c ! p)"
    | "\<not> c_again (cls ! i)" "waits_old env a0 h0 (z, x, y) r0 w (promises c ! p)"
    using t(8) goes_on(2) by (auto simp: on_the_way_def phase_old_def)
  then have "goes_either env a0 h0 a h (z, x, y) r0 r (c_again (cls ! i)) c (ph, c')"
  proof cases
    case 1
    from next_read_new[OF R(1) t(10) go_on_next[OF t(5) R(3) t(7) 1 goes_on(3)]] goes_on(4) t(2-4) show ?thesis by simp
  next
    case 2
    from go_on_old[OF R(1,2) t(10,5,6) 2(2) goes_on(3)] goes_on(4) t(2-4) 2(1) show ?thesis by simp
  qed
  then show ?case
    unfolding move_def by (rule run_either_replace[OF goes_on(5,1) t(1,6,7,9), where added = "[]"]) simp_all
next
  case (gets i cls off l tag rd s res s' c)
  obtain z x y r0 r where t: "asks ! i = (z, x, y)" "tile_of env a0 h0 z x y = Some r0" "tile_of env a h z x y = Some r"
    "on_the_way env a0 h0 a h (z, x, y) r0 r (c_again (cls ! i)) c (c_phase (cls ! i))"
    "world env archive version ok a h s" "cache_mixed env a0 h0 a h c"
    by (rule run_either_at[OF gets(4,1)])
  have m: "mismatches env (etag h0) (world env archive version ok a h)" using assms(2) by (simp add: replaced_def)
  have o: "on_the_way env a0 h0 a h (z, x, y) r0 r (c_again (cls ! i)) c (arrived env rd res)"
    "world env archive version ok a h s'"
    using arrived_either[OF m t(5) _ gets(3)] t(4) gets(2) by simp_all
  then have "goes_either env a0 h0 a h (z, x, y) r0 r (c_again (cls ! i)) c (arrived env rd res, c)"
    by (intro goes_either_stay[OF _ t(6)]) (simp_all add: arrived_def)
  then show ?case
    unfolding move_def by (rule run_either_replace[OF gets(4,1) t(1,2,3) o(2), where added = "[]"]) simp_all
next
  case (begins_again i cls c ph c' s)
  obtain z x y r0 r where t: "asks ! i = (z, x, y)" "c_z (cls ! i) = z" "c_x (cls ! i) = of_int x" "c_y (cls ! i) = of_int y"
    "tile_place z x y" "tile_of env a0 h0 z x y = Some r0" "tile_of env a h z x y = Some r"
    "world env archive version ok a h s" "cache_mixed env a0 h0 a h c"
    by (rule run_either_at[OF begins_again(5,1)])
  obtain rs where d: "cache_mixed env a0 h0 a h (pc_invalidate (e_key env) c)"
    "slots_sat (new_slot env a0 h0 a h) (pc_invalidate (e_key env) c)"
    "promises (pc_invalidate (e_key env) c) = promises c @ rs"
    using mixed_invalidate[OF t(9) refl] by blast
  have "goes_either env a0 h0 a h (z, x, y) r0 r True (pc_invalidate (e_key env) c) (ph, c')"
    using begin_either[OF d(1) t(5) d(2), where again = True and r = r] begins_again(4) t(2-4) by simp
  then show ?case
    unfolding move_again_def by (rule run_either_replace[OF begins_again(5,1) t(1,6,7,8) _ d(3)]) simp_all
next
  case (settles p c t s res s' cls)
  have R: "tags_apart h0 h" "mismatches env (etag h0) (world env archive version ok a h)"
    using assms(2) by (simp_all add: replaced_def)
  have w: "world env archive version ok a h s" "cache_mixed env a0 h0 a h c" "list_all2 (call_either env a0 h0 a h c) asks cls"
    using settles(4) by (simp_all add: run_either_def)
  have "Pending t \<in> set (promises c)" using settles(1,2) by (metis nth_mem)
  then have "either_task env h0 a h t" using w(2) by (simp add: cache_mixed_def)
  from either_fetch[OF R(2) w(1) this settles(3)] have o: "either_outcome env h0 a h t res"
    "world env archive version ok a h s'" by simp_all
  have "list_all2 (call_either env a0 h0 a h (pc_settle p res c)) asks cls"
    using w(3) by (rule list_all2_mono)
      (auto simp: call_either_def intro: on_the_way_settle[OF R(1) o(1) settles(1,2)])
  with mixed_settle[OF R(1) w(2) settles(1,2) o(1)] o(2) show ?case by (simp add: run_either_def)
qed

text \<open>The cache as the replacement finds it.\<close>

lemma stale_mixed:
  assumes "tags_apart h0 h" and "pc_coherent env a0 h0 c" and "no_new env h c"
    and "map_of (invalidations c) (e_key env) = None"
    and "\<forall>t. Pending t \<in> set (promises c) \<longrightarrow> t = T_header \<or> (\<exists>off l. t = T_dir off l (V3 h0))"
  shows "cache_mixed env a0 h0 a h c"
proof -
  have "mixed_slot env a0 h0 a h k (promises c ! data s)" if m: "map_of (cache c) k = Some s" for k s
  proof -
    have q: "promise_right (e_key env) (V3 h0) (parts_of env a0 h0) k (promises c ! data s)"
      using pc_slots_right_slot[OF assms(2) m] by simp
    show ?thesis
    proof (cases "k = e_key env")
      case True
      with q have "promises c ! data s = Pending T_header \<or> promises c ! data s = Fulfilled (C_header (V3 h0))"
        by (cases "promises c ! data s") (auto simp: promise_right_def slot_right_def task_right_def)
      then show ?thesis
        using True new_slot_header[of env h a "Pending T_header"]
        by (auto simp: mixed_slot_def promise_right_def task_right_def)
    next
      case False
      then have "promise_right (e_key env) (V3 h) (parts_of env a h) k (promises c ! data s)"
        using no_new_slot[OF assms(3) m]
        by (cases "promises c ! data s") (auto simp: promise_right_def slot_right_def task_right_def h_tag_def)
      moreover have "old_promise h0 off l es (promises c ! data s)"
        if d: "dir_of env a0 h0 off l = Some es" and k: "k = dir_key (e_key env) (etag h0) off l" for off l es
      proof -
        have p: "parts_of env a0 h0 off l = Some (C_dir es)" using d by (simp add: parts_of_def)
        note R = right_partD[where parts = "parts_of env a0 h0" and hdr = "V3 h0" and key = "e_key env", OF p]
        show ?thesis
          using q R unfolding k
          by (cases "promises c ! data s") (auto simp: promise_right_def old_promise_def h_tag_def part_task_def)
      qed
      ultimately show ?thesis by (simp add: mixed_slot_def new_slot_def)
    qed
  qed
  then show ?thesis
    using assms(4,5) pc_slots_right_slot[OF assms(2)]
    by (auto simp: cache_mixed_def slots_sat_def either_task_def task_known_def)
qed

section \<open>Property\<close>

text \<open>
  C12: Concurrent calls get over the replacement of the archive together. Let the default cache hold the
  header and any directories of the old version, with fetches of it on their way, and nothing of the new
  one; let the source answer every request that names the old version with a mismatch, and serve the
  new version. Let any number of calls of \<^verbatim>\<open>getZxy\<close> run at once, in any order of their parts, the fetches,
  the second attempts and the one invalidation they share, with whatever limit the cache evicts. Then a
  call that has returned has what the new version holds for its tile, at every moment of every run; only
  where the old version had no tile, it may have said so.
\<close>

theorem replaced_archive_concurrently:
  assumes "pc_coherent env a0 h0 c" and "no_new env h c" and "map_of (invalidations c) (e_key env) = None"
    and "\<forall>t. Pending t \<in> set (promises c) \<longrightarrow> t = T_header \<or> (\<exists>off l. t = T_dir off l (V3 h0))"
    and "tags_apart h0 h" and "specVersion h0 = 3" and "specVersion h = 3"
    and "mismatches env (etag h0) (world env archive version ok a h)" and "world env archive version ok a h s"
    and "list_all (\<lambda>(z, x, y). tile_place z x y \<and> tile_of env a0 h0 z x y \<noteq> None \<and> tile_of env a h z x y \<noteq> None) asks"
    and "(run_step env)\<^sup>*\<^sup>* (c, s, calls_for asks) (c', s', cls)"
  shows "list_all2 (\<lambda>(z, x, y) cl. \<forall>t. result cl = Some t \<longrightarrow> tile_of env a h z x y = Some (contents t)
      \<or> tile_of env a0 h0 z x y = Some (contents t) \<and> (\<forall>b. contents t \<noteq> Inr (Some b))) asks cls"
proof -
  have R: "replaced env h0 archive version ok a h" using assms(5-8) by (simp add: replaced_def)
  have "run_either env a0 h0 a h (world env archive version ok a h) asks (c, s, calls_for asks)"
    using assms(9,10) stale_mixed[OF assms(5,1-4)]
    by (auto simp: run_either_def calls_for_def list_all2_map2 list_all_length call_either_def new_call_def on_the_way_def
        intro!: list_all2_all_nthI)
  with assms(11) have "run_either env a0 h0 a h (world env archive version ok a h) asks (c', s', cls)"
    by (induction rule: rtranclp_induct) (simp_all add: run_step_either[OF _ R])
  then have "list_all2 (call_either env a0 h0 a h c') asks cls" by (simp add: run_either_def)
  then show ?thesis
    by (rule list_all2_mono)
      (auto simp: call_either_def result_def on_the_way_def phase_old_def split: phase.splits if_splits)
qed

lemma replaced_archive_concurrently_witness:
  "\<exists>c' s' cl t. (run_step http_env)\<^sup>*\<^sup>* (stale_cache, demo_server, calls_for [(0, 0, 0)]) (c', s', [cl])
    \<and> result cl = Some t \<and> contents t = Inr (Some [7, 9])"
proof -
  obtain t c' s' where g: "getZxy promise_ops http_env 0 (of_int 0) (of_int 0) (stale_cache, demo_server) = (t, c', s')"
    by (metis surj_pair)
  have "slots_valid stale_cache" by (simp add: slots_valid_def stale_cache_def)
  from returns_getZxy[OF this g] obtain cl where
    r: "(run_step http_env)\<^sup>*\<^sup>* (stale_cache, demo_server, calls_for [(0, 0, 0)]) (c', s', [cl])" "result cl = Some t"
    by (auto simp: calls_for_def)
  note d = stale_demo
  have i: "map_of (invalidations stale_cache) (e_key http_env) = None" by (simp add: stale_cache_def)
  have p: "\<forall>t. Pending t \<in> set (promises stale_cache) \<longrightarrow> t = T_header \<or> (\<exists>off l. t = T_dir off l (V3 (demo_version ''v1'')))"
    by (simp add: stale_cache_def)
  have a: "list_all (\<lambda>(z, x, y). tile_place z x y \<and>
      tile_of http_env (simple_archive (demo_version ''v1'') demo_dir [1, 2]) (demo_version ''v1'') z x y \<noteq> None \<and>
      tile_of http_env (simple_archive (demo_version ''v2'') demo_dir [7, 9]) (demo_version ''v2'') z x y \<noteq> None) [(0, 0, 0)]"
    by (simp add: d(1) tile_place_def)
  from replaced_archive_concurrently[OF d(3,4) i p d(5,2,2) server_mismatches server_world a r(1)] r(2)
  have "Inr (Some [7, 9]) = contents t \<or> Inr (Some [1, 2]) = contents t \<and> (\<forall>b. contents t \<noteq> Inr (Some b))"
    by (simp add: d(1))
  then have "contents t = Inr (Some [7, 9])" by metis
  with r show ?thesis by blast
qed

end
