(* ===== verification/Inflate.thy ===== *)
theory Inflate
  imports Bytes
begin

text \<open>
  The inflate routine of fflate that \<^verbatim>\<open>src/app/static/js/pmtiles.js\<close> bundles: the tables, the
  decoding tables of prefix codes (\<^verbatim>\<open>hMap\<close>), the three kinds of blocks (\<^verbatim>\<open>inflt\<close>) and the containers
  (raw, gzip, zlib). An element of a typed array read outside of it is \<^verbatim>\<open>undefined\<close>, which the
  operators read as 0; a write outside of it is ignored, as an update of a HOL list is. Positions are
  counts of bits; the \<^verbatim>\<open>| 0\<close> of \<^verbatim>\<open>p / 8\<close> is exact for buffers of less than 2 GiB. Loops whose end
  depends on the data are partial functions: \<open>None\<close> stands for a run that does not return.
\<close>

section \<open>Typed arrays\<close>

type_synonym table = "nat list"

definition u16 :: "nat \<Rightarrow> nat" where
  "u16 x = take_bit 16 x"

definition tab :: "nat list \<Rightarrow> nat \<Rightarrow> nat" where
  "tab a i = (if i < length a then a ! i else 0)"

definition byte_at :: "bytes \<Rightarrow> nat \<Rightarrow> nat" where
  "byte_at d i = (if i < length d then unat (d ! i) else 0)"

section \<open>Tables\<close>

definition fleb :: table where
  "fleb = [0, 0, 0, 0, 0, 0, 0, 0, 1, 1, 1, 1, 2, 2, 2, 2, 3, 3, 3, 3, 4, 4, 4, 4, 5, 5, 5, 5, 0, 0, 0, 0]"

definition fdeb :: table where
  "fdeb = [0, 0, 0, 0, 1, 1, 2, 2, 3, 3, 4, 4, 5, 5, 6, 6, 7, 7, 8, 8, 9, 9, 10, 10, 11, 11, 12, 12, 13, 13, 0, 0]"

definition clim :: table where
  "clim = [16, 17, 18, 0, 8, 7, 9, 6, 10, 5, 11, 4, 12, 3, 13, 2, 14, 1, 15]"

text \<open>
  The bases of \<^verbatim>\<open>freb\<close>: each base adds a power of two of the extra bits before it (\<^verbatim>\<open>eb[-1]\<close> is
  \<^verbatim>\<open>undefined\<close>, a shift by 0). The table of the inverse is for compression.
\<close>

fun freb_bases :: "nat list \<Rightarrow> nat \<Rightarrow> nat \<Rightarrow> nat \<Rightarrow> table" where
  "freb_bases eb start i 0 = []"
| "freb_bases eb start i (Suc n) =
     (let start = start + push_bit (if i = 0 then 0 else tab eb (i - 1)) 1
      in u16 start # freb_bases eb start (i + 1) n)"

definition freb_codes :: "table \<Rightarrow> table" where
  "freb_codes b =
     foldl (\<lambda>r i. foldl (\<lambda>r j. r[j := push_bit 5 (j - tab b i) OR i]) r [tab b i..<tab b (i + 1)])
       (replicate (tab b 30) 0) [1..<30]"

definition freb :: "nat list \<Rightarrow> nat \<Rightarrow> table \<times> table" where
  "freb eb start = (let b = freb_bases eb start 0 31 in (b, freb_codes b))"

definition fl_base :: table where
  "fl_base = (fst (freb fleb 2))[28 := 258]"

definition revfl :: table where
  "revfl = (snd (freb fleb 2))[258 := 28]"

definition fd_base :: table where
  "fd_base = fst (freb fdeb 0)"

definition revfd :: table where
  "revfd = snd (freb fdeb 0)"

text \<open>The entry of \<^verbatim>\<open>rev\<close>: the 15 bits of an index in reverse order.\<close>

definition rev_entry :: "nat \<Rightarrow> nat" where
  "rev_entry i =
     (let x = drop_bit 1 (i AND 43690) OR push_bit 1 (i AND 21845);
          x = drop_bit 2 (x AND 52428) OR push_bit 2 (x AND 13107);
          x = drop_bit 4 (x AND 61680) OR push_bit 4 (x AND 3855)
      in u16 (drop_bit 1 (drop_bit 8 (x AND 65280) OR push_bit 8 (x AND 255))))"

definition rev_at :: "nat \<Rightarrow> nat" where
  "rev_at i = (if i < 32768 then rev_entry i else 0)"

section \<open>Decoding tables\<close>

text \<open>The number of codes of each length, and the first code of each length.\<close>

definition length_counts :: "nat list \<Rightarrow> nat \<Rightarrow> table" where
  "length_counts cd mb =
     foldl (\<lambda>l c. if c \<noteq> 0 then l[c - 1 := u16 (tab l (c - 1) + 1)] else l) (replicate mb 0) cd"

definition first_codes :: "table \<Rightarrow> nat \<Rightarrow> table" where
  "first_codes l mb =
     foldl (\<lambda>le i. le[i := u16 (push_bit 1 (tab le (i - 1) + tab l (i - 1)))]) (replicate mb 0) [1..<mb]"

text \<open>A step of the loop that fills the table, with \<open>le\<close> the next code of each length.\<close>

definition decode_step :: "nat list \<Rightarrow> nat \<Rightarrow> table \<times> table \<Rightarrow> nat \<Rightarrow> table \<times> table" where
  "decode_step cd mb = (\<lambda>(le, co) i.
     if tab cd i \<noteq> 0 then
       let sv = push_bit 4 i OR tab cd i;
           r1 = mb - tab cd i;
           v = push_bit r1 (tab le (tab cd i - 1));
           m = v OR (2 ^ r1 - 1)
       in (le[tab cd i - 1 := u16 (tab le (tab cd i - 1) + 1)],
           foldl (\<lambda>co v. co[drop_bit (15 - mb) (rev_at v) := u16 sv]) co [v..<m + 1])
     else (le, co))"

definition encode_step :: "nat list \<Rightarrow> table \<times> table \<Rightarrow> nat \<Rightarrow> table \<times> table" where
  "encode_step cd = (\<lambda>(le, co) i.
     if tab cd i \<noteq> 0 then
       (le[tab cd i - 1 := u16 (tab le (tab cd i - 1) + 1)],
        co[i := drop_bit (15 - tab cd i) (rev_at (tab le (tab cd i - 1)))])
     else (le, co))"

definition hMap :: "nat list \<Rightarrow> nat \<Rightarrow> bool \<Rightarrow> table" where
  "hMap cd mb r =
     (let le = first_codes (length_counts cd mb) mb in
      if r then snd (foldl (decode_step cd mb) (le, replicate (2 ^ mb) 0) [0..<length cd])
      else snd (foldl (encode_step cd) (le, replicate (length cd) 0) [0..<length cd]))"

text \<open>The fixed codes.\<close>

definition flt :: "nat list" where
  "flt = replicate 144 8 @ replicate 112 9 @ replicate 24 7 @ replicate 8 8"

definition fdt :: "nat list" where
  "fdt = replicate 32 5"

definition flrm :: table where
  "flrm = hMap flt 9 True"

definition fdrm :: table where
  "fdrm = hMap fdt 5 True"

section \<open>Reading bits\<close>

definition max_of :: "nat list \<Rightarrow> nat" where
  "max_of a = foldl (\<lambda>m x. if x > m then x else m) (tab a 0) (drop 1 a)"

definition bits :: "bytes \<Rightarrow> nat \<Rightarrow> nat \<Rightarrow> nat" where
  "bits d p m =
     (let o' = p div 8 in drop_bit (p AND 7) (byte_at d o' OR push_bit 8 (byte_at d (o' + 1))) AND m)"

definition bits16 :: "bytes \<Rightarrow> nat \<Rightarrow> nat" where
  "bits16 d p =
     (let o' = p div 8 in
      drop_bit (p AND 7)
        (byte_at d o' OR push_bit 8 (byte_at d (o' + 1)) OR push_bit 16 (byte_at d (o' + 2))))"

definition shft :: "nat \<Rightarrow> nat" where
  "shft p = (p + 7) div 8"

definition slc :: "bytes \<Rightarrow> int option \<Rightarrow> int option \<Rightarrow> bytes" where
  "slc v s e =
     (let s = (case s of None \<Rightarrow> 0 | Some s \<Rightarrow> if s < 0 then 0 else s);
          e = (case e of None \<Rightarrow> int (length v) | Some e \<Rightarrow> if e > int (length v) then int (length v) else e)
      in slice v s e)"

definition ec :: "string list" where
  "ec = [''unexpected EOF'', ''invalid block type'', ''invalid length/literal'', ''invalid distance'',
     ''stream finished'', ''no stream handler'', [], ''no callback'', ''invalid UTF-8 data'',
     ''extra field too long'', ''date not in range 1980-2099'', ''filename too long'', ''stream finishing'',
     ''invalid zip data'']"

text \<open>\<^verbatim>\<open>err\<close> throws; an own message takes the place of the one in the list.\<close>

definition err :: "nat \<Rightarrow> string \<Rightarrow> js_error + 'a" where
  "err ind msg = Inl (Error (if msg \<noteq> [] then msg else ec ! ind))"

section \<open>Blocks\<close>

text \<open>
  The state of the loops: the position in bits, the number of bytes written, and the buffer.
  \<^verbatim>\<open>cbuf\<close> grows a buffer that is not given by the caller.
\<close>

definition cbuf :: "bytes \<Rightarrow> nat \<Rightarrow> bytes" where
  "cbuf buf l2 =
     (if l2 > length buf then buf @ replicate (max (length buf * 2) l2 - length buf) 0 else buf)"

definition grown :: "bool \<Rightarrow> bytes \<Rightarrow> nat \<Rightarrow> bytes" where
  "grown noBuf buf l2 = (if noBuf then cbuf buf l2 else buf)"

text \<open>A stored block. The complement of the length is not read.\<close>

definition stored :: "bytes \<Rightarrow> bool \<Rightarrow> nat \<Rightarrow> nat \<Rightarrow> bytes \<Rightarrow> js_error + nat \<times> nat \<times> bytes" where
  "stored dat noBuf pos bt buf =
     (let s = shft pos + 4;
          l = byte_at dat (s - 4) OR push_bit 8 (byte_at dat (s - 3));
          t = s + l
      in if t > length dat then err 0 []
         else
           let buf = grown noBuf buf (bt + l) in
           if bt + l > length buf then Inl Range_error
           else Inr (t * 8, bt + l, take bt buf @ take l (drop s dat) @ drop (bt + l) buf))"

text \<open>The lengths of the codes of a block with its own codes.\<close>

partial_function (option) code_lengths ::
  "bytes \<Rightarrow> table \<Rightarrow> nat \<Rightarrow> nat \<Rightarrow> nat \<Rightarrow> nat list \<Rightarrow> nat \<Rightarrow> (nat list \<times> nat) option" where
  "code_lengths dat clm clbmsk all_len i ldt pos =
     (if i < all_len then
        let r = tab clm (bits dat pos clbmsk);
            pos = pos + (r AND 15);
            s = drop_bit 4 r
        in if s < 16 then code_lengths dat clm clbmsk all_len (i + 1) (ldt[i := s]) pos
           else
             let (c, n, pos) =
               (if s = 16 then (if i = 0 then 0 else tab ldt (i - 1), 3 + bits dat pos 3, pos + 2)
                else if s = 17 then (0, 3 + bits dat pos 7, pos + 3)
                else if s = 18 then (0, 11 + bits dat pos 127, pos + 7)
                else (0, 0, pos))
             in code_lengths dat clm clbmsk all_len (i + n) (foldl (\<lambda>l j. l[j := c]) ldt [i..<i + n]) pos
      else Some (ldt, pos))"

text \<open>The tables of a block, the lengths of their longest codes, and the position behind them.\<close>

definition own_tables :: "bytes \<Rightarrow> nat \<Rightarrow> (table \<times> table \<times> nat \<times> nat \<times> nat) option" where
  "own_tables dat pos =
     (let hLit = bits dat pos 31 + 257;
          hcLen = bits dat (pos + 10) 15 + 4;
          all_len = hLit + bits dat (pos + 5) 31 + 1;
          pos = pos + 14;
          clt = foldl (\<lambda>clt i. clt[tab clim i := bits dat (pos + i * 3) 7]) (replicate 19 0) [0..<hcLen];
          pos = pos + hcLen * 3;
          clb = max_of clt;
          clm = hMap clt clb True
      in Option.bind (code_lengths dat clm (2 ^ clb - 1) all_len 0 (replicate all_len 0) pos) (\<lambda>(ldt, pos).
         let lt = take hLit ldt; dt = drop hLit ldt; lbt = max_of lt; dbt = max_of dt
         in Some (hMap lt lbt True, hMap dt dbt True, lbt, dbt, pos)))"

definition tables_of :: "bytes \<Rightarrow> nat \<Rightarrow> nat \<Rightarrow> (js_error + table \<times> table \<times> nat \<times> nat \<times> nat) option" where
  "tables_of dat type pos =
     (if type = 1 then Some (Inr (flrm, fdrm, 9, 5, pos))
      else if type = 2 then map_option Inr (own_tables dat pos)
      else Some (err 1 []))"

text \<open>A match: the bytes are copied four at a time, up to three more than there are.\<close>

function copy_back :: "bytes \<Rightarrow> nat \<Rightarrow> nat \<Rightarrow> nat option \<Rightarrow> bytes" where
  "copy_back buf bt end' dt =
     (if bt < end' then
        let get = (\<lambda>buf i. case dt of None \<Rightarrow> 0 | Some d \<Rightarrow> if d \<le> i \<and> i - d < length buf then buf ! (i - d) else 0);
            buf = buf[bt := get buf bt];
            buf = buf[bt + 1 := get buf (bt + 1)];
            buf = buf[bt + 2 := get buf (bt + 2)];
            buf = buf[bt + 3 := get buf (bt + 3)]
        in copy_back buf (bt + 4) end' dt
      else buf)"
  by auto
termination by (relation "measure (\<lambda>(buf, bt, end', dt). end' - bt)") auto

text \<open>
  The part of a match that lies in the dictionary; then the rest. A distance is \<^verbatim>\<open>NaN\<close> (\<open>None\<close>)
  when the table of the bases has no entry for its symbol; then every comparison fails.
\<close>

definition copy_match :: "bytes \<Rightarrow> bytes \<Rightarrow> nat \<Rightarrow> nat \<Rightarrow> nat option \<Rightarrow> js_error + nat \<times> bytes" where
  "copy_match dict buf bt add dt =
     (let end' = bt + add; dl = length dict in
      case dt of
        None \<Rightarrow> Inr (end', copy_back buf bt end' None)
      | Some d \<Rightarrow>
          if bt < d then
            if dl + bt < d then err 3 []
            else
              let dend = min d end';
                  buf = foldl (\<lambda>buf i. buf[i := dict ! (dl + i - d)]) buf [bt..<dend]
              in Inr (end', copy_back buf (max bt dend) end' (Some d))
          else Inr (end', copy_back buf bt end' (Some d)))"

definition read_match ::
  "bytes \<Rightarrow> bytes \<Rightarrow> bool \<Rightarrow> table \<Rightarrow> nat \<Rightarrow> nat \<Rightarrow> nat \<Rightarrow> nat \<Rightarrow> bytes \<Rightarrow> js_error + nat \<times> nat \<times> bytes" where
  "read_match dat dict noBuf dm dbt symb pos bt buf =
     (let (add, pos) =
        (if symb > 264 then
           let i = symb - 257; b = tab fleb i
           in (bits dat pos (2 ^ b - 1) + tab fl_base i, pos + b)
         else (symb - 254, pos));
          d = tab dm (bits16 dat pos AND (2 ^ dbt - 1));
          dsym = drop_bit 4 d
      in if d = 0 then err 3 []
         else
           let pos = pos + (d AND 15);
               dt = (if dsym < length fd_base then Some (fd_base ! dsym) else None);
               (dt, pos) =
                 (if dsym > 3 then
                    let b = tab fdeb dsym
                    in (map_option (\<lambda>t. t + (bits16 dat pos AND (2 ^ b - 1))) dt, pos + b)
                  else (dt, pos))
           in if pos > length dat * 8 then err 0 []
              else
                map_sum id (\<lambda>(bt, buf). (pos, bt, buf))
                  (copy_match dict (grown noBuf buf (bt + 131072)) bt add dt))"

partial_function (option) symbols ::
  "bytes \<Rightarrow> bytes \<Rightarrow> bool \<Rightarrow> table \<Rightarrow> table \<Rightarrow> nat \<Rightarrow> nat \<Rightarrow> nat \<Rightarrow> nat \<Rightarrow> bytes
    \<Rightarrow> (js_error + nat \<times> nat \<times> bytes) option" where
  "symbols dat dict noBuf lm dm lbt dbt pos bt buf =
     (let c = tab lm (bits16 dat pos AND (2 ^ lbt - 1));
          symb = drop_bit 4 c;
          pos = pos + (c AND 15)
      in if pos > length dat * 8 then Some (err 0 [])
         else if c = 0 then Some (err 2 [])
         else if symb < 256 then symbols dat dict noBuf lm dm lbt dbt pos (bt + 1) (buf[bt := of_nat symb])
         else if symb = 256 then Some (Inr (pos, bt, buf))
         else
           (case read_match dat dict noBuf dm dbt symb pos bt buf of
              Inl e \<Rightarrow> Some (Inl e)
            | Inr (pos, bt, buf) \<Rightarrow> symbols dat dict noBuf lm dm lbt dbt pos bt buf))"

definition coded ::
  "bytes \<Rightarrow> bytes \<Rightarrow> bool \<Rightarrow> nat \<Rightarrow> nat \<Rightarrow> nat \<Rightarrow> bytes \<Rightarrow> (js_error + nat \<times> nat \<times> bytes) option" where
  "coded dat dict noBuf type pos bt buf =
     Option.bind (tables_of dat type pos) (\<lambda>r.
     case r of
       Inl e \<Rightarrow> Some (Inl e)
     | Inr (lm, dm, lbt, dbt, pos) \<Rightarrow>
         if pos > length dat * 8 then Some (err 0 [])
         else symbols dat dict noBuf lm dm lbt dbt pos bt (grown noBuf buf (bt + 131072)))"

partial_function (option) blocks ::
  "bytes \<Rightarrow> bytes \<Rightarrow> bool \<Rightarrow> nat \<Rightarrow> nat \<Rightarrow> bytes \<Rightarrow> (js_error + nat \<times> bytes) option" where
  "blocks dat dict noBuf pos bt buf =
     (let final = bits dat pos 1;
          type = bits dat (pos + 1) 3;
          pos = pos + 3
      in Option.bind
           (if type = 0 then Some (stored dat noBuf pos bt buf) else coded dat dict noBuf type pos bt buf)
           (\<lambda>r. case r of
              Inl e \<Rightarrow> Some (Inl e)
            | Inr (pos, bt, buf) \<Rightarrow>
                if final = 0 then blocks dat dict noBuf pos bt buf else Some (Inr (bt, buf))))"

text \<open>
  \<^verbatim>\<open>inflt\<close> as it is called, with \<^verbatim>\<open>{ i: 2 }\<close> for a state: no stream is resumed, and a stream that
  ends too early is an error.
\<close>

definition inflt :: "bytes \<Rightarrow> bytes option \<Rightarrow> bytes option \<Rightarrow> (js_error + bytes) option" where
  "inflt dat buf dict =
     (if dat = [] then Some (Inr (case buf of Some b \<Rightarrow> b | None \<Rightarrow> []))
      else
        let noBuf = (buf = None);
            b = (case buf of Some b \<Rightarrow> b | None \<Rightarrow> replicate (length dat * 3) 0);
            dict = (case dict of Some d \<Rightarrow> d | None \<Rightarrow> [])
        in map_option
             (map_sum id (\<lambda>(bt, b). if bt = length b then b else slc b (Some 0) (Some (int bt))))
             (blocks dat dict noBuf 0 0 b))"

section \<open>Containers\<close>

text \<open>The end of the fields of a gzip header that end with a zero.\<close>

function gz_skip :: "bytes \<Rightarrow> nat \<Rightarrow> nat \<Rightarrow> nat" where
  "gz_skip d zs st =
     (if zs > 0 then gz_skip d (if byte_at d st = 0 then zs - 1 else zs) (st + 1) else st)"
  by auto
termination
  by (relation "measures [\<lambda>(d, zs, st). length d - st, \<lambda>(d, zs, st). zs]") (auto simp: byte_at_def)

definition gzs :: "bytes \<Rightarrow> js_error + nat" where
  "gzs d =
     (if byte_at d 0 \<noteq> 31 \<or> byte_at d 1 \<noteq> 139 \<or> byte_at d 2 \<noteq> 8 then err 6 ''invalid gzip data''
      else
        let flg = byte_at d 3;
            st = 10;
            st = (if flg AND 4 \<noteq> 0 then st + ((byte_at d 10 OR push_bit 8 (byte_at d 11)) + 2) else st);
            st = gz_skip d ((drop_bit 3 flg AND 1) + (drop_bit 4 flg AND 1)) st
        in Inr (st + (flg AND 2)))"

definition byte_back :: "bytes \<Rightarrow> nat \<Rightarrow> nat" where
  "byte_back d k = (if k \<le> length d then byte_at d (length d - k) else 0)"

definition gzl :: "bytes \<Rightarrow> nat" where
  "gzl d = byte_back d 4 OR push_bit 8 (byte_back d 3) OR push_bit 16 (byte_back d 2)
     OR push_bit 24 (byte_back d 1)"

definition not_zlib :: "bytes \<Rightarrow> bool" where
  "not_zlib d \<longleftrightarrow> byte_at d 0 AND 15 \<noteq> 8 \<or> drop_bit 4 (byte_at d 0) > 7
     \<or> (push_bit 8 (byte_at d 0) OR byte_at d 1) mod 31 \<noteq> 0"

definition zls :: "bytes \<Rightarrow> bytes option \<Rightarrow> js_error + nat" where
  "zls d dict =
     (if not_zlib d then err 6 ''invalid zlib data''
      else if (drop_bit 5 (byte_at d 1) AND 1) = (if dict = None then 1 else 0)
      then err 6 (''invalid zlib data: '' @ (if byte_at d 1 AND 32 \<noteq> 0 then ''need'' else ''unexpected'')
                  @ '' dictionary'')
      else Inr ((drop_bit 3 (byte_at d 1) AND 4) + 2))"

definition inflateSync :: "bytes \<Rightarrow> bytes option \<Rightarrow> bytes option \<Rightarrow> (js_error + bytes) option" where
  "inflateSync data out dict = inflt data out dict"

definition gunzipSync :: "bytes \<Rightarrow> bytes option \<Rightarrow> bytes option \<Rightarrow> (js_error + bytes) option" where
  "gunzipSync data out dict =
     (case gzs data of
        Inl e \<Rightarrow> Some (Inl e)
      | Inr st \<Rightarrow>
          if st + 8 > length data then Some (err 6 ''invalid gzip data'')
          else inflt (drop st (take (length data - 8) data))
                 (Some (case out of Some b \<Rightarrow> b | None \<Rightarrow> replicate (gzl data) 0)) dict)"

definition unzlibSync :: "bytes \<Rightarrow> bytes option \<Rightarrow> bytes option \<Rightarrow> (js_error + bytes) option" where
  "unzlibSync data out dict =
     (case zls data dict of
        Inl e \<Rightarrow> Some (Inl e)
      | Inr st \<Rightarrow> inflt (drop st (take (length data - 4) data)) out dict)"

definition decompressSync :: "bytes \<Rightarrow> bytes option \<Rightarrow> bytes option \<Rightarrow> (js_error + bytes) option" where
  "decompressSync data out dict =
     (if byte_at data 0 = 31 \<and> byte_at data 1 = 139 \<and> byte_at data 2 = 8 then gunzipSync data out dict
      else if not_zlib data then inflateSync data out dict
      else unzlibSync data out dict)"

end
