(* ===== verification/Bit_Stream.thy ===== *)
theory Bit_Stream
  imports Inflate
begin

text \<open>
  A buffer as one number, its first byte the lowest: the bits a decoder reads are those of the
  number, from the lowest on. What a format writes is a list of fields, each a value and a width.
\<close>

section \<open>The number of a buffer\<close>

definition stream :: "bytes \<Rightarrow> nat" where
  "stream d = horner_sum unat 256 d"

lemma stream_Nil [simp]: "stream [] = 0"
  by (simp add: stream_def)

lemma stream_Cons [simp]: "stream (b # d) = unat b + 256 * stream d"
  by (simp add: stream_def)

lemma unat_byte: "unat (b :: 8 word) < 256"
  using unsigned_less[of b, where 'a = nat] by simp

lemma or_disjoint:
  assumes "(a :: nat) < 2 ^ n"
  shows "a OR push_bit n b = a + 2 ^ n * b"
proof -
  have "\<not> bit a k" if "n \<le> k" for k
    using assms that by (metis bit_take_bit_iff not_less take_bit_nat_eq_self)
  then have "a AND push_bit n b = 0"
    by (intro bit_eqI) (auto simp: bit_simps)
  then have "a OR push_bit n b = a + push_bit n b" using disjunctive_add_eq_or[of a "push_bit n b"] by simp
  then show ?thesis by (simp add: push_bit_eq_mult mult.commute)
qed

lemma mod_add_mult: "a + 256 * b < 2 ^ 16 \<Longrightarrow> (a + (256 * b + 65536 * c)) mod 65536 = a + 256 * (b :: nat)"
  using mod_mult_self2[of "a + 256 * b" 65536 c] by (simp add: add.assoc)

lemma drop_stream: "drop_bit (8 * k) (stream d) = stream (drop k d)"
proof (induction k arbitrary: d)
  case (Suc k)
  show ?case
  proof (cases d)
    case (Cons b d')
    have "drop_bit (8 * Suc k) (stream d) = drop_bit (8 * k) (drop_bit 8 (stream d))"
      by (simp add: drop_bit_drop_bit add.commute)
    also have "drop_bit 8 (stream d) = stream d'"
      using unat_byte[of b] by (simp add: Cons drop_bit_eq_div)
    finally show ?thesis by (simp add: Suc Cons)
  qed simp
qed simp

lemma byte_at_drop: "byte_at d (k + i) = byte_at (drop k d) i"
  by (auto simp: byte_at_def)

lemma stream_two: "byte_at d 0 OR push_bit 8 (byte_at d 1) = take_bit 16 (stream d)"
proof -
  have "byte_at d 0 < 2 ^ 8" using unat_byte by (simp add: byte_at_def)
  then have "byte_at d 0 OR push_bit 8 (byte_at d 1) = byte_at d 0 + 256 * byte_at d 1"
    using or_disjoint by simp
  also have "\<dots> = take_bit 16 (stream d)"
  proof (cases d)
    case (Cons a e)
    show ?thesis
    proof (cases e)
      case (Cons b f)
      have "unat a + 256 * unat b < 2 ^ 16" using unat_byte[of a] unat_byte[of b] by simp
      then show ?thesis
        using \<open>d = a # e\<close> Cons by (simp add: byte_at_def take_bit_eq_mod mod_add_mult)
    qed (use Cons unat_byte[of a] in \<open>simp add: byte_at_def take_bit_eq_mod\<close>)
  qed (simp add: byte_at_def)
  finally show ?thesis .
qed

lemma stream_three:
  "byte_at d 0 OR push_bit 8 (byte_at d 1) OR push_bit 16 (byte_at d 2) = take_bit 24 (stream d)"
proof -
  have a: "byte_at d 0 OR push_bit 8 (byte_at d 1) = take_bit 16 (stream d)" by (rule stream_two)
  have b: "take_bit 16 (stream d) < 2 ^ 16" by (rule take_bit_nat_less_exp)
  have c: "byte_at d 2 = take_bit 8 (drop_bit 16 (stream d))"
  proof -
    have "drop_bit 16 (stream d) = stream (drop 2 d)" using drop_stream[of 2 d] by simp
    moreover have "take_bit 8 (stream e) = byte_at e 0" for e
      using unat_byte by (cases e) (simp_all add: byte_at_def take_bit_eq_mod)
    ultimately show ?thesis using byte_at_drop[of d 2 0] by simp
  qed
  have "take_bit 16 (stream d) + 2 ^ 16 * take_bit 8 (drop_bit 16 (stream d)) = take_bit 24 (stream d)"
    using mod_mult2_eq[of "stream d" "2 ^ 16" "2 ^ 8"] by (simp add: take_bit_eq_mod drop_bit_eq_div)
  then show ?thesis
    using or_disjoint[OF b] by (simp only: or.assoc[symmetric] a c)
qed

text \<open>The reads of the decoder.\<close>

lemma mask_bits: "drop_bit k (take_bit m x) AND (2 ^ n - 1) = take_bit n (drop_bit k (x :: nat))"
  if "n + k \<le> m"
proof -
  have "drop_bit k (take_bit m x) AND mask n = take_bit n (drop_bit k x)"
    using that by (intro bit_eqI) (auto simp: bit_simps)
  then show ?thesis by (simp add: mask_eq_exp_minus_1)
qed

lemma and_7: "p AND 7 = p mod (8 :: nat)"
  using take_bit_eq_mask[of 3 p] by (simp add: take_bit_eq_mod mask_eq_exp_minus_1)

lemma drop_div: "drop_bit (p mod 8) (drop_bit (8 * (p div 8)) (x :: nat)) = drop_bit p x"
  by (simp add: drop_bit_drop_bit)

lemma bits_stream:
  assumes "n \<le> 9"
  shows "bits d p (2 ^ n - 1) = take_bit n (drop_bit p (stream d))"
proof -
  let ?e = "drop (p div 8) d"
  have "bits d p (2 ^ n - 1) = drop_bit (p mod 8) (take_bit 16 (stream ?e)) AND (2 ^ n - 1)"
    using byte_at_drop[of d "p div 8" 0] byte_at_drop[of d "p div 8" 1] stream_two[of ?e]
    by (simp add: bits_def Let_def and_7 del: drop_bit_or)
  also have "\<dots> = take_bit n (drop_bit (p mod 8) (stream ?e))"
    using assms by (intro mask_bits) simp
  finally show ?thesis by (simp add: drop_div flip: drop_stream)
qed

lemma bits16_stream:
  assumes "n \<le> 17"
  shows "bits16 d p AND (2 ^ n - 1) = take_bit n (drop_bit p (stream d))"
proof -
  let ?e = "drop (p div 8) d"
  have "bits16 d p = drop_bit (p mod 8) (take_bit 24 (stream ?e))"
    using byte_at_drop[of d "p div 8" 0] byte_at_drop[of d "p div 8" 1] byte_at_drop[of d "p div 8" 2]
      stream_three[of ?e]
    by (simp add: bits16_def Let_def and_7 del: drop_bit_or)
  moreover have "drop_bit (p mod 8) (take_bit 24 (stream ?e)) AND (2 ^ n - 1)
      = take_bit n (drop_bit (p mod 8) (stream ?e))"
    using assms by (intro mask_bits) simp
  ultimately show ?thesis by (simp add: drop_div flip: drop_stream)
qed

section \<open>Fields\<close>

text \<open>The fields of a list are the bits of a number from a position on.\<close>

primrec has_fields :: "nat \<Rightarrow> nat \<Rightarrow> (nat \<times> nat) list \<Rightarrow> bool" where
  "has_fields s p [] \<longleftrightarrow> True"
| "has_fields s p (f # fs) \<longleftrightarrow> take_bit (snd f) (drop_bit p s) = fst f \<and> has_fields s (p + snd f) fs"

definition width :: "(nat \<times> nat) list \<Rightarrow> nat" where
  "width fs = sum_list (map snd fs)"

lemma width_simps [simp]: "width [] = 0" "width (f # fs) = snd f + width fs" "width (fs @ gs) = width fs + width gs"
  by (simp_all add: width_def)

lemma fields_append [simp]: "has_fields s p (fs @ gs) \<longleftrightarrow> has_fields s p fs \<and> has_fields s (p + width fs) gs"
  by (induction fs arbitrary: p) (auto simp: add.assoc)

text \<open>What a writer of fields puts out.\<close>

primrec packed :: "(nat \<times> nat) list \<Rightarrow> nat" where
  "packed [] = 0"
| "packed (f # fs) = fst f + 2 ^ snd f * packed fs"

definition fields_ok :: "(nat \<times> nat) list \<Rightarrow> bool" where
  "fields_ok fs \<longleftrightarrow> list_all (\<lambda>f. fst f < 2 ^ snd f) fs"

definition to_bytes :: "(nat \<times> nat) list \<Rightarrow> bytes" where
  "to_bytes fs = le_bytes ((width fs + 7) div 8) (int (packed fs))"

lemma packed_less: "fields_ok fs \<Longrightarrow> packed fs < 2 ^ width fs"
proof (induction fs)
  case (Cons f fs)
  then have "packed fs + 1 \<le> 2 ^ width fs" "fst f < 2 ^ snd f" by (simp_all add: fields_ok_def Suc_le_eq)
  then have "2 ^ snd f * (packed fs + 1) \<le> 2 ^ snd f * 2 ^ width fs" by (intro mult_left_mono) simp_all
  then show ?case using \<open>fst f < 2 ^ snd f\<close> by (simp add: power_add)
qed simp

lemma fields_packed: "fields_ok fs \<Longrightarrow> has_fields (a + 2 ^ p * packed fs) p fs" if "a < 2 ^ p"
  using that
proof (induction fs arbitrary: a p)
  case (Cons f fs)
  have v: "fst f < 2 ^ snd f" using Cons.prems by (simp add: fields_ok_def)
  have e: "a + 2 ^ p * packed (f # fs) = (a + 2 ^ p * fst f) + 2 ^ (p + snd f) * packed fs"
    by (simp add: power_add algebra_simps)
  have "a + 2 ^ p * fst f < 2 ^ (p + snd f)"
  proof -
    have "a + 2 ^ p * fst f < 2 ^ p * (fst f + 1)" using Cons.prems by (simp add: algebra_simps)
    also have "\<dots> \<le> 2 ^ p * 2 ^ snd f" using v by (intro mult_left_mono) simp_all
    finally show ?thesis by (simp add: power_add)
  qed
  then have "has_fields (a + 2 ^ p * packed (f # fs)) (p + snd f) fs"
    unfolding e using Cons by (simp add: fields_ok_def)
  moreover have "drop_bit p (a + 2 ^ p * packed (f # fs)) = fst f + 2 ^ snd f * packed fs"
    using Cons.prems by (simp add: drop_bit_eq_div)
  then have "take_bit (snd f) (drop_bit p (a + 2 ^ p * packed (f # fs))) = fst f"
    using v by (simp add: take_bit_eq_mod)
  ultimately show ?case by simp
qed simp

lemma stream_le_bytes: "stream (le_bytes n (int x)) = x mod 256 ^ n"
proof (induction n arbitrary: x)
  case (Suc n)
  have b: "unat (word_of_int (int x) :: 8 word) = x mod 256"
    by (simp add: unat_of_nat)
  have "int x div 256 = int (x div 256)" by (simp add: zdiv_int)
  then show ?case using b Suc[of "x div 256"] by (simp add: mod_mult2_eq)
qed simp

lemma fields_to_bytes:
  assumes "fields_ok fs"
  shows "has_fields (stream (to_bytes fs)) 0 fs" and "width fs \<le> 8 * length (to_bytes fs)"
    and "8 * length (to_bytes fs) < width fs + 8"
proof -
  have "packed fs < 2 ^ width fs" using assms by (rule packed_less)
  also have "\<dots> \<le> 2 ^ (8 * ((width fs + 7) div 8))" by (intro power_increasing) simp_all
  also have "\<dots> = 256 ^ ((width fs + 7) div 8)" by (simp add: power_mult)
  finally show "has_fields (stream (to_bytes fs)) 0 fs"
    using fields_packed[of 0 0 fs] assms by (simp add: to_bytes_def stream_le_bytes)
qed (simp_all add: to_bytes_def)

section \<open>Reversed bits\<close>

primrec rev_bits :: "nat \<Rightarrow> nat \<Rightarrow> nat" where
  "rev_bits 0 x = 0"
| "rev_bits (Suc n) x = x mod 2 * 2 ^ n + rev_bits n (x div 2)"

lemma rev_bits_less: "rev_bits n x < 2 ^ n"
proof (induction n arbitrary: x)
  case (Suc n)
  have "x mod 2 * 2 ^ n \<le> 1 * 2 ^ n" by (intro mult_right_mono) simp_all
  with Suc[of "x div 2"] show ?case by (simp only: rev_bits.simps power_Suc)
qed simp

lemma rev_bits_split: "b < 2 ^ n \<Longrightarrow> rev_bits (m + n) (a * 2 ^ n + b) = rev_bits m a + 2 ^ m * rev_bits n b"
proof (induction n arbitrary: b)
  case (Suc n)
  have e: "a * 2 ^ Suc n + b = 2 * (a * 2 ^ n) + b" by simp
  have m: "(a * 2 ^ Suc n + b) mod 2 = b mod 2" "(a * 2 ^ Suc n + b) div 2 = a * 2 ^ n + b div 2"
    unfolding e by (simp_all only: mod_mult_self4 div_mult_self4[of 2, simplified])
  have "b div 2 < 2 ^ n" using Suc.prems by simp
  then show ?case
    using Suc.IH[of "b div 2"] m by (simp add: algebra_simps power_add)
qed simp

lemma rev_bits_rev_bits: "x < 2 ^ n \<Longrightarrow> rev_bits n (rev_bits n x) = x"
proof (induction n arbitrary: x)
  case (Suc n)
  have "rev_bits (1 + n) (x mod 2 * 2 ^ n + rev_bits n (x div 2)) = rev_bits 1 (x mod 2) + 2 ^ 1 * (x div 2)"
    using Suc rev_bits_less[of n "x div 2"] by (subst rev_bits_split) simp_all
  then show ?case by simp
qed simp

lemma rev_bits_inj: "x < 2 ^ n \<Longrightarrow> y < 2 ^ n \<Longrightarrow> rev_bits n x = rev_bits n y \<Longrightarrow> x = y"
  by (metis rev_bits_rev_bits)

lemma rev_bits_top: "k \<le> n \<Longrightarrow> x < 2 ^ k \<Longrightarrow> rev_bits n x = 2 ^ (n - k) * rev_bits k x"
  using rev_bits_split[of x k "n - k" 0]
proof -
  have z: "rev_bits m 0 = 0" for m by (induction m) simp_all
  assume "k \<le> n" "x < 2 ^ k"
  then show ?thesis using rev_bits_split[of x k "n - k" 0] by (simp add: z)
qed

end
