(* ===== verification/Prefix_Code.thy ===== *)
theory Prefix_Code
  imports Bit_Stream
begin

text \<open>
  Canonical prefix codes: a code is given by the length of the code of each symbol (0 for none);
  ordered by length and then by symbol, the codes follow each other. \<^verbatim>\<open>hMap\<close> of
  \<^verbatim>\<open>src/app/static/js/pmtiles.js\<close> turns the lengths into a table that is indexed by the next bits of
  the stream, which hold the codes in reverse.
\<close>

section \<open>Codes\<close>

text \<open>
  A code of length \<open>n\<close> takes the part \<open>2 powr -n\<close> of all bit sequences; the unit here is the part of a
  code of 15 bits, the longest there is.
\<close>

definition part :: "nat \<Rightarrow> nat" where
  "part c = (if c = 0 then 0 else 2 ^ (15 - c))"

definition kraft :: "nat list \<Rightarrow> nat" where
  "kraft cd = (\<Sum>j<length cd. part (cd ! j))"

definition code_ok :: "nat list \<Rightarrow> bool" where
  "code_ok cd \<longleftrightarrow> list_all (\<lambda>c. c \<le> 15) cd \<and> length cd < 4096 \<and> sum_list (map part cd) \<le> 2 ^ 15"

text \<open>The symbols whose codes precede the one of a symbol.\<close>

definition before :: "nat list \<Rightarrow> nat \<Rightarrow> nat \<Rightarrow> bool" where
  "before cd j i \<longleftrightarrow> cd ! j < cd ! i \<or> cd ! j = cd ! i \<and> j < i"

definition code_start :: "nat list \<Rightarrow> nat \<Rightarrow> nat" where
  "code_start cd i = (\<Sum>j \<in> {j \<in> {..<length cd}. before cd j i}. part (cd ! j))"

definition code :: "nat list \<Rightarrow> nat \<Rightarrow> nat" where
  "code cd i = code_start cd i div part (cd ! i)"

text \<open>The field of a symbol in a stream: its code, the highest bit first.\<close>

definition code_field :: "nat list \<Rightarrow> nat \<Rightarrow> nat \<times> nat" where
  "code_field cd i = (rev_bits (cd ! i) (code cd i), cd ! i)"

lemma code_ok_kraft: "code_ok cd \<Longrightarrow> kraft cd \<le> 2 ^ 15"
  by (simp add: code_ok_def kraft_def sum_list_sum_nth atLeast0LessThan)

lemma code_ok_length: "code_ok cd \<Longrightarrow> i < length cd \<Longrightarrow> cd ! i \<le> 15"
  by (simp add: code_ok_def list_all_length)

lemma part_dvd: "c \<le> d \<Longrightarrow> d \<noteq> 0 \<Longrightarrow> part d dvd part c"
  by (auto simp: part_def intro: le_imp_power_dvd)

lemma part_pos: "c \<noteq> 0 \<Longrightarrow> 0 < part c"
  by (simp add: part_def)

lemma code_start_dvd: "cd ! i \<noteq> 0 \<Longrightarrow> part (cd ! i) dvd code_start cd i"
  unfolding code_start_def by (intro dvd_sum) (auto simp: before_def intro: part_dvd)

lemma code_start_code: "cd ! i \<noteq> 0 \<Longrightarrow> code_start cd i = code cd i * part (cd ! i)"
  using code_start_dvd by (simp add: code_def)

text \<open>The parts of two symbols are apart, and all of them lie in the whole.\<close>

lemma code_start_before:
  assumes "before cd j i" and "j < length cd" and "cd ! j \<noteq> 0"
  shows "code_start cd j + part (cd ! j) \<le> code_start cd i"
proof -
  have "code_start cd j + part (cd ! j)
      = (\<Sum>k \<in> insert j {k \<in> {..<length cd}. before cd k j}. part (cd ! k))"
    unfolding code_start_def by (subst sum.insert) (auto simp: before_def)
  also have "\<dots> \<le> code_start cd i"
    unfolding code_start_def using assms by (intro sum_mono2) (auto simp: before_def)
  finally show ?thesis .
qed

lemma code_start_kraft:
  assumes "i < length cd"
  shows "code_start cd i + part (cd ! i) \<le> kraft cd"
proof -
  have "code_start cd i + part (cd ! i)
      = (\<Sum>k \<in> insert i {k \<in> {..<length cd}. before cd k i}. part (cd ! k))"
    unfolding code_start_def by (subst sum.insert) (auto simp: before_def)
  also have "\<dots> \<le> kraft cd"
    unfolding kraft_def using assms by (intro sum_mono2) auto
  finally show ?thesis .
qed

lemma code_less:
  assumes "code_ok cd" and "i < length cd" and "cd ! i \<noteq> 0"
  shows "code cd i < 2 ^ (cd ! i)"
proof -
  have "(code cd i + 1) * part (cd ! i) \<le> 2 ^ 15"
    using code_start_kraft[OF assms(2)] code_ok_kraft[OF assms(1)] code_start_code[OF assms(3)] by simp
  also have "(2 :: nat) ^ 15 = 2 ^ (cd ! i) * part (cd ! i)"
    using code_ok_length[OF assms(1,2)] assms(3) by (simp add: part_def flip: power_add)
  finally have "code cd i + 1 \<le> 2 ^ (cd ! i)"
    using part_pos[OF assms(3)] by (simp only: mult_le_cancel2)
  then show ?thesis by simp
qed

section \<open>The table of reversed bits\<close>

lemma bit_rev_bits: "bit (rev_bits n x) k \<longleftrightarrow> k < n \<and> bit x (n - 1 - k)"
proof (induction n arbitrary: x)
  case (Suc n)
  have "rev_bits (Suc n) x = rev_bits n (x div 2) OR push_bit n (x mod 2)"
    using or_disjoint[OF rev_bits_less[of n "x div 2"], of "x mod 2"] by simp
  then have "bit (rev_bits (Suc n) x) k \<longleftrightarrow> k < n \<and> bit (x div 2) (n - 1 - k) \<or> n \<le> k \<and> bit (x mod 2) (k - n)"
    using Suc by (simp add: bit_simps)
  moreover have "bit (x mod 2) m \<longleftrightarrow> m = 0 \<and> odd x" for m
    by (cases m) (simp_all add: bit_Suc bit_0)
  moreover have "bit (x div 2) (n - 1 - k) = bit x (n - k)" if "k < n"
    using that by (simp add: Suc_diff_Suc flip: bit_Suc)
  ultimately show ?case
    by (cases "k = n") (auto simp: bit_0)
qed simp

lemma rev_entry_bits: "i < 2 ^ 15 \<Longrightarrow> rev_entry i = rev_bits 15 i"
proof (rule bit_eqI)
  fix k
  assume i: "i < 2 ^ 15"
  have d: "bit (i * 2) n \<longleftrightarrow> n \<noteq> 0 \<and> bit i (n - 1)" for n
    using bit_double_iff[of i n] by (simp add: mult.commute)
  have o: "odd (drop_bit n (i * 2)) \<longleftrightarrow> bit (i * 2) n" for n
    by (simp add: bit_iff_odd_drop_bit)
  show "bit (rev_entry i) k \<longleftrightarrow> bit (rev_bits 15 i) k"
  proof (cases "k < 16")
    case True
    then have "k \<in> {0, 1, 2, 3, 4, 5, 6, 7, 8, 9, 10, 11, 12, 13, 14, 15}"
      by (auto simp: numeral_eq_Suc less_Suc_eq)
    then show ?thesis
      by (elim insertE emptyE) (simp_all add: rev_entry_def u16_def bit_rev_bits bit_simps d o)
  next
    case False
    then show ?thesis by (simp add: rev_entry_def u16_def bit_rev_bits bit_simps)
  qed
qed

text \<open>An index of a table: the highest \<open>mb\<close> of the 15 bits, reversed.\<close>

lemma rev_at_index:
  assumes "mb \<le> 15" and "v < 2 ^ mb"
  shows "drop_bit (15 - mb) (rev_at v) = rev_bits mb v"
proof -
  have "v < 2 ^ 15" using assms by (meson less_le_trans one_le_numeral power_increasing)
  then have "rev_at v = rev_bits 15 v" using rev_entry_bits by (simp add: rev_at_def)
  then show ?thesis
    using rev_bits_top[OF assms] by (simp add: drop_bit_eq_div)
qed

section \<open>The first code of each length\<close>

definition count_of :: "nat list \<Rightarrow> nat \<Rightarrow> nat" where
  "count_of cd k = length (filter ((=) k) cd)"

definition len_start :: "nat list \<Rightarrow> nat \<Rightarrow> nat" where
  "len_start cd k = (\<Sum>j \<in> {j \<in> {..<length cd}. cd ! j < k}. part (cd ! j))"

lemma start_Suc: "len_start cd (Suc k) = len_start cd k + count_of cd k * part k"
proof -
  have "{j \<in> {..<length cd}. cd ! j < Suc k}
      = {j \<in> {..<length cd}. cd ! j < k} \<union> {j. j < length cd \<and> k = cd ! j}" by auto
  moreover have "{j \<in> {..<length cd}. cd ! j < k} \<inter> {j. j < length cd \<and> k = cd ! j} = {}" by auto
  ultimately have "len_start cd (Suc k)
      = len_start cd k + (\<Sum>j \<in> {j. j < length cd \<and> k = cd ! j}. part (cd ! j))"
    unfolding len_start_def by (simp add: sum.union_disjoint)
  also have "(\<Sum>j \<in> {j. j < length cd \<and> k = cd ! j}. part (cd ! j))
      = (\<Sum>j \<in> {j. j < length cd \<and> k = cd ! j}. part k)"
    by (rule sum.cong) auto
  also have "\<dots> = count_of cd k * part k"
    by (simp only: count_of_def length_filter_conv_card sum_constant of_nat_id)
  finally show ?thesis .
qed

lemma start_le: "len_start cd k \<le> kraft cd"
  unfolding len_start_def kraft_def by (intro sum_mono2) auto

lemma start_one: "len_start cd 1 = 0"
  by (simp add: len_start_def part_def)

lemma code_start_start:
  assumes "i < length cd"
  shows "code_start cd i = len_start cd (cd ! i) + count_of (take i cd) (cd ! i) * part (cd ! i)"
proof -
  let ?A = "{j \<in> {..<length cd}. cd ! j < cd ! i}" and ?B = "{j. j < i \<and> cd ! i = cd ! j}"
  have "{j \<in> {..<length cd}. before cd j i} = ?A \<union> ?B" using assms by (auto simp: before_def)
  moreover have "?A \<inter> ?B = {}" by auto
  moreover have "finite ?A" "finite ?B" by simp_all
  ultimately have "code_start cd i = len_start cd (cd ! i) + (\<Sum>j \<in> ?B. part (cd ! j))"
    unfolding code_start_def len_start_def by (simp only: sum.union_disjoint)
  also have "(\<Sum>j \<in> ?B. part (cd ! j)) = (\<Sum>j \<in> ?B. part (cd ! i))"
    by (rule sum.cong) auto
  also have "\<dots> = count_of (take i cd) (cd ! i) * part (cd ! i)"
  proof -
    have "{j. j < length (take i cd) \<and> cd ! i = take i cd ! j} = ?B" using assms by auto
    then show ?thesis by (simp only: count_of_def length_filter_conv_card sum_constant of_nat_id)
  qed
  finally show ?thesis .
qed

lemma count_of_snoc: "count_of (cd @ [c]) k = count_of cd k + (if k = c then 1 else 0)"
  by (simp add: count_of_def)

lemma count_of_le: "count_of cd k \<le> length cd"
  by (simp add: count_of_def)

lemma length_counts_nth:
  assumes "length cd < 2 ^ 16" and "\<forall>c \<in> set cd. c \<le> mb"
  shows "length (length_counts cd mb) = mb
    \<and> (\<forall>k. 0 < k \<longrightarrow> k \<le> mb \<longrightarrow> length_counts cd mb ! (k - 1) = count_of cd k)"
  using assms
proof (induction cd rule: rev_induct)
  case (snoc c cd)
  then have IH: "length (length_counts cd mb) = mb"
    "\<And>k. 0 < k \<Longrightarrow> k \<le> mb \<Longrightarrow> length_counts cd mb ! (k - 1) = count_of cd k" by simp_all
  have c: "c \<le> mb" using snoc.prems by simp
  have step: "length_counts (cd @ [c]) mb
      = (if c \<noteq> 0 then (length_counts cd mb)[c - 1 := u16 (tab (length_counts cd mb) (c - 1) + 1)]
         else length_counts cd mb)"
    by (simp add: length_counts_def)
  have n: "tab (length_counts cd mb) (c - Suc 0) = count_of cd c" if "0 < c"
  proof -
    have "c - Suc 0 < mb" using that c by simp
    then show ?thesis using that c IH(1) IH(2)[of c] by (simp add: tab_def)
  qed
  have u: "u16 (Suc (count_of cd c)) = Suc (count_of cd c)"
    using snoc.prems(1) count_of_le[of cd c] by (simp add: u16_def take_bit_nat_eq_self)
  show ?case
    using IH c by (auto simp: step n u count_of_snoc nth_list_update)
qed (simp add: length_counts_def count_of_def)

lemma first_codes_nth:
  assumes "code_ok cd" and "\<forall>c \<in> set cd. c \<le> mb" and "mb \<le> 15"
  shows "length (first_codes (length_counts cd mb) mb) = mb
    \<and> (\<forall>k. 0 < k \<longrightarrow> k \<le> mb \<longrightarrow> first_codes (length_counts cd mb) mb ! (k - 1) * part k = len_start cd k)"
proof -
  let ?l = "length_counts cd mb"
  define F where "F = (\<lambda>le i. le[i := u16 (push_bit 1 (tab le (i - 1) + tab ?l (i - 1)))])"
  have l: "length ?l = mb" "\<And>k. 0 < k \<Longrightarrow> k \<le> mb \<Longrightarrow> ?l ! (k - 1) = count_of cd k"
    using length_counts_nth[of cd mb] assms(1,2) by (simp_all add: code_ok_def)
  have "length (foldl F (replicate mb 0) [1..<m]) = mb
      \<and> (\<forall>k. 0 < k \<longrightarrow> k \<le> m \<longrightarrow> foldl F (replicate mb 0) [1..<m] ! (k - 1) * part k = len_start cd k)"
    if "1 \<le> m" and "m \<le> mb" for m
    using that
  proof (induction m rule: nat_induct_at_least)
    case base
    then show ?case by (auto simp: start_one[simplified] le_Suc_eq)
  next
    case (Suc m)
    define le where "le = foldl F (replicate mb 0) [1..<m]"
    have IH: "length le = mb" "\<And>k. 0 < k \<Longrightarrow> k \<le> m \<Longrightarrow> le ! (k - 1) * part k = len_start cd k"
      using Suc unfolding le_def by simp_all
    have m: "0 < m" "m < mb" "m < 15" using Suc assms(3) by simp_all
    define x where "x = le ! (m - 1) + count_of cd m"
    have p: "part m = 2 * part (Suc m)" using m by (simp add: part_def Suc_diff_Suc flip: power_Suc)
    have x: "x * part m = len_start cd (Suc m)"
      using IH(2)[of m] m by (simp add: x_def start_Suc algebra_simps)
    have "x * part m \<le> 2 ^ 15"
      unfolding x using start_le[of cd "Suc m"] code_ok_kraft[OF assms(1)] by simp
    moreover have "1 \<le> part (Suc m)" using m by (simp add: part_def)
    ultimately have "2 * x \<le> 2 ^ 15" unfolding p
      by (metis (no_types, lifting) mult.assoc mult.commute mult.right_neutral mult_le_mono2 order_trans)
    then have u: "u16 (push_bit 1 x) = 2 * x"
      by (simp add: u16_def take_bit_nat_eq_self)
    have s: "foldl F (replicate mb 0) [1..<Suc m] = le[m := 2 * x]"
    proof -
      have i: "m - 1 < mb" using m by simp
      have "foldl F (replicate mb 0) [1..<Suc m] = F le m"
        using m by (simp add: le_def)
      also have "\<dots> = le[m := u16 (push_bit 1 x)]"
        using i m IH(1) l by (simp add: F_def tab_def x_def del: push_bit_of_1)
      finally show ?thesis by (simp only: u)
    qed
    show ?case
      unfolding s using IH m x p by (auto simp: nth_list_update le_Suc_eq)
  qed
  moreover have "first_codes ?l mb = foldl F (replicate mb 0) [1..<mb]"
    by (simp add: first_codes_def F_def)
  ultimately show ?thesis
    by (cases "mb = 0") simp_all
qed

section \<open>The decoding table\<close>

text \<open>Writing a range of indices, each reversed.\<close>

lemma write_range:
  fixes a b e :: nat and co :: table
  assumes "mb \<le> 15" and "b \<le> 2 ^ mb" and "length co = 2 ^ mb"
  defines "co' \<equiv> foldl (\<lambda>co v. co[drop_bit (15 - mb) (rev_at v) := e]) co [a..<b]"
  shows "length co' = 2 ^ mb"
    and "v < 2 ^ mb \<Longrightarrow> co' ! rev_bits mb v = (if a \<le> v \<and> v < b then e else co ! rev_bits mb v)"
proof -
  have "length (foldl (\<lambda>co v. co[drop_bit (15 - mb) (rev_at v) := e]) co [a..<b]) = 2 ^ mb
    \<and> (\<forall>v < 2 ^ mb. foldl (\<lambda>co v. co[drop_bit (15 - mb) (rev_at v) := e]) co [a..<b] ! rev_bits mb v
        = (if a \<le> v \<and> v < b then e else co ! rev_bits mb v))"
    using assms(2)
  proof (induction b)
    case (Suc b)
    have b: "b < 2 ^ mb" using Suc.prems by simp
    show ?case
    proof (cases "a \<le> b")
      case True
      have i: "drop_bit (15 - mb) (rev_at b) = rev_bits mb b" by (rule rev_at_index[OF assms(1) b])
      define old where "old = foldl (\<lambda>co v. co[drop_bit (15 - mb) (rev_at v) := e]) co [a..<b]"
      have new: "foldl (\<lambda>co v. co[drop_bit (15 - mb) (rev_at v) := e]) co [a..<Suc b] = old[rev_bits mb b := e]"
        using True i by (simp add: old_def)
      have IH: "length old = 2 ^ mb"
        "\<And>v. v < 2 ^ mb \<Longrightarrow> old ! rev_bits mb v = (if a \<le> v \<and> v < b then e else co ! rev_bits mb v)"
        using Suc unfolding old_def by simp_all
      have "old[rev_bits mb b := e] ! rev_bits mb v = (if a \<le> v \<and> v < Suc b then e else co ! rev_bits mb v)"
        if v: "v < 2 ^ mb" for v
      proof (cases "v = b")
        case False
        then have "rev_bits mb b \<noteq> rev_bits mb v" using rev_bits_inj[OF v b] by auto
        then show ?thesis using IH(2)[OF v] False by (simp add: less_Suc_eq)
      qed (use True IH(1) rev_bits_less[of mb b] in simp)
      then show ?thesis unfolding new using IH(1) by simp
    qed (use Suc in \<open>auto simp: assms(3)\<close>)
  qed (simp add: assms(3))
  then show "length co' = 2 ^ mb"
    and "v < 2 ^ mb \<Longrightarrow> co' ! rev_bits mb v = (if a \<le> v \<and> v < b then e else co ! rev_bits mb v)"
    unfolding co'_def by simp_all
qed

text \<open>The indices of a symbol, before they are reversed.\<close>

definition in_part :: "nat list \<Rightarrow> nat \<Rightarrow> nat \<Rightarrow> nat \<Rightarrow> bool" where
  "in_part cd mb i v \<longleftrightarrow> code cd i * 2 ^ (mb - cd ! i) \<le> v \<and> v < (code cd i + 1) * 2 ^ (mb - cd ! i)"

text \<open>The state of the loop after the symbols below \<open>j\<close>.\<close>

definition filled :: "nat list \<Rightarrow> nat \<Rightarrow> nat \<Rightarrow> table \<times> table \<Rightarrow> bool" where
  "filled cd mb j s \<longleftrightarrow> (case s of (le, co) \<Rightarrow>
     length le = mb \<and> length co = 2 ^ mb
     \<and> (\<forall>k. 0 < k \<longrightarrow> k \<le> mb \<longrightarrow> le ! (k - 1) * part k = len_start cd k + count_of (take j cd) k * part k)
     \<and> (\<forall>i < j. cd ! i \<noteq> 0 \<longrightarrow> (\<forall>v < 2 ^ mb. in_part cd mb i v \<longrightarrow> co ! rev_bits mb v = 16 * i + cd ! i)))"

lemma in_part_start:
  assumes "cd ! i \<noteq> 0" and "cd ! i \<le> mb" and "mb \<le> 15"
  shows "in_part cd mb i v \<longleftrightarrow> code_start cd i \<le> v * 2 ^ (15 - mb) \<and> v * 2 ^ (15 - mb) < code_start cd i + part (cd ! i)"
proof -
  let ?p = "2 ^ (15 - mb) :: nat"
  have "part (cd ! i) = 2 ^ (mb - cd ! i) * ?p"
    using assms by (simp add: part_def flip: power_add)
  then have e: "code_start cd i = code cd i * 2 ^ (mb - cd ! i) * ?p"
    "code_start cd i + part (cd ! i) = (code cd i + 1) * 2 ^ (mb - cd ! i) * ?p"
    using code_start_code[OF assms(1)] by (simp_all add: algebra_simps)
  show ?thesis
    unfolding in_part_def e(2) unfolding e(1) by simp
qed

lemma parts_apart:
  assumes "i < length cd" and "j < length cd" and "i \<noteq> j" and "cd ! i \<noteq> 0" and "cd ! j \<noteq> 0"
    and "\<forall>c \<in> set cd. c \<le> mb" and "mb \<le> 15" and "in_part cd mb i v"
  shows "\<not> in_part cd mb j v"
proof -
  have m: "cd ! i \<le> mb" "cd ! j \<le> mb" using assms by simp_all
  have "before cd i j \<or> before cd j i" using assms(3) by (auto simp: before_def)
  then have "code_start cd i + part (cd ! i) \<le> code_start cd j \<or> code_start cd j + part (cd ! j) \<le> code_start cd i"
    using code_start_before assms(1,2,4,5) by blast
  moreover have "code_start cd i \<le> v * 2 ^ (15 - mb)" "v * 2 ^ (15 - mb) < code_start cd i + part (cd ! i)"
    using assms(8) in_part_start[OF assms(4) m(1) assms(7)] by simp_all
  moreover have "code_start cd j \<le> v * 2 ^ (15 - mb)" "v * 2 ^ (15 - mb) < code_start cd j + part (cd ! j)"
    if "in_part cd mb j v"
    using that in_part_start[OF assms(5) m(2) assms(7)] by simp_all
  ultimately show ?thesis by linarith
qed

lemma filled_next_code:
  assumes "filled cd mb j (le, co)" and "j < length cd" and "cd ! j \<noteq> 0" and "cd ! j \<le> mb"
  shows "le ! (cd ! j - 1) = code cd j"
proof -
  have "le ! (cd ! j - 1) * part (cd ! j) = code cd j * part (cd ! j)"
    using assms code_start_start[OF assms(2)] code_start_code[OF assms(3)] by (simp add: filled_def)
  then show ?thesis using part_pos[OF assms(3)] by simp
qed

text \<open>The step of one symbol writes its entry to the indices of its part.\<close>

lemma decode_step_code:
  assumes ok: "code_ok cd" and mb: "mb \<le> 15" and j: "j < length cd" and nz: "cd ! j \<noteq> 0" and c: "cd ! j \<le> mb"
    and le: "length le = mb" "le ! (cd ! j - 1) = code cd j"
  shows "decode_step cd mb (le, co) j = (le[cd ! j - 1 := code cd j + 1],
    foldl (\<lambda>co v. co[drop_bit (15 - mb) (rev_at v) := 16 * j + cd ! j]) co
      [code cd j * 2 ^ (mb - cd ! j)..<(code cd j + 1) * 2 ^ (mb - cd ! j)])"
proof -
  let ?c = "cd ! j" and ?r = "mb - cd ! j"
  have c15: "?c \<le> 15" "?c < 2 ^ 4" "j < 4096" using c mb j code_ok_length[OF ok j] ok by (simp_all add: code_ok_def)
  have n: "tab cd j = cd ! j" using j by (simp add: tab_def)
  have "?c - 1 < mb" using c nz by linarith
  then have t: "tab le (?c - 1) = code cd j" using le by (simp add: tab_def)
  have "code cd j < 2 ^ ?c" by (rule code_less[OF ok j nz])
  also have "(2 :: nat) ^ ?c \<le> 2 ^ 15" using c15(1) by (intro power_increasing) simp_all
  finally have "code cd j + 1 < 2 ^ 16" by simp
  then have u: "u16 (code cd j + 1) = code cd j + 1" by (simp add: u16_def take_bit_nat_eq_self)
  have "push_bit 4 j OR ?c = 16 * j + ?c"
    using or_disjoint[of ?c 4 j] c15(2) by (simp add: or.commute add.commute)
  then have sv: "u16 (push_bit 4 j OR ?c) = 16 * j + ?c"
    using c15 by (simp add: u16_def take_bit_nat_eq_self)
  have v: "push_bit ?r (code cd j) OR (2 ^ ?r - 1) = code cd j * 2 ^ ?r + (2 ^ ?r - 1)"
    using or_disjoint[of "2 ^ ?r - 1" ?r "code cd j"] by (simp add: or.commute add.commute mult.commute)
  have e: "code cd j * 2 ^ ?r + (2 ^ ?r - 1) + 1 = (code cd j + 1) * 2 ^ ?r" by simp
  show ?thesis
    unfolding decode_step_def prod.case n Let_def t sv u v e[symmetric]
    using nz by (simp add: push_bit_eq_mult)
qed

lemma filled_step:
  assumes ok: "code_ok cd" and mb: "\<forall>c \<in> set cd. c \<le> mb" "mb \<le> 15" and j: "j < length cd"
    and f: "filled cd mb j s"
  shows "filled cd mb (Suc j) (decode_step cd mb s j)"
proof -
  obtain le co where s: "s = (le, co)" by (cases s)
  note next_code = filled_next_code[OF f[unfolded s] j]
  note f = f[unfolded filled_def s prod.case]
  have take: "take (Suc j) cd = take j cd @ [cd ! j]" using j by (rule take_Suc_conv_app_nth)
  show ?thesis
  proof (cases "cd ! j = 0")
    case True
    then show ?thesis
      using f j by (auto simp: decode_step_def s tab_def filled_def take count_of_snoc less_Suc_eq)
  next
    case False
    let ?c = "cd ! j" and ?r = "mb - cd ! j"
    have c: "0 < ?c" "?c \<le> mb" "?c - 1 < mb" using False mb j by (simp_all add: less_le_trans[OF diff_less])
    have lp: "code cd j * part ?c = len_start cd ?c + count_of (take j cd) ?c * part ?c"
      using code_start_start[OF j] code_start_code[OF False] by simp
    have "(code cd j + 1) * 2 ^ ?r \<le> 2 ^ ?c * 2 ^ ?r" using code_less[OF ok j False] by (intro mult_right_mono) simp_all
    then have up: "(code cd j + 1) * 2 ^ ?r \<le> 2 ^ mb" using c(2) by (simp flip: power_add)
    define co' where "co' = foldl (\<lambda>co v. co[drop_bit (15 - mb) (rev_at v) := 16 * j + ?c]) co
      [code cd j * 2 ^ ?r..<(code cd j + 1) * 2 ^ ?r]"
    have w: "length co' = 2 ^ mb"
      "v < 2 ^ mb \<Longrightarrow> co' ! rev_bits mb v = (if in_part cd mb j v then 16 * j + ?c else co ! rev_bits mb v)" for v
      using write_range[where co = co and e = "16 * j + ?c" and a = "code cd j * 2 ^ ?r", OF mb(2) up] f
      unfolding co'_def[symmetric] in_part_def by blast+
    have d: "decode_step cd mb s j = (le[?c - 1 := code cd j + 1], co')"
      unfolding s co'_def using f by (intro decode_step_code[OF ok mb(2) j False c(2)] next_code[OF False c(2)]) simp
    have "co' ! rev_bits mb v = 16 * i + cd ! i"
      if "i < Suc j" "cd ! i \<noteq> 0" "v < 2 ^ mb" "in_part cd mb i v" for i v
    proof (cases "i = j")
      case False
      then have "\<not> in_part cd mb j v"
        using parts_apart[of i cd j mb v] that c(1) j mb by simp
      then show ?thesis using w(2) that f False by (simp add: less_Suc_eq)
    qed (use w(2) that in simp)
    moreover have "le[?c - 1 := code cd j + 1] ! (k - 1) * part k = len_start cd k + count_of (take (Suc j) cd) k * part k"
      if "0 < k" "k \<le> mb" for k
    proof (cases "k = ?c")
      case True
      then show ?thesis using lp f c(3) by (simp add: take count_of_snoc distrib_right)
    next
      case False
      then have "?c - 1 \<noteq> k - 1" using that(1) c(1) by simp
      then show ?thesis using that f False by (simp add: take count_of_snoc)
    qed
    ultimately show ?thesis
      unfolding d filled_def prod.case using w(1) f by simp
  qed
qed

lemma hMap_code:
  assumes "code_ok cd" and "\<forall>c \<in> set cd. c \<le> mb" and "mb \<le> 15" and "i < length cd" and "cd ! i \<noteq> 0"
    and "take_bit (cd ! i) x = rev_bits (cd ! i) (code cd i)" and "x < 2 ^ mb"
  shows "tab (hMap cd mb True) x = 16 * i + cd ! i"
proof -
  let ?le = "first_codes (length_counts cd mb) mb" and ?n = "cd ! i" and ?r = "mb - cd ! i"
  have n: "?n \<le> mb" using assms(2,4) by simp
  have "filled cd mb j (foldl (decode_step cd mb) (?le, replicate (2 ^ mb) 0) [0..<j])" if "j \<le> length cd" for j
    using that
  proof (induction j)
    case 0
    then show ?case using first_codes_nth[OF assms(1-3)] by (simp add: filled_def count_of_def)
  next
    case (Suc j)
    then show ?case using filled_step[OF assms(1-3), of j] by simp
  qed
  from this[of "length cd"] obtain le co
    where s: "foldl (decode_step cd mb) (?le, replicate (2 ^ mb) 0) [0..<length cd] = (le, co)"
      and f: "filled cd mb (length cd) (le, co)"
    by (metis order_refl surj_pair)
  define v where "v = rev_bits mb x"
  have v: "v < 2 ^ mb" "rev_bits mb v = x"
    using assms(7) rev_bits_less rev_bits_rev_bits by (simp_all add: v_def)
  have "x = (x div 2 ^ ?n) * 2 ^ ?n + rev_bits ?n (code cd i)"
    using div_mult_mod_eq[of x "2 ^ ?n"] assms(6) by (simp add: take_bit_eq_mod)
  then have "v = rev_bits ?r (x div 2 ^ ?n) + 2 ^ ?r * code cd i"
    using rev_bits_split[where m = ?r and n = ?n and a = "x div 2 ^ ?n", OF rev_bits_less[of ?n "code cd i"]] n
      rev_bits_rev_bits[OF code_less[OF assms(1,4,5)]]
    by (simp add: v_def)
  then have "in_part cd mb i v"
    using rev_bits_less[of ?r "x div 2 ^ ?n"] by (simp add: in_part_def algebra_simps)
  then have "co ! rev_bits mb v = 16 * i + ?n"
    using f v(1) assms(4,5) unfolding filled_def prod.case by blast
  then have "co ! x = 16 * i + ?n" by (simp only: v(2))
  then show ?thesis
    using f assms(7) by (simp add: hMap_def Let_def s tab_def filled_def)
qed

end
