(* ===== verification/Deflate_Format.thy ===== *)
theory Deflate_Format
  imports Prefix_Code
begin

text \<open>
  The DEFLATE format (RFC 1951) as a writer: blocks, the bytes they stand for, and the fields they
  are written as. The tables are those of the RFC; the symbols of a match carry their extra bits, so
  every encoding of a length and a distance is covered.
\<close>

section \<open>Items of a block\<close>

definition length_base :: "nat list" where
  "length_base = [3, 4, 5, 6, 7, 8, 9, 10, 11, 13, 15, 17, 19, 23, 27, 31, 35, 43, 51, 59, 67, 83, 99, 115,
     131, 163, 195, 227, 258]"

definition length_extra :: "nat list" where
  "length_extra = [0, 0, 0, 0, 0, 0, 0, 0, 1, 1, 1, 1, 2, 2, 2, 2, 3, 3, 3, 3, 4, 4, 4, 4, 5, 5, 5, 5, 0]"

definition dist_base :: "nat list" where
  "dist_base = [1, 2, 3, 4, 5, 7, 9, 13, 17, 25, 33, 49, 65, 97, 129, 193, 257, 385, 513, 769, 1025, 1537,
     2049, 3073, 4097, 6145, 8193, 12289, 16385, 24577]"

definition dist_extra :: "nat list" where
  "dist_extra = [0, 0, 0, 0, 1, 1, 2, 2, 3, 3, 4, 4, 5, 5, 6, 6, 7, 7, 8, 8, 9, 9, 10, 10, 11, 11, 12, 12, 13, 13]"

text \<open>A literal byte, or a match: the symbol of its length, the extra bits, and the same of its distance.\<close>

datatype item = Lit "8 word" | Ref nat nat nat nat

fun ref_length :: "item \<Rightarrow> nat" where
  "ref_length (Lit b) = 1"
| "ref_length (Ref s e t f) = length_base ! s + e"

definition ref_dist :: "nat \<Rightarrow> nat \<Rightarrow> nat" where
  "ref_dist t f = dist_base ! t + f"

text \<open>A match repeats what is there, one byte after the other.\<close>

fun lz_copy :: "bytes \<Rightarrow> nat \<Rightarrow> nat \<Rightarrow> bytes" where
  "lz_copy out d 0 = out"
| "lz_copy out d (Suc n) = lz_copy (out @ [out ! (length out - d)]) d n"

fun expand_item :: "bytes \<Rightarrow> item \<Rightarrow> bytes" where
  "expand_item out (Lit b) = out @ [b]"
| "expand_item out (Ref s e t f) = lz_copy out (ref_dist t f) (length_base ! s + e)"

definition expand :: "bytes \<Rightarrow> item list \<Rightarrow> bytes" where
  "expand out items = foldl expand_item out items"

text \<open>
  An item is good after \<open>n\<close> bytes if its symbols have codes, the extra bits fit, and the distance does
  not reach beyond the start.
\<close>

definition has_code :: "nat list \<Rightarrow> nat \<Rightarrow> bool" where
  "has_code cd i \<longleftrightarrow> i < length cd \<and> cd ! i \<noteq> 0"

fun item_ok :: "nat list \<Rightarrow> nat list \<Rightarrow> nat \<Rightarrow> item \<Rightarrow> bool" where
  "item_ok lt dt n (Lit b) \<longleftrightarrow> has_code lt (unat b)"
| "item_ok lt dt n (Ref s e t f) \<longleftrightarrow>
     s < 29 \<and> has_code lt (257 + s) \<and> e < 2 ^ (length_extra ! s)
     \<and> t < 30 \<and> has_code dt t \<and> f < 2 ^ (dist_extra ! t) \<and> ref_dist t f \<le> n"

fun items_ok :: "nat list \<Rightarrow> nat list \<Rightarrow> nat \<Rightarrow> item list \<Rightarrow> bool" where
  "items_ok lt dt n [] \<longleftrightarrow> True"
| "items_ok lt dt n (i # is) \<longleftrightarrow> item_ok lt dt n i \<and> items_ok lt dt (n + ref_length i) is"

fun item_fields :: "nat list \<Rightarrow> nat list \<Rightarrow> item \<Rightarrow> (nat \<times> nat) list" where
  "item_fields lt dt (Lit b) = [code_field lt (unat b)]"
| "item_fields lt dt (Ref s e t f) =
     [code_field lt (257 + s), (e, length_extra ! s), code_field dt t, (f, dist_extra ! t)]"

text \<open>The items of a block and the mark of its end.\<close>

definition items_fields :: "nat list \<Rightarrow> nat list \<Rightarrow> item list \<Rightarrow> (nat \<times> nat) list" where
  "items_fields lt dt items = concat (map (item_fields lt dt) items) @ [code_field lt 256]"

section \<open>The codes of a block\<close>

definition fixed_literals :: "nat list" where
  "fixed_literals = map (\<lambda>i. if i < 144 then 8 else if i < 256 then 9 else if i < 280 then 7 else 8) [0..<288]"

definition fixed_distances :: "nat list" where
  "fixed_distances = replicate 32 5"

text \<open>The lengths of the codes are written as runs.\<close>

datatype run = Len nat | Repeat nat | Zeros nat | Many_zeros nat

fun run_symbol :: "run \<Rightarrow> nat" where
  "run_symbol (Len n) = n"
| "run_symbol (Repeat n) = 16"
| "run_symbol (Zeros n) = 17"
| "run_symbol (Many_zeros n) = 18"

fun run_extra :: "run \<Rightarrow> (nat \<times> nat) list" where
  "run_extra (Len n) = []"
| "run_extra (Repeat n) = [(n - 3, 2)]"
| "run_extra (Zeros n) = [(n - 3, 3)]"
| "run_extra (Many_zeros n) = [(n - 11, 7)]"

fun expand_run :: "nat list \<Rightarrow> run \<Rightarrow> nat list" where
  "expand_run ls (Len n) = ls @ [n]"
| "expand_run ls (Repeat n) = ls @ replicate n (last ls)"
| "expand_run ls (Zeros n) = ls @ replicate n 0"
| "expand_run ls (Many_zeros n) = ls @ replicate n 0"

fun run_ok :: "nat list \<Rightarrow> run \<Rightarrow> bool" where
  "run_ok ls (Len n) \<longleftrightarrow> n \<le> 15"
| "run_ok ls (Repeat n) \<longleftrightarrow> ls \<noteq> [] \<and> 3 \<le> n \<and> n \<le> 6"
| "run_ok ls (Zeros n) \<longleftrightarrow> 3 \<le> n \<and> n \<le> 10"
| "run_ok ls (Many_zeros n) \<longleftrightarrow> 11 \<le> n \<and> n \<le> 138"

fun runs_ok :: "nat list \<Rightarrow> nat list \<Rightarrow> run list \<Rightarrow> bool" where
  "runs_ok ct ls [] \<longleftrightarrow> True"
| "runs_ok ct ls (r # rs) \<longleftrightarrow> run_ok ls r \<and> has_code ct (run_symbol r) \<and> runs_ok ct (expand_run ls r) rs"

definition runs_fields :: "nat list \<Rightarrow> run list \<Rightarrow> (nat \<times> nat) list" where
  "runs_fields ct rs = concat (map (\<lambda>r. code_field ct (run_symbol r) # run_extra r) rs)"

definition code_order :: "nat list" where
  "code_order = [16, 17, 18, 0, 8, 7, 9, 6, 10, 5, 11, 4, 12, 3, 13, 2, 14, 1, 15]"

text \<open>
  The codes of a block: the numbers of lengths of literals and of written lengths of the code of the
  runs, this code, and the runs.
\<close>

record codes =
  literals :: nat
  written :: nat
  run_code :: "nat list"
  runs :: "run list"

definition code_list :: "codes \<Rightarrow> nat list" where
  "code_list c = foldl expand_run [] (runs c)"

definition lit_code :: "codes \<Rightarrow> nat list" where
  "lit_code c = take (literals c) (code_list c)"

definition dist_code :: "codes \<Rightarrow> nat list" where
  "dist_code c = drop (literals c) (code_list c)"

definition codes_ok :: "codes \<Rightarrow> bool" where
  "codes_ok c \<longleftrightarrow>
     257 \<le> literals c \<and> literals c \<le> 288 \<and> literals c < length (code_list c)
     \<and> length (code_list c) \<le> literals c + 32
     \<and> 4 \<le> written c \<and> written c \<le> 19 \<and> length (run_code c) = 19
     \<and> list_all (\<lambda>n. n \<le> 7) (run_code c) \<and> code_ok (run_code c)
     \<and> list_all (\<lambda>k. run_code c ! (code_order ! k) = 0) [written c..<19]
     \<and> runs_ok (run_code c) [] (runs c) \<and> code_ok (lit_code c) \<and> code_ok (dist_code c)"

definition codes_fields :: "codes \<Rightarrow> (nat \<times> nat) list" where
  "codes_fields c =
     [(literals c - 257, 5), (length (code_list c) - literals c - 1, 5), (written c - 4, 4)]
     @ map (\<lambda>k. (run_code c ! (code_order ! k), 3)) [0..<written c]
     @ runs_fields (run_code c) (runs c)"

section \<open>Blocks\<close>

datatype block = Plain bytes | Fixed "item list" | Own codes "item list"

fun expand_block :: "bytes \<Rightarrow> block \<Rightarrow> bytes" where
  "expand_block out (Plain d) = out @ d"
| "expand_block out (Fixed is) = expand out is"
| "expand_block out (Own c is) = expand out is"

fun block_ok :: "nat \<Rightarrow> block \<Rightarrow> bool" where
  "block_ok n (Plain d) \<longleftrightarrow> length d < 2 ^ 16"
| "block_ok n (Fixed is) \<longleftrightarrow> items_ok fixed_literals fixed_distances n is"
| "block_ok n (Own c is) \<longleftrightarrow>
     codes_ok c \<and> has_code (lit_code c) 256 \<and> items_ok (lit_code c) (dist_code c) n is"

text \<open>A stored block is filled up to the next byte; its length is written twice.\<close>

fun block_fields :: "nat \<Rightarrow> bool \<Rightarrow> block \<Rightarrow> (nat \<times> nat) list" where
  "block_fields p fin (Plain d) =
     [(of_bool fin, 1), (0, 2), (0, 8 * ((p + 10) div 8) - (p + 3)), (length d, 16), (65535 - length d, 16)]
     @ map (\<lambda>b. (unat b, 8)) d"
| "block_fields p fin (Fixed is) = [(of_bool fin, 1), (1, 2)] @ items_fields fixed_literals fixed_distances is"
| "block_fields p fin (Own c is) =
     [(of_bool fin, 1), (2, 2)] @ codes_fields c @ items_fields (lit_code c) (dist_code c) is"

fun deflate_fields :: "nat \<Rightarrow> block list \<Rightarrow> (nat \<times> nat) list" where
  "deflate_fields p [] = []"
| "deflate_fields p (b # bs) =
     block_fields p (bs = []) b @ deflate_fields (p + width (block_fields p (bs = []) b)) bs"

fun blocks_ok :: "bytes \<Rightarrow> block list \<Rightarrow> bool" where
  "blocks_ok out [] \<longleftrightarrow> True"
| "blocks_ok out (b # bs) \<longleftrightarrow> block_ok (length out) b \<and> blocks_ok (expand_block out b) bs"

text \<open>What a list of blocks stands for, and how it is written.\<close>

definition inflated :: "block list \<Rightarrow> bytes" where
  "inflated bs = foldl expand_block [] bs"

definition deflate :: "block list \<Rightarrow> bytes" where
  "deflate bs = to_bytes (deflate_fields 0 bs)"

section \<open>Facts of the format\<close>

lemma lz_copy_add: "lz_copy out d (m + n) = lz_copy (lz_copy out d m) d n"
  by (induction m arbitrary: out) simp_all

lemma lz_copy_Suc: "lz_copy out d (Suc n) = lz_copy out d n @ [lz_copy out d n ! (length (lz_copy out d n) - d)]"
  using lz_copy_add[of out d n 1] by simp

lemma length_lz_copy [simp]: "length (lz_copy out d n) = length out + n"
  by (induction n arbitrary: out) simp_all

lemma length_expand_item [simp]: "length (expand_item out i) = length out + ref_length i"
  by (cases i) simp_all

lemma expand_simps [simp]:
  "expand out [] = out" "expand out (i # is) = expand (expand_item out i) is"
  by (simp_all add: expand_def)

lemma length_expand_mono: "length out \<le> length (expand out is)"
proof (induction "is" arbitrary: out)
  case (Cons i "is")
  show ?case using Cons[of "expand_item out i"] by simp
qed simp

lemma items_fields_simps [simp]:
  "items_fields lt dt [] = [code_field lt 256]"
  "items_fields lt dt (i # is) = item_fields lt dt i @ items_fields lt dt is"
  by (simp_all add: items_fields_def)

lemma runs_fields_simps [simp]:
  "runs_fields ct [] = []"
  "runs_fields ct (r # rs) = code_field ct (run_symbol r) # run_extra r @ runs_fields ct rs"
  by (simp_all add: runs_fields_def)

lemma fields_ok_simps [simp]:
  "fields_ok []" "fields_ok (f # fs) \<longleftrightarrow> fst f < 2 ^ snd f \<and> fields_ok fs"
  "fields_ok (fs @ gs) \<longleftrightarrow> fields_ok fs \<and> fields_ok gs"
  by (simp_all add: fields_ok_def)

lemma code_field_ok [simp]: "fst (code_field cd i) < 2 ^ snd (code_field cd i)"
  by (simp add: code_field_def rev_bits_less)

lemma item_fields_ok: "item_ok lt dt n i \<Longrightarrow> fields_ok (item_fields lt dt i)"
  by (cases i) simp_all

lemma items_fields_ok: "items_ok lt dt n is \<Longrightarrow> fields_ok (items_fields lt dt is)"
  by (induction "is" arbitrary: n) (auto intro: item_fields_ok)

lemma runs_fields_ok: "runs_ok ct ls rs \<Longrightarrow> fields_ok (runs_fields ct rs)"
proof (induction rs arbitrary: ls)
  case (Cons r rs)
  then show ?case by (cases r) auto
qed simp

lemma code_order_less: "k < 19 \<Longrightarrow> code_order ! k < 19"
  by (auto simp: code_order_def numeral_eq_Suc less_Suc_eq)

lemma codes_fields_ok: "codes_ok c \<Longrightarrow> fields_ok (codes_fields c)"
proof -
  assume c: "codes_ok c"
  have "run_code c ! (code_order ! k) < 8" if "k < written c" for k
  proof -
    have "code_order ! k < 19" using that c by (intro code_order_less) (simp add: codes_ok_def)
    then have "run_code c ! (code_order ! k) \<le> 7" using c by (simp add: codes_ok_def list_all_length)
    then show ?thesis by simp
  qed
  then show ?thesis
    using c runs_fields_ok[of "run_code c" "[]" "runs c"]
    by (auto simp: codes_fields_def codes_ok_def fields_ok_def list_all_iff)
qed

lemma block_fields_ok: "block_ok n b \<Longrightarrow> fields_ok (block_fields p l b)"
proof (cases b)
  case (Plain d)
  assume "block_ok n b"
  then show ?thesis using unat_byte by (auto simp: Plain fields_ok_def list_all_iff)
qed (auto intro: items_fields_ok codes_fields_ok)

lemma deflate_fields_ok: "blocks_ok out bs \<Longrightarrow> fields_ok (deflate_fields p bs)"
  by (induction bs arbitrary: out p) (auto intro: block_fields_ok)

end
