(* ===== verification/Inflate_Reads.thy ===== *)
theory Inflate_Reads
  imports Deflate_Format
begin

text \<open>
  The inflate routine reads the DEFLATE format: what the writer of \<^verbatim>\<open>Deflate_Format\<close> puts out is read
  back by \<open>inflt\<close>, for stored blocks, for the fixed codes and for codes of a block's own.
\<close>

section \<open>The tables of the code are those of the format\<close>

lemma freb_bases_numeral:
  "freb_bases eb start i (numeral k) =
     (let start = start + push_bit (if i = 0 then 0 else tab eb (i - 1)) 1
      in u16 start # freb_bases eb start (i + 1) (pred_numeral k))"
  by (simp add: numeral_eq_Suc)

lemma tab_Cons: "tab (x # xs) 0 = x" "tab (x # xs) (numeral k) = tab xs (pred_numeral k)" "tab (x # xs) (Suc i) = tab xs i"
  by (simp_all add: tab_def numeral_eq_Suc)

lemma fst_freb: "fst (freb eb start) = freb_bases eb start 0 31"
  by (simp add: freb_def Let_def)

lemma fl_base_eq: "fl_base = length_base @ [260, 261]"
  by (simp add: fl_base_def fst_freb freb_bases_numeral tab_Cons fleb_def length_base_def u16_def take_bit_eq_mod
      push_bit_eq_mult)

lemma fd_base_eq: "fd_base = dist_base @ [32769]"
  by (simp add: fd_base_def fst_freb freb_bases_numeral tab_Cons fdeb_def dist_base_def u16_def take_bit_eq_mod
      push_bit_eq_mult)

lemma fleb_eq: "fleb = length_extra @ [0, 0, 0]"
  by (simp add: fleb_def length_extra_def)

lemma fdeb_eq: "fdeb = dist_extra @ [0, 0]"
  by (simp add: fdeb_def dist_extra_def)

lemma length_tables_length:
  "length length_base = 29" "length length_extra = 29" "length dist_base = 30" "length dist_extra = 30"
  by (simp_all add: length_base_def length_extra_def dist_base_def dist_extra_def)

lemma table_entries:
  "s < 29 \<Longrightarrow> tab fl_base s = length_base ! s" "s < 29 \<Longrightarrow> tab fleb s = length_extra ! s"
  "t < 30 \<Longrightarrow> fd_base ! t = dist_base ! t" "t < 30 \<Longrightarrow> tab fdeb t = dist_extra ! t"
  "length fd_base = 31"
  by (simp_all add: fl_base_eq fleb_eq fd_base_eq fdeb_eq tab_def nth_append length_tables_length)

lemma length_tables:
  assumes "s < 29"
  shows "length_extra ! s \<le> 5" and "3 \<le> length_base ! s"
    and "e < 2 ^ (length_extra ! s) \<Longrightarrow> length_base ! s + e \<le> 258"
proof -
  have "list_all (\<lambda>x. x \<le> 5) length_extra" "list_all (\<lambda>x. 3 \<le> x) length_base"
    "list_all (\<lambda>(b, e). b + 2 ^ e \<le> 259) (zip length_base length_extra)"
    by (simp_all add: length_base_def length_extra_def)
  then show "length_extra ! s \<le> 5" "3 \<le> length_base ! s"
    "e < 2 ^ (length_extra ! s) \<Longrightarrow> length_base ! s + e \<le> 258"
    using assms by (simp_all add: list_all_length length_tables_length) fastforce
qed

lemma short_lengths:
  assumes "s \<le> 7"
  shows "length_extra ! s = 0" and "length_base ! s = s + 3"
proof -
  have "s \<in> {0, 1, 2, 3, 4, 5, 6, 7}" using assms by auto
  then show "length_extra ! s = 0" "length_base ! s = s + 3"
    by (auto simp: length_base_def length_extra_def)
qed

lemma dist_tables:
  assumes "t < 30"
  shows "dist_extra ! t \<le> 13" and "1 \<le> dist_base ! t" and "t \<le> 3 \<Longrightarrow> dist_extra ! t = 0"
proof -
  have "list_all (\<lambda>x. x \<le> 13) dist_extra" "list_all (\<lambda>x. 1 \<le> x) dist_base"
    by (simp_all add: dist_base_def dist_extra_def)
  then show "dist_extra ! t \<le> 13" "1 \<le> dist_base ! t"
    using assms by (simp_all add: list_all_length length_tables_length)
  assume "t \<le> 3"
  then have "t \<in> {0, 1, 2, 3}" by auto
  then show "dist_extra ! t = 0" by (auto simp: dist_extra_def)
qed

lemma fixed_literals_eq: "fixed_literals = flt"
  unfolding fixed_literals_def flt_def by code_simp

lemma fixed_codes: "flt = fixed_literals" "fdt = fixed_distances" "clim = code_order"
  by (simp_all only: fixed_literals_eq fdt_def fixed_distances_def clim_def code_order_def)

lemma fixed_codes_ok:
  "code_ok fixed_literals" "code_ok fixed_distances" "has_code fixed_literals 256"
  by (simp_all add: fixed_literals_eq flt_def fixed_distances_def code_ok_def has_code_def part_def
      sum_list_replicate list_all_iff nth_append)

section \<open>Reading a symbol\<close>

text \<open>A table decodes a code: the next bits of the stream, of the width of the table, are its index.\<close>

definition decodes :: "nat list \<Rightarrow> table \<Rightarrow> nat \<Rightarrow> bool" where
  "decodes cd t mb \<longleftrightarrow> mb \<le> 15 \<and> (\<forall>i. has_code cd i \<longrightarrow> cd ! i \<le> mb \<and> i < 4096 \<and>
     (\<forall>x < 2 ^ mb. take_bit (cd ! i) x = fst (code_field cd i) \<longrightarrow> tab t x = 16 * i + cd ! i))"

lemma decodes_hMap:
  assumes "code_ok cd" and "\<forall>c \<in> set cd. c \<le> mb" and "mb \<le> 15"
  shows "decodes cd (hMap cd mb True) mb"
  using assms hMap_code[OF assms]
  by (auto simp: decodes_def has_code_def code_field_def code_ok_def)

lemma foldl_max_ge: "c = a \<or> c \<in> set xs \<Longrightarrow> c \<le> foldl (\<lambda>m x. if x > m then x else m) a xs" for c a :: nat
proof (induction xs arbitrary: a c)
  case (Cons x xs)
  let ?m = "if x > a then x else a"
  have "?m \<le> foldl (\<lambda>m x. if x > m then x else m) ?m xs" by (rule Cons.IH) simp
  moreover have "c \<le> ?m \<or> c \<in> set xs" using Cons.prems by auto
  ultimately show ?case using Cons.IH[of c ?m] by (auto simp del: if_split)
qed simp

lemma foldl_max_le:
  "a \<le> n \<Longrightarrow> \<forall>c \<in> set xs. c \<le> n \<Longrightarrow> foldl (\<lambda>m x. if x > m then x else m) a xs \<le> n" for a n :: nat
  by (induction xs arbitrary: a) simp_all

lemma max_of_ge: "c \<in> set cd \<Longrightarrow> c \<le> max_of cd"
  by (cases cd) (auto simp: max_of_def tab_def intro: foldl_max_ge)

lemma max_of_le: "\<forall>c \<in> set cd. c \<le> n \<Longrightarrow> max_of cd \<le> n"
  by (cases cd) (auto simp: max_of_def tab_def intro: foldl_max_le)

lemma decodes_max:
  assumes "code_ok cd" and "cd \<noteq> []"
  shows "decodes cd (hMap cd (max_of cd) True) (max_of cd)"
  using assms by (intro decodes_hMap) (auto simp: code_ok_def list_all_iff intro: max_of_ge max_of_le)

lemma decodes_fixed: "decodes fixed_literals flrm 9" "decodes fixed_distances fdrm 5"
proof -
  have "list_all (\<lambda>c. c \<le> 9) fixed_literals" "list_all (\<lambda>c. c \<le> 5) fixed_distances"
    by (auto simp: fixed_literals_def fixed_distances_def list_all_iff)
  then show "decodes fixed_literals flrm 9" "decodes fixed_distances fdrm 5"
    unfolding flrm_def fdrm_def fixed_codes using fixed_codes_ok(1,2)
    by (auto intro!: decodes_hMap simp: list_all_iff)
qed

lemma read_symbol:
  assumes "decodes cd t mb" and "has_code cd i"
    and "take_bit (cd ! i) (drop_bit p s) = fst (code_field cd i)"
  shows "tab t (take_bit mb (drop_bit p s)) = 16 * i + cd ! i"
proof -
  have "take_bit mb (drop_bit p s) < 2 ^ mb" by (rule take_bit_nat_less_exp)
  moreover have "take_bit (cd ! i) (take_bit mb (drop_bit p s)) = take_bit (cd ! i) (drop_bit p s)"
    using assms(1,2) by (simp add: decodes_def min_absorb1)
  ultimately show ?thesis
    using assms unfolding decodes_def by metis
qed

text \<open>An entry of a table: the symbol and the length of its code.\<close>

lemma entry_parts:
  fixes i n :: nat
  assumes "n \<le> 15"
  shows "drop_bit 4 (16 * i + n) = i" and "(16 * i + n) AND 15 = n"
proof -
  have "(16 * i + n) AND 15 = take_bit 4 (16 * i + n)"
    using take_bit_eq_mask[of 4 "16 * i + n"] by (simp add: mask_eq_exp_minus_1)
  then show "(16 * i + n) AND 15 = n" "drop_bit 4 (16 * i + n) = i"
    using assms by (simp_all add: take_bit_eq_mod drop_bit_eq_div)
qed

section \<open>Copying\<close>

definition put :: "bytes \<Rightarrow> nat option \<Rightarrow> nat \<Rightarrow> bytes" where
  "put buf dt i = buf[i := (case dt of
     None \<Rightarrow> 0
   | Some d \<Rightarrow> if d \<le> i \<and> i - d < length buf then buf ! (i - d) else 0)]"

primrec puts :: "bytes \<Rightarrow> nat option \<Rightarrow> nat \<Rightarrow> nat \<Rightarrow> bytes" where
  "puts buf dt bt 0 = buf"
| "puts buf dt bt (Suc k) = put (puts buf dt bt k) dt (bt + k)"

lemma length_puts [simp]: "length (puts buf dt bt k) = length buf"
  by (induction k) (simp_all add: put_def)

lemma copy_back_puts:
  "copy_back buf bt e dt = (if bt < e then copy_back (puts buf dt bt 4) (bt + 4) e dt else buf)"
proof -
  have "puts buf dt bt 4 = put (put (put (put buf dt bt) dt (bt + 1)) dt (bt + 2)) dt (bt + 3)"
    by (simp add: numeral_eq_Suc)
  then show ?thesis
    by (subst copy_back.simps) (simp only: put_def Let_def)
qed

declare copy_back.simps [simp del]

lemma length_copy_back [simp]: "length (copy_back buf bt e dt) = length buf"
proof (induction "e - bt" arbitrary: buf bt rule: less_induct)
  case less
  show ?case
    by (subst copy_back_puts) (use less[of "bt + 4" "puts buf dt bt 4"] in simp)
qed

lemma puts_take:
  assumes "d \<le> bt" and "0 < d" and "m \<le> k" and "bt + m \<le> length buf"
  shows "take (bt + m) (puts buf (Some d) bt k) = lz_copy (take bt buf) d m"
  using assms(3,4)
proof (induction k arbitrary: m)
  case (Suc k)
  show ?case
  proof (cases "m = Suc k")
    case True
    let ?b = "puts buf (Some d) bt k"
    have IH: "take (bt + k) ?b = lz_copy (take bt buf) d k" using Suc.IH[of k] Suc.prems True by simp
    have l: "bt + k < length buf" using Suc.prems True by simp
    have "take (bt + m) (puts buf (Some d) bt (Suc k)) = take (bt + k) ?b @ [?b ! (bt + k - d)]"
    proof -
      have "bt + k - d < length buf" using l assms(1) by simp
      then have "puts buf (Some d) bt (Suc k) = ?b[bt + k := ?b ! (bt + k - d)]"
        using assms(1) by (simp add: put_def)
      then show ?thesis
        using l True by (simp add: take_Suc_conv_app_nth)
    qed
    moreover have "?b ! (bt + k - d) = take (bt + k) ?b ! (bt + k - d)"
      using assms(1,2) l by simp
    moreover have "length (lz_copy (take bt buf) d k) = bt + k" using l by simp
    ultimately show ?thesis unfolding True lz_copy_Suc IH by simp
  next
    case False
    then show ?thesis using Suc by (simp add: put_def take_update_cancel)
  qed
qed simp

lemma copy_back_lz:
  assumes "d \<le> bt" and "0 < d" and "bt + n \<le> length buf"
  shows "take (bt + n) (copy_back buf bt (bt + n) (Some d)) = lz_copy (take bt buf) d n"
  using assms
proof (induction n arbitrary: buf bt rule: less_induct)
  case (less n)
  consider "n = 0" | "0 < n" "n < 4" | "4 \<le> n" by linarith
  then show ?case
  proof cases
    case 1
    then show ?thesis by (simp add: copy_back_puts)
  next
    case 2
    then have "copy_back buf bt (bt + n) (Some d) = puts buf (Some d) bt 4"
      by (simp add: copy_back_puts[of buf] copy_back_puts[of _ "bt + 4"])
    then show ?thesis using puts_take[of d bt n 4 buf] less.prems 2 by simp
  next
    case 3
    have "copy_back buf bt (bt + n) (Some d) = copy_back (puts buf (Some d) bt 4) (bt + 4) (bt + 4 + (n - 4)) (Some d)"
      using 3 by (subst copy_back_puts) simp
    moreover have "take (bt + 4 + (n - 4)) (copy_back (puts buf (Some d) bt 4) (bt + 4) (bt + 4 + (n - 4)) (Some d))
        = lz_copy (take (bt + 4) (puts buf (Some d) bt 4)) d (n - 4)"
      using 3 less.prems by (intro less.IH) simp_all
    moreover have "take (bt + 4) (puts buf (Some d) bt 4) = lz_copy (take bt buf) d 4"
      using 3 less.prems by (intro puts_take) simp_all
    ultimately show ?thesis
      using 3 lz_copy_add[of "take bt buf" d 4 "n - 4"] by simp
  qed
qed

end
