(* ===== verification/Inflate_Correct.thy ===== *)
theory Inflate_Correct
  imports Inflate_Reads
begin

text \<open>
  The inflate routine reads the DEFLATE format: what the writer of \<^verbatim>\<open>Deflate_Format\<close> puts out is read
  back by \<open>inflt\<close>, for stored blocks, for the fixed codes and for codes of a block's own, and by
  \<open>decompressSync\<close> in each container.
\<close>

section \<open>The buffer\<close>

lemma grown_facts:
  "length buf \<le> length (grown noBuf buf l)" "noBuf \<Longrightarrow> l \<le> length (grown noBuf buf l)"
  "m \<le> length buf \<Longrightarrow> take m (grown noBuf buf l) = take m buf" "\<not> noBuf \<Longrightarrow> grown noBuf buf l = buf"
  by (auto simp: grown_def cbuf_def)

text \<open>
  A buffer of the routine itself grows by \<open>131072\<close> bytes at the start of a block and at each match, not
  for a literal: the literals in a row are bounded.
\<close>

fun literal_run :: "nat \<Rightarrow> item list \<Rightarrow> bool" where
  "literal_run k [] \<longleftrightarrow> True"
| "literal_run k (Lit b # is) \<longleftrightarrow> 0 < k \<and> literal_run (k - 1) is"
| "literal_run k (Ref s e t f # is) \<longleftrightarrow> literal_run (131072 - ref_length (Ref s e t f)) is"

lemma literal_run_mono: "literal_run k is \<Longrightarrow> k \<le> l \<Longrightarrow> literal_run l is"
proof (induction k "is" arbitrary: l rule: literal_run.induct)
  case (2 k b "is")
  then show ?case using diff_le_mono[of k l 1] by auto
qed auto

definition fits :: "bool \<Rightarrow> bytes \<Rightarrow> bytes \<Rightarrow> item list \<Rightarrow> bool" where
  "fits noBuf buf out is \<longleftrightarrow>
     length (expand out is) \<le> length buf \<or> noBuf \<and> literal_run (length buf - length out) is"

text \<open>The buffer starts with what was put out so far.\<close>

definition holds :: "bytes \<Rightarrow> bytes \<Rightarrow> bool" where
  "holds buf out \<longleftrightarrow> take (length out) buf = out"

lemma holds_length: "holds buf out \<Longrightarrow> length out \<le> length buf"
  unfolding holds_def by (metis length_take min.cobounded1)

lemma holds_grown: "holds buf out \<Longrightarrow> holds (grown noBuf buf l) out"
  using holds_length[of buf out] by (simp add: holds_def grown_facts)

lemma holds_put: "holds buf out \<Longrightarrow> length out < length buf \<Longrightarrow> holds (buf[length out := b]) (out @ [b])"
  by (simp add: holds_def take_Suc_conv_app_nth)

section \<open>A match\<close>

lemma read_length:
  assumes "s < 29" and "e < 2 ^ (length_extra ! s)" and "take_bit (length_extra ! s) (drop_bit p (stream dat)) = e"
  shows "(if 257 + s > 264 then (bits dat p (2 ^ tab fleb (257 + s - 257) - 1) + tab fl_base (257 + s - 257),
        p + tab fleb (257 + s - 257)) else (257 + s - 254, p))
      = (length_base ! s + e, p + length_extra ! s)"
proof (cases "s \<le> 7")
  case True
  then show ?thesis using assms(2) short_lengths[OF True] by simp
next
  case False
  have "bits dat p (2 ^ (length_extra ! s) - 1) = e"
    using assms(3) length_tables(1)[OF assms(1)] by (subst bits_stream) simp_all
  then show ?thesis using False assms(1) by (simp add: table_entries)
qed

lemma read_dist:
  assumes "t < 30" and "f < 2 ^ (dist_extra ! t)" and "take_bit (dist_extra ! t) (drop_bit p (stream dat)) = f"
  shows "(if t > 3 then (map_option (\<lambda>x. x + (bits16 dat p AND (2 ^ tab fdeb t - 1)))
        (if t < length fd_base then Some (fd_base ! t) else None), p + tab fdeb t)
      else (if t < length fd_base then Some (fd_base ! t) else None, p))
      = (Some (ref_dist t f), p + dist_extra ! t)"
proof (cases "t \<le> 3")
  case True
  then show ?thesis using assms(1,2) dist_tables(3)[OF assms(1)] by (simp add: table_entries ref_dist_def)
next
  case False
  have "bits16 dat p AND (2 ^ (dist_extra ! t) - 1) = f"
    using assms(3) dist_tables(1)[OF assms(1)] by (subst bits16_stream) simp_all
  then show ?thesis using False assms(1) by (simp add: table_entries ref_dist_def)
qed

lemma read_match_ok:
  assumes ok: "item_ok lt dt (length out) (Ref s e t f)" and dm: "decodes dt dm dbt"
    and fs: "has_fields (stream dat) p [(e, length_extra ! s), code_field dt t, (f, dist_extra ! t)]"
    and w: "p + length_extra ! s + dt ! t + dist_extra ! t \<le> 8 * length dat"
    and h: "holds buf out" and r: "length out + ref_length (Ref s e t f) \<le> length (grown noBuf buf (length out + 131072))"
  shows "\<exists>buf'. read_match dat [] noBuf dm dbt (257 + s) p (length out) buf
      = Inr (p + length_extra ! s + dt ! t + dist_extra ! t, length (expand_item out (Ref s e t f)), buf')
    \<and> holds buf' (expand_item out (Ref s e t f)) \<and> length buf' = length (grown noBuf buf (length out + 131072))"
proof -
  let ?add = "length_base ! s + e" and ?d = "ref_dist t f" and ?g = "grown noBuf buf (length out + 131072)"
  let ?p = "p + length_extra ! s"
  have s: "s < 29" "e < 2 ^ (length_extra ! s)" and t: "t < 30" "has_code dt t" "f < 2 ^ (dist_extra ! t)"
    and d: "?d \<le> length out" using ok by simp_all
  have f: "take_bit (length_extra ! s) (drop_bit p (stream dat)) = e"
    "take_bit (dt ! t) (drop_bit ?p (stream dat)) = fst (code_field dt t)"
    "take_bit (dist_extra ! t) (drop_bit (?p + dt ! t) (stream dat)) = f"
    using fs by (simp_all add: code_field_def)
  have m: "dbt \<le> 15" "dt ! t \<le> dbt" using dm t(2) by (auto simp: decodes_def)
  have c: "tab dm (bits16 dat ?p AND (2 ^ dbt - 1)) = 16 * t + dt ! t"
    using m(1) read_symbol[OF dm t(2) f(2)] by (subst bits16_stream) simp_all
  have c0: "16 * t + dt ! t \<noteq> 0" "dt ! t \<noteq> 0" using t(2) by (simp_all add: has_code_def)
  have e: "drop_bit 4 (16 * t + dt ! t) = t" "(16 * t + dt ! t) AND 15 = dt ! t"
    using m by (intro entry_parts; simp)+
  have d0: "0 < ?d" using dist_tables(2)[OF t(1)] by (simp add: ref_dist_def)
  have "read_match dat [] noBuf dm dbt (257 + s) p (length out) buf
      = Inr (?p + dt ! t + dist_extra ! t, length out + ?add, copy_back ?g (length out) (length out + ?add) (Some ?d))"
    unfolding read_match_def Let_def read_length[OF s f(1)] prod.case c e read_dist[OF t(1,3) f(3)] if_not_P[OF c0(1)]
    using w d by (simp add: copy_match_def Let_def)
  moreover have "take (length out + ?add) (copy_back ?g (length out) (length out + ?add) (Some ?d))
      = lz_copy (take (length out) ?g) ?d ?add"
    using r d d0 by (intro copy_back_lz) simp_all
  then have "holds (copy_back ?g (length out) (length out + ?add) (Some ?d)) (expand_item out (Ref s e t f))"
    using holds_grown[OF h] by (simp add: holds_def)
  ultimately show ?thesis
    by (intro exI[of _ "copy_back ?g (length out) (length out + ?add) (Some ?d)"]) simp
qed

section \<open>The items of a block\<close>

lemma snd_code_field [simp]: "snd (code_field cd i) = cd ! i"
  by (simp add: code_field_def)

lemma symbols_symbol:
  assumes "decodes lt lm lbt" and "has_code lt i" and "has_fields (stream dat) p (code_field lt i # fs)"
    and "p + lt ! i \<le> 8 * length dat"
  shows "symbols dat dict noBuf lm dm lbt dbt p bt buf =
    (if i < 256 then symbols dat dict noBuf lm dm lbt dbt (p + lt ! i) (bt + 1) (buf[bt := of_nat i])
     else if i = 256 then Some (Inr (p + lt ! i, bt, buf))
     else (case read_match dat dict noBuf dm dbt i (p + lt ! i) bt buf of
         Inl e \<Rightarrow> Some (Inl e)
       | Inr (pos, bt, buf) \<Rightarrow> symbols dat dict noBuf lm dm lbt dbt pos bt buf))"
proof -
  have m: "lbt \<le> 15" "lt ! i \<le> lbt" using assms(1,2) by (auto simp: decodes_def)
  have "take_bit (lt ! i) (drop_bit p (stream dat)) = fst (code_field lt i)"
    using assms(3) by (simp add: code_field_def)
  then have c: "tab lm (bits16 dat p AND (2 ^ lbt - 1)) = 16 * i + lt ! i"
    using m(1) read_symbol[OF assms(1,2)] by (subst bits16_stream) simp_all
  have e: "drop_bit 4 (16 * i + lt ! i) = i" "(16 * i + lt ! i) AND 15 = lt ! i"
    using m by (intro entry_parts; simp)+
  have n: "16 * i + lt ! i \<noteq> 0" "\<not> p + lt ! i > length dat * 8"
    using assms(2,4) by (simp_all add: has_code_def)
  show ?thesis
    by (subst symbols.simps) (simp only: Let_def c e n if_False)
qed

text \<open>One item: its symbol, and the match when it is a reference.\<close>

lemma fits_ref:
  assumes "fits noBuf buf out (Ref s e t f # is)" and "s < 29" and "e < 2 ^ (length_extra ! s)"
    and "length buf1 = length (grown noBuf buf (length out + 131072))"
  shows "length out + ref_length (Ref s e t f) \<le> length buf1" and "fits noBuf buf1 (expand_item out (Ref s e t f)) is"
proof -
  let ?i = "Ref s e t f"
  have l: "ref_length ?i \<le> 258" using length_tables(3)[OF assms(2,3)] by simp
  show "length out + ref_length ?i \<le> length buf1"
  proof (cases noBuf)
    case True
    then show ?thesis using l grown_facts(2)[of noBuf "length out + 131072" buf] assms(4) by simp
  next
    case False
    then show ?thesis
      using assms(1,4) length_expand_mono[of "expand_item out ?i" "is"]
      by (simp add: fits_def grown_facts)
  qed
  have "literal_run (length buf1 - length (expand_item out ?i)) is" if "noBuf" "literal_run (length buf - length out) (?i # is)"
    using that grown_facts(2)[of noBuf "length out + 131072" buf]
    by (auto simp: assms(4) intro: literal_run_mono)
  then show "fits noBuf buf1 (expand_item out ?i) is"
    using assms(1,4) grown_facts(1)[of buf noBuf "length out + 131072"] by (auto simp: fits_def)
qed

lemma symbols_item:
  assumes "decodes lt lm lbt" and "decodes dt dm dbt"
    and "item_ok lt dt (length out) i" and "has_fields (stream dat) p (item_fields lt dt i @ fs)"
    and "p + width (item_fields lt dt i) \<le> 8 * length dat"
    and "holds buf out" and "fits noBuf buf out (i # is)"
  shows "\<exists>buf1. symbols dat [] noBuf lm dm lbt dbt p (length out) buf
      = symbols dat [] noBuf lm dm lbt dbt (p + width (item_fields lt dt i)) (length (expand_item out i)) buf1
    \<and> holds buf1 (expand_item out i) \<and> fits noBuf buf1 (expand_item out i) is
    \<and> length buf \<le> length buf1 \<and> (\<not> noBuf \<longrightarrow> length buf1 = length buf)"
proof (cases i)
  case (Lit b)
  have "has_code lt (unat b)" "has_fields (stream dat) p (code_field lt (unat b) # fs)" "p + lt ! unat b \<le> 8 * length dat"
    using assms Lit by simp_all
  note r = symbols_symbol[OF assms(1) this]
  have room: "length out < length buf"
    using assms(7) length_expand_mono[of "out @ [b]" "is"] by (auto simp: fits_def Lit)
  then have "symbols dat [] noBuf lm dm lbt dbt p (length out) buf
      = symbols dat [] noBuf lm dm lbt dbt (p + lt ! unat b) (length (out @ [b])) (buf[length out := b])"
    using unat_byte[of b] by (simp add: r)
  moreover have "fits noBuf (buf[length out := b]) (out @ [b]) is"
    using assms(7) room by (auto simp: fits_def Lit)
  ultimately show ?thesis
    using holds_put[OF assms(6) room, of b] by (intro exI[of _ "buf[length out := b]"]) (simp add: Lit)
next
  case (Ref s e t f)
  let ?i = "Ref s e t f" and ?g = "grown noBuf buf (length out + 131072)"
  have fs: "has_fields (stream dat) p (code_field lt (257 + s)
      # [(e, length_extra ! s), code_field dt t, (f, dist_extra ! t)] @ fs)"
    and hc: "has_code lt (257 + s)" and ok: "item_ok lt dt (length out) ?i" "s < 29" "e < 2 ^ (length_extra ! s)"
    using assms Ref by simp_all
  have w: "p + lt ! (257 + s) \<le> 8 * length dat" using assms(5) Ref by simp
  note r = symbols_symbol[OF assms(1) hc fs w]
  note room = fits_ref[OF assms(7)[unfolded Ref] ok(2,3)]
  obtain buf1 where b: "read_match dat [] noBuf dm dbt (257 + s) (p + lt ! (257 + s)) (length out) buf
      = Inr (p + lt ! (257 + s) + length_extra ! s + dt ! t + dist_extra ! t, length (expand_item out ?i), buf1)"
    and h: "holds buf1 (expand_item out ?i)" and lb: "length buf1 = length ?g"
    using read_match_ok[OF ok(1) assms(2), of dat "p + lt ! (257 + s)" buf noBuf] fs assms(4-6) room(1)[OF refl] Ref
    by (auto simp: add.assoc)
  from r b h room(2)[OF lb] lb grown_facts(1)[of buf noBuf "length out + 131072"]
    grown_facts(4)[of noBuf buf "length out + 131072"]
  show ?thesis by (intro exI[of _ buf1]) (simp add: Ref add.assoc)
qed

lemma symbols_items:
  assumes "decodes lt lm lbt" and "decodes dt dm dbt" and "has_code lt 256"
    and "items_ok lt dt (length out) is" and "has_fields (stream dat) p (items_fields lt dt is)"
    and "p + width (items_fields lt dt is) \<le> 8 * length dat"
    and "holds buf out" and "fits noBuf buf out is"
  shows "\<exists>buf'. symbols dat [] noBuf lm dm lbt dbt p (length out) buf
      = Some (Inr (p + width (items_fields lt dt is), length (expand out is), buf'))
    \<and> holds buf' (expand out is) \<and> length buf \<le> length buf' \<and> (\<not> noBuf \<longrightarrow> length buf' = length buf)"
  using assms(4-8)
proof (induction "is" arbitrary: out p buf)
  case Nil
  have f: "has_fields (stream dat) p (code_field lt 256 # [])" and w: "p + lt ! 256 \<le> 8 * length dat"
    using Nil by simp_all
  show ?case using Nil by (simp add: symbols_symbol[OF assms(1,3) f w])
next
  case (Cons i "is")
  have p: "item_ok lt dt (length out) i" "has_fields (stream dat) p (item_fields lt dt i @ items_fields lt dt is)"
    "p + width (item_fields lt dt i) \<le> 8 * length dat"
    using Cons.prems(1-3) by simp_all
  obtain buf1 where 1: "symbols dat [] noBuf lm dm lbt dbt p (length out) buf
      = symbols dat [] noBuf lm dm lbt dbt (p + width (item_fields lt dt i)) (length (expand_item out i)) buf1"
    "holds buf1 (expand_item out i)" "fits noBuf buf1 (expand_item out i) is"
    "length buf \<le> length buf1" "\<not> noBuf \<Longrightarrow> length buf1 = length buf"
    using symbols_item[OF assms(1,2) p Cons.prems(4,5)] by blast
  have "items_ok lt dt (length (expand_item out i)) is"
    "has_fields (stream dat) (p + width (item_fields lt dt i)) (items_fields lt dt is)"
    "p + width (item_fields lt dt i) + width (items_fields lt dt is) \<le> 8 * length dat"
    using Cons.prems(1-3) by (cases i; simp add: add.assoc)+
  from Cons.IH[OF this 1(2,3)] 1(1,4,5) show ?case by (auto simp: add.assoc)
qed

end
