(* ===== verification/Inflate_Blocks.thy ===== *)
theory Inflate_Blocks
  imports Inflate_Correct
begin

text \<open>
  The codes of a block, the three kinds of blocks, and whole streams.
\<close>

section \<open>The lengths of the codes\<close>

lemma fill_take:
  "i + n \<le> length l \<Longrightarrow> take (i + n) (foldl (\<lambda>l j. l[j := c]) l [i..<i + n]) = take i l @ replicate n c"
  "length (foldl (\<lambda>l j. l[j := c]) l [i..<i + n]) = length l"
proof (induction n)
  case (Suc n)
  {
    case 1
    then show ?case
      using Suc by (simp add: take_Suc_conv_app_nth replicate_append_same)
  next
    case 2
    then show ?case using Suc by simp
  }
qed simp_all

lemma length_expand_run: "run_ok ls r \<Longrightarrow> length ls < length (expand_run ls r)"
  by (cases r) simp_all

lemma length_expand_runs: "runs_ok ct ls rs \<Longrightarrow> length ls \<le> length (foldl expand_run ls rs)"
proof (induction rs arbitrary: ls)
  case (Cons r rs)
  then have "length ls < length (expand_run ls r)"
    "length (expand_run ls r) \<le> length (foldl expand_run (expand_run ls r) rs)"
    by (simp_all add: length_expand_run)
  then show ?case by simp
qed simp

lemma bits_field:
  "take_bit n (drop_bit p (stream dat)) = v \<Longrightarrow> n \<le> 9 \<Longrightarrow> bits dat p (2 ^ n - 1) = v"
  by (subst bits_stream) simp_all

text \<open>A run of lengths: what the loop reads for it.\<close>

lemma run_read:
  assumes "has_fields (stream dat) p (run_extra r)" and "run_ok ls r" and "run_symbol r \<ge> 16"
    and "take (length ls) ldt = ls" and "length ls \<le> length ldt"
  shows "(if run_symbol r = 16
      then (if length ls = 0 then 0 else tab ldt (length ls - 1), 3 + bits dat p 3, p + 2)
      else if run_symbol r = 17 then (0, 3 + bits dat p 7, p + 3)
      else if run_symbol r = 18 then (0, 11 + bits dat p 127, p + 7) else (0, 0, p))
    = (if run_symbol r = 16 then last ls else 0, length (expand_run ls r) - length ls, p + width (run_extra r))"
proof (cases r)
  case (Repeat n)
  have "bits dat p (2 ^ 2 - 1) = n - 3" using assms(1) Repeat by (intro bits_field) simp_all
  moreover have "tab ldt (length ls - 1) = last ls"
  proof -
    have "length ls - 1 < length ls" using assms(2) Repeat by simp
    then have "ldt ! (length ls - 1) = take (length ls) ldt ! (length ls - 1)" by simp
    also have "\<dots> = last ls" using assms(2,4) Repeat by (simp add: last_conv_nth)
    finally show ?thesis using assms(5) \<open>length ls - 1 < length ls\<close> by (simp add: tab_def)
  qed
  ultimately show ?thesis using assms(2) Repeat by simp
next
  case (Zeros n)
  have "bits dat p (2 ^ 3 - 1) = n - 3" using assms(1) Zeros by (intro bits_field) simp_all
  then show ?thesis using assms(2) Zeros by simp
next
  case (Many_zeros n)
  have "bits dat p (2 ^ 7 - 1) = n - 11" using assms(1) Many_zeros by (intro bits_field) simp_all
  then show ?thesis using assms(2) Many_zeros by simp
next
  case (Len n)
  then show ?thesis using assms(2,3) by simp
qed

lemma expand_run_replicate:
  "run_symbol r \<ge> 16 \<Longrightarrow> run_ok ls r \<Longrightarrow>
    expand_run ls r = ls @ replicate (length (expand_run ls r) - length ls) (if run_symbol r = 16 then last ls else 0)"
  by (cases r) simp_all

text \<open>One round of the loop, on the code of a symbol.\<close>

lemma code_lengths_step:
  assumes "decodes ct clm clb" and "clb \<le> 7" and "has_code ct u" and "l < hm"
    and "take_bit (ct ! u) (drop_bit p (stream dat)) = fst (code_field ct u)"
  shows "code_lengths dat clm (2 ^ clb - 1) hm l ldt p =
    (if u < 16 then code_lengths dat clm (2 ^ clb - 1) hm (l + 1) (ldt[l := u]) (p + ct ! u)
     else
       let (c, n, pos) =
         (if u = 16 then (if l = 0 then 0 else tab ldt (l - 1), 3 + bits dat (p + ct ! u) 3, p + ct ! u + 2)
          else if u = 17 then (0, 3 + bits dat (p + ct ! u) 7, p + ct ! u + 3)
          else if u = 18 then (0, 11 + bits dat (p + ct ! u) 127, p + ct ! u + 7)
          else (0, 0, p + ct ! u))
       in code_lengths dat clm (2 ^ clb - 1) hm (l + n) (foldl (\<lambda>l j. l[j := c]) ldt [l..<l + n]) pos)"
proof -
  have c: "tab clm (bits dat p (2 ^ clb - 1)) = 16 * u + ct ! u"
    using read_symbol[OF assms(1,3,5)] assms(2) by (subst bits_stream) simp_all
  have "ct ! u \<le> 15" using assms(1,3) by (auto simp: decodes_def intro: le_trans)
  from entry_parts[OF this, of u] show ?thesis
    by (subst code_lengths.simps) (simp only: Let_def c assms(4) if_True)
qed

lemma code_lengths_runs:
  assumes "decodes ct clm clb" and "clb \<le> 7"
    and "runs_ok ct ls rs" and "has_fields (stream dat) p (runs_fields ct rs)"
    and "length ldt = length (foldl expand_run ls rs)" and "take (length ls) ldt = ls"
  shows "code_lengths dat clm (2 ^ clb - 1) (length ldt) (length ls) ldt p
    = Some (foldl expand_run ls rs, p + width (runs_fields ct rs))"
  using assms(3-6)
proof (induction rs arbitrary: ls p ldt)
  case Nil
  then show ?case by (subst code_lengths.simps) simp
next
  case (Cons r rs)
  let ?s = "run_symbol r" and ?p = "p + ct ! run_symbol r"
  have r: "run_ok ls r" "has_code ct ?s" "runs_ok ct (expand_run ls r) rs"
    and f: "take_bit (ct ! ?s) (drop_bit p (stream dat)) = fst (code_field ct ?s)"
      "has_fields (stream dat) ?p (run_extra r)"
      "has_fields (stream dat) (?p + width (run_extra r)) (runs_fields ct rs)"
    using Cons.prems by (simp_all add: add.assoc)
  have i: "length (expand_run ls r) \<le> length ldt"
    using length_expand_runs[OF r(3)] Cons.prems(3) by simp
  have l: "length ls < length ldt" using i length_expand_run[OF r(1)] by simp
  note step = code_lengths_step[OF assms(1,2) r(2) l f(1), of ldt]
  have IH: "code_lengths dat clm (2 ^ clb - 1) (length ldt') (length (expand_run ls r)) ldt' (?p + width (run_extra r))
      = Some (foldl expand_run ls (r # rs), p + width (runs_fields ct (r # rs)))"
    if "length ldt' = length ldt" "take (length (expand_run ls r)) ldt' = expand_run ls r" for ldt'
    using Cons.IH[OF r(3) f(3), of ldt'] that Cons.prems(3) by (simp add: add.assoc)
  show ?case
  proof (cases "?s < 16")
    case True
    then obtain n where n: "r = Len n" by (cases r) simp_all
    have "take (Suc (length ls)) (ldt[length ls := n]) = ls @ [n]"
      using l Cons.prems(4) by (simp add: take_Suc_conv_app_nth)
    then show ?thesis
      using True IH[of "ldt[length ls := n]"] n unfolding step by simp
  next
    case False
    let ?n = "length (expand_run ls r) - length ls" and ?c = "if ?s = 16 then last ls else 0"
    let ?ldt = "foldl (\<lambda>l j. l[j := ?c]) ldt [length ls..<length ls + ?n]"
    have n: "length ls + ?n = length (expand_run ls r)" using length_expand_run[OF r(1)] by simp
    have "take (length ls + ?n) ?ldt = expand_run ls r"
      using fill_take(1)[of "length ls" ?n ldt ?c] i n Cons.prems(4) expand_run_replicate[of r ls] False r(1) by simp
    then have "code_lengths dat clm (2 ^ clb - 1) (length ldt) (length ls + ?n) ?ldt (?p + width (run_extra r))
      = Some (foldl expand_run ls (r # rs), p + width (runs_fields ct (r # rs)))"
      using IH[of ?ldt] fill_take(2)[of ?c ldt "length ls" ?n] n by simp
    moreover have "16 \<le> ?s" using False by simp
    note rr = run_read[OF f(2) r(1) this Cons.prems(4) less_imp_le[OF l]]
    ultimately show ?thesis
      using False unfolding step by (simp only: rr Let_def prod.case if_False)
  qed
qed

section \<open>The codes of a block\<close>

lemma three_bit_fields:
  "has_fields s p (map (\<lambda>k. (v k, 3)) [0..<n]) \<longleftrightarrow> (\<forall>k < n. take_bit 3 (drop_bit (p + k * 3) s) = v k)"
  "width (map (\<lambda>k. (v k, 3)) [0..<n]) = n * 3"
proof (induction n)
  case (Suc n)
  {
    case 1
    show ?case using Suc by (auto simp: less_Suc_eq mult.commute)
  next
    case 2
    show ?case using Suc by simp
  }
qed simp_all

lemma code_order_set: "set code_order = {..<19}"
proof -
  have "set code_order = set [0..<19]" by code_simp
  then show ?thesis by (simp add: atLeast0LessThan)
qed

lemma code_order_distinct: "distinct code_order" and code_order_length: "length code_order = 19"
  by (simp_all add: code_order_def)

text \<open>The lengths of the code of the runs, read in their order.\<close>

lemma run_code_read:
  assumes "length rc = 19" and "n \<le> 19" and "\<forall>k < n. v k = rc ! (code_order ! k)"
    and "\<forall>k. n \<le> k \<longrightarrow> k < 19 \<longrightarrow> rc ! (code_order ! k) = 0"
  shows "foldl (\<lambda>clt k. clt[tab code_order k := v k]) (replicate 19 0) [0..<n] = rc"
proof -
  let ?f = "\<lambda>m. foldl (\<lambda>clt k. clt[tab code_order k := v k]) (replicate 19 0) [0..<m]"
  have i: "length (?f m) = 19 \<and> (\<forall>k < 19. ?f m ! (code_order ! k) = (if k < m then v k else 0))" if "m \<le> n" for m
    using that
  proof (induction m)
    case 0
    show ?case using code_order_less by simp
  next
    case (Suc m)
    have m: "m < 19" "m < length code_order" using Suc.prems assms(2) by (simp_all add: code_order_length)
    define old where "old = ?f m"
    have new: "?f (Suc m) = old[code_order ! m := v m]" using m by (simp add: old_def tab_def)
    have IH: "length old = 19" "\<And>k. k < 19 \<Longrightarrow> old ! (code_order ! k) = (if k < m then v k else 0)"
      using Suc unfolding old_def by simp_all
    have "old[code_order ! m := v m] ! (code_order ! k) = (if k < Suc m then v k else 0)" if k: "k < 19" for k
    proof (cases "k = m")
      case False
      then have "code_order ! m \<noteq> code_order ! k"
        using nth_eq_iff_index_eq[OF code_order_distinct] k m by (simp add: code_order_length)
      then show ?thesis using IH(2)[OF k] False by (simp add: less_Suc_eq)
    qed (use IH(1) code_order_less[OF m(1)] in simp)
    then show ?case unfolding new using IH(1) by simp
  qed
  have "?f n ! x = rc ! x" if x: "x < 19" for x
  proof -
    obtain k where "k < 19" "x = code_order ! k"
    proof -
      have "x \<in> set code_order" using x by (simp add: code_order_set)
      then show thesis using that by (auto simp: in_set_conv_nth code_order_length)
    qed
    then show ?thesis using i[of n] assms(3,4) by simp
  qed
  then show ?thesis using i[of n] assms(1) by (intro nth_equalityI) simp_all
qed

lemma own_tables_ok:
  assumes ok: "codes_ok c" and fs: "has_fields (stream dat) p (codes_fields c)"
  shows "\<exists>lm dm lbt dbt. own_tables dat p = Some (lm, dm, lbt, dbt, p + width (codes_fields c))
    \<and> decodes (lit_code c) lm lbt \<and> decodes (dist_code c) dm dbt"
proof -
  let ?rc = "run_code c" and ?cl = "code_list c"
  have c: "257 \<le> literals c" "literals c \<le> 288" "literals c < length ?cl" "length ?cl \<le> literals c + 32"
    "4 \<le> written c" "written c \<le> 19" "length ?rc = 19" "\<forall>n \<in> set ?rc. n \<le> 7" "code_ok ?rc"
    "runs_ok ?rc [] (runs c)" "code_ok (lit_code c)" "code_ok (dist_code c)"
    and z': "\<forall>k \<in> set [written c..<19]. ?rc ! (code_order ! k) = 0"
    using ok unfolding codes_ok_def list_all_iff by blast+
  have z: "\<forall>k. written c \<le> k \<longrightarrow> k < 19 \<longrightarrow> ?rc ! (code_order ! k) = 0" using z' by auto
  have f: "take_bit 5 (drop_bit p (stream dat)) = literals c - 257"
    "take_bit 5 (drop_bit (p + 5) (stream dat)) = length ?cl - literals c - 1"
    "take_bit 4 (drop_bit (p + 10) (stream dat)) = written c - 4"
    "\<forall>k < written c. take_bit 3 (drop_bit (p + 14 + k * 3) (stream dat)) = ?rc ! (code_order ! k)"
    "has_fields (stream dat) (p + 14 + written c * 3) (runs_fields ?rc (runs c))"
    using fs by (simp_all add: codes_fields_def three_bit_fields add.assoc)
  have b: "bits dat p (2 ^ 5 - 1) = literals c - 257" "bits dat (p + 5) (2 ^ 5 - 1) = length ?cl - literals c - 1"
    "bits dat (p + 10) (2 ^ 4 - 1) = written c - 4"
    using f(1-3) by (intro bits_field; simp)+
  have "bits dat (p + 14 + k * 3) (2 ^ 3 - 1) = ?rc ! (code_order ! k)" if "k < written c" for k
    using f(4) that by (intro bits_field) simp_all
  then have clt: "foldl (\<lambda>clt k. clt[tab clim k := bits dat (p + 14 + k * 3) 7]) (replicate 19 0) [0..<written c] = ?rc"
    unfolding fixed_codes using c(6,7) z by (intro run_code_read) simp_all
  have n: "bits dat p 31 + 257 = literals c" "bits dat (p + 10) 15 + 4 = written c"
    "literals c + bits dat (p + 5) 31 + 1 = length ?cl"
    using b c(1,3,5) by simp_all
  have clb: "decodes ?rc (hMap ?rc (max_of ?rc) True) (max_of ?rc)" "max_of ?rc \<le> 7"
    using c(7,8,9) by (auto intro: decodes_max max_of_le)
  have "code_lengths dat (hMap ?rc (max_of ?rc) True) (2 ^ max_of ?rc - 1) (length (replicate (length ?cl) (0 :: nat)))
      (length ([] :: nat list)) (replicate (length ?cl) 0) (p + 14 + written c * 3)
    = Some (foldl expand_run [] (runs c), p + 14 + written c * 3 + width (runs_fields ?rc (runs c)))"
    using c(10) f(5) clb by (intro code_lengths_runs) (simp_all add: code_list_def)
  then have "own_tables dat p = Some (hMap (lit_code c) (max_of (lit_code c)) True,
      hMap (dist_code c) (max_of (dist_code c)) True, max_of (lit_code c), max_of (dist_code c),
      p + width (codes_fields c))"
    unfolding own_tables_def Let_def n clt
    by (simp add: codes_fields_def lit_code_def dist_code_def three_bit_fields add.assoc flip: code_list_def)
  moreover have "lit_code c \<noteq> []" "dist_code c \<noteq> []" using c(1,3) by (auto simp: lit_code_def dist_code_def)
  ultimately show ?thesis using c(11,12) decodes_max by blast
qed

section \<open>Stored blocks\<close>

lemma bytes_fields:
  assumes "has_fields (stream dat) (8 * j) (map (\<lambda>b. (unat b, 8)) d)" and "j + length d \<le> length dat"
  shows "take (length d) (drop j dat) = d"
  using assms
proof (induction d arbitrary: j)
  case (Cons b d)
  have j: "j < length dat" using Cons.prems(2) by simp
  have "take_bit 8 (stream (drop j dat)) = unat b"
    using Cons.prems(1) drop_stream[of j dat] by simp
  moreover have "drop j dat = dat ! j # drop (Suc j) dat" using j by (rule Cons_nth_drop_Suc[symmetric])
  ultimately have "unat (dat ! j) = unat b"
    using unat_byte[of "dat ! j"] by (simp add: take_bit_eq_mod)
  then have "dat ! j = b" by (simp add: unsigned_word_eqI)
  moreover have "take (length d) (drop (Suc j) dat) = d"
    using Cons.prems by (intro Cons.IH) (simp_all add: add.commute)
  ultimately show ?case using j by (simp add: Cons_nth_drop_Suc[symmetric])
qed simp

lemma width_bytes: "width (map (\<lambda>b. (unat b, 8)) d) = 8 * length d"
  by (induction d) simp_all

text \<open>The place of a stored block: the length, its complement, and the data.\<close>

lemma stored_place:
  fixes p :: nat
  shows "p + 3 + (8 * ((p + 10) div 8) - (p + 3)) = 8 * ((p + 10) div 8)"
  by simp

lemma stored_ok:
  assumes fs: "has_fields (stream dat) p (block_fields p fin (Plain d))" and len: "length d < 2 ^ 16"
    and w: "p + width (block_fields p fin (Plain d)) \<le> 8 * length dat"
    and h: "holds buf out" and room: "noBuf \<or> length out + length d \<le> length buf"
  shows "\<exists>buf'. stored dat noBuf (p + 3) (length out) buf
      = Inr (p + width (block_fields p fin (Plain d)), length (out @ d), buf')
    \<and> holds buf' (out @ d) \<and> length buf \<le> length buf' \<and> (\<not> noBuf \<longrightarrow> length buf' = length buf)"
proof -
  define k where "k = (p + 10) div 8"
  have k: "p + 3 + (8 * k - (p + 3)) = 8 * k" unfolding k_def by (rule stored_place)
  have p: "p + 1 + 2 + (8 * k - (p + 3)) = 8 * k" "8 * k + 16 + 16 = 8 * (k + 4)" using k by simp_all
  have f: "take_bit 16 (drop_bit (8 * k) (stream dat)) = length d"
    "has_fields (stream dat) (8 * (k + 4)) (map (\<lambda>b. (unat b, 8)) d)"
    using fs by (simp_all only: block_fields.simps k_def[symmetric] append_Cons append_Nil has_fields.simps
        fst_conv snd_conv p)
  have pw: "p + width (block_fields p fin (Plain d)) = 8 * (k + 4 + length d)"
    using k by (simp add: width_bytes flip: k_def)
  have t: "k + 4 + length d \<le> length dat" using w unfolding pw by simp
  have l: "byte_at dat k OR push_bit 8 (byte_at dat (k + 1)) = length d"
    using f(1) stream_two[of "drop k dat"] byte_at_drop[of dat k 0] byte_at_drop[of dat k 1] drop_stream[of k dat]
    by simp
  let ?g = "grown noBuf buf (length out + length d)"
  have g: "length out + length d \<le> length ?g"
    using room grown_facts(1)[of buf noBuf "length out + length d"] grown_facts(2)[of noBuf "length out + length d" buf]
    by (cases noBuf) simp_all
  have s: "shft (p + 3) = k" by (simp add: shft_def k_def)
  have r: "stored dat noBuf (p + 3) (length out) buf
    = Inr (p + width (block_fields p fin (Plain d)), length (out @ d),
        take (length out) ?g @ d @ drop (length out + length d) ?g)"
    unfolding stored_def Let_def s pw using l t g bytes_fields[OF f(2)] by simp
  moreover have "holds (take (length out) ?g @ d @ drop (length out + length d) ?g) (out @ d)"
    using holds_grown[OF h] by (simp add: holds_def)
  moreover have "length (take (length out) ?g @ d @ drop (length out + length d) ?g) = length ?g" using g by simp
  ultimately show ?thesis
    using grown_facts(1)[of buf noBuf "length out + length d"] grown_facts(4)[of noBuf buf "length out + length d"]
    by metis
qed

section \<open>Blocks\<close>

text \<open>The literals in a row that a buffer of the routine's own has room for.\<close>

fun block_runs :: "block \<Rightarrow> bool" where
  "block_runs (Plain d) \<longleftrightarrow> True"
| "block_runs (Fixed is) \<longleftrightarrow> literal_run 131072 is"
| "block_runs (Own c is) \<longleftrightarrow> literal_run 131072 is"

definition block_fits :: "bool \<Rightarrow> bytes \<Rightarrow> bytes \<Rightarrow> block \<Rightarrow> bool" where
  "block_fits noBuf buf out b \<longleftrightarrow> length (expand_block out b) \<le> length buf \<or> noBuf \<and> block_runs b"

lemma coded_items:
  assumes "tables_of dat type pos = Some (Inr (lm, dm, lbt, dbt, q))"
    and "decodes lt lm lbt" and "decodes dt dm dbt" and "has_code lt 256"
    and "items_ok lt dt (length out) is" and "has_fields (stream dat) q (items_fields lt dt is)"
    and "q + width (items_fields lt dt is) \<le> 8 * length dat" and "holds buf out"
    and "length (expand out is) \<le> length buf \<or> noBuf \<and> literal_run 131072 is"
  shows "\<exists>buf'. coded dat [] noBuf type pos (length out) buf
      = Some (Inr (q + width (items_fields lt dt is), length (expand out is), buf'))
    \<and> holds buf' (expand out is) \<and> length buf \<le> length buf' \<and> (\<not> noBuf \<longrightarrow> length buf' = length buf)"
proof -
  let ?g = "grown noBuf buf (length out + 131072)"
  have "fits noBuf ?g out is"
    using assms(9) grown_facts(1)[of buf noBuf "length out + 131072"] grown_facts(2)[of noBuf "length out + 131072" buf]
    by (auto simp: fits_def intro: literal_run_mono)
  then obtain buf' where "symbols dat [] noBuf lm dm lbt dbt q (length out) ?g
      = Some (Inr (q + width (items_fields lt dt is), length (expand out is), buf'))"
    and "holds buf' (expand out is)" "length ?g \<le> length buf'" "\<not> noBuf \<longrightarrow> length buf' = length ?g"
    using symbols_items[OF assms(2-7) holds_grown[OF assms(8)]] by blast
  moreover have "\<not> q > length dat * 8" using assms(7) by simp
  ultimately show ?thesis
    using grown_facts(1)[of buf noBuf "length out + 131072"] grown_facts(4)[of noBuf buf "length out + 131072"]
    by (intro exI[of _ buf']) (auto simp: coded_def assms(1))
qed

lemma fixed_at:
  "has_fields s p (block_fields p fin (Fixed is)) \<Longrightarrow> has_fields s (p + 3) (items_fields fixed_literals fixed_distances is)"
  "p + width (block_fields p fin (Fixed is)) = p + 3 + width (items_fields fixed_literals fixed_distances is)"
  by (simp_all add: numeral_eq_Suc)

lemma own_at:
  "has_fields s p (block_fields p fin (Own c is)) \<Longrightarrow> has_fields s (p + 3) (codes_fields c)
    \<and> has_fields s (p + 3 + width (codes_fields c)) (items_fields (lit_code c) (dist_code c) is)"
  "p + width (block_fields p fin (Own c is))
    = p + 3 + width (codes_fields c) + width (items_fields (lit_code c) (dist_code c) is)"
  by (simp_all add: numeral_eq_Suc)

lemma block_read:
  assumes fs: "has_fields (stream dat) p (block_fields p fin b)" and ok: "block_ok (length out) b"
    and w: "p + width (block_fields p fin b) \<le> 8 * length dat"
    and h: "holds buf out" and room: "block_fits noBuf buf out b"
  shows "\<exists>buf'. (if bits dat (p + 1) 3 = 0 then Some (stored dat noBuf (p + 3) (length out) buf)
      else coded dat [] noBuf (bits dat (p + 1) 3) (p + 3) (length out) buf)
    = Some (Inr (p + width (block_fields p fin b), length (expand_block out b), buf'))
    \<and> holds buf' (expand_block out b) \<and> length buf \<le> length buf' \<and> (\<not> noBuf \<longrightarrow> length buf' = length buf)"
proof (cases b)
  case (Plain d)
  have "bits dat (p + 1) (2 ^ 2 - 1) = 0" using fs Plain by (intro bits_field) simp_all
  then show ?thesis
    using stored_ok[of dat p fin d buf out noBuf] assms unfolding Plain block_fits_def by auto
next
  case (Fixed "is")
  have "bits dat (p + 1) (2 ^ 2 - 1) = 1" using fs Fixed by (intro bits_field) simp_all
  then have t: "bits dat (p + 1) 3 = 1" by simp
  have "tables_of dat 1 (p + 3) = Some (Inr (flrm, fdrm, 9, 5, p + 3))" by (simp add: tables_of_def)
  note c = coded_items[OF this decodes_fixed fixed_codes_ok(3), of out "is" buf noBuf]
  have if_thenI: "(if (1 :: nat) = 0 then x else y) = y" for x y :: "(js_error + nat \<times> nat \<times> bytes) option" by simp
  show ?thesis
    unfolding t Fixed fixed_at(2) if_thenI expand_block.simps
    by (rule c) (use assms fixed_at in \<open>simp_all add: Fixed block_fits_def\<close>)
next
  case (Own c "is")
  have "bits dat (p + 1) (2 ^ 2 - 1) = 2" using fs Own by (intro bits_field) simp_all
  then have t: "bits dat (p + 1) 3 = 2" by simp
  have c: "codes_ok c" "has_code (lit_code c) 256" using ok Own by simp_all
  have f: "has_fields (stream dat) (p + 3) (codes_fields c)" using fs own_at(1) unfolding Own by blast
  obtain lm dm lbt dbt where "own_tables dat (p + 3) = Some (lm, dm, lbt, dbt, p + 3 + width (codes_fields c))"
    and d: "decodes (lit_code c) lm lbt" "decodes (dist_code c) dm dbt"
    using own_tables_ok[OF c(1) f] by blast
  then have "tables_of dat 2 (p + 3) = Some (Inr (lm, dm, lbt, dbt, p + 3 + width (codes_fields c)))"
    by (simp add: tables_of_def)
  note i = coded_items[OF this d c(2), of out "is" buf noBuf]
  have if_thenI: "(if (2 :: nat) = 0 then x else y) = y" for x y :: "(js_error + nat \<times> nat \<times> bytes) option" by simp
  show ?thesis
    unfolding t Own own_at(2) if_thenI expand_block.simps
    by (rule i) (use assms own_at in \<open>simp_all only: Own block_fits_def block_ok.simps block_runs.simps expand_block.simps\<close>)
qed

lemma length_expand_block_mono: "length out \<le> length (expand_block out b)"
  by (cases b) (simp_all add: length_expand_mono)

lemma length_expand_blocks_mono: "length out \<le> length (foldl expand_block out bs)"
proof (induction bs arbitrary: out)
  case (Cons b bs)
  show ?case using Cons[of "expand_block out b"] length_expand_block_mono[of out b] by simp
qed simp

lemma blocks_read:
  assumes "bs \<noteq> []" and "blocks_ok out bs" and "has_fields (stream dat) p (deflate_fields p bs)"
    and "p + width (deflate_fields p bs) \<le> 8 * length dat" and "holds buf out"
    and "length (foldl expand_block out bs) \<le> length buf \<or> noBuf \<and> list_all block_runs bs"
  shows "\<exists>buf'. blocks dat [] noBuf p (length out) buf
      = Some (Inr (length (foldl expand_block out bs), buf'))
    \<and> holds buf' (foldl expand_block out bs) \<and> (\<not> noBuf \<longrightarrow> length buf' = length buf)"
  using assms
proof (induction bs arbitrary: out p buf)
  case (Cons b bs)
  let ?fs = "block_fields p (bs = []) b" and ?out = "expand_block out b"
  let ?p = "p + width ?fs"
  have f: "has_fields (stream dat) p ?fs" "has_fields (stream dat) ?p (deflate_fields ?p bs)"
    and w: "?p \<le> 8 * length dat" "?p + width (deflate_fields ?p bs) \<le> 8 * length dat"
    and ok: "block_ok (length out) b" "blocks_ok ?out bs"
    using Cons.prems by (simp_all add: add.assoc)
  have "block_fits noBuf buf out b"
    using Cons.prems(6) length_expand_blocks_mono[of ?out bs] by (auto simp: block_fits_def)
  from block_read[OF f(1) ok(1) w(1) Cons.prems(5) this] obtain buf1 where
    b: "(if bits dat (p + 1) 3 = 0 then Some (stored dat noBuf (p + 3) (length out) buf)
      else coded dat [] noBuf (bits dat (p + 1) 3) (p + 3) (length out) buf) = Some (Inr (?p, length ?out, buf1))"
    and h: "holds buf1 ?out" and l: "length buf \<le> length buf1" "\<not> noBuf \<longrightarrow> length buf1 = length buf"
    by blast
  have "take_bit 1 (drop_bit p (stream dat)) = of_bool (bs = [])"
    using f(1) by (cases b) simp_all
  then have final: "bits dat p 1 = of_bool (bs = [])" using bits_field[of 1 p dat] by simp
  have step: "blocks dat [] noBuf p (length out) buf
    = (if bs = [] then Some (Inr (length ?out, buf1)) else blocks dat [] noBuf ?p (length ?out) buf1)"
    by (subst blocks.simps) (simp only: Let_def b final bind.bind_lunit sum.case prod.case, simp)
  show ?case
  proof (cases "bs = []")
    case True
    then show ?thesis using h l unfolding step by auto
  next
    case False
    have "length (foldl expand_block ?out bs) \<le> length buf1 \<or> noBuf \<and> list_all block_runs bs"
      using Cons.prems(6) l by auto
    then show ?thesis
      using Cons.IH[OF False ok(2) f(2) w(2) h] False l(2) unfolding step by auto
  qed
qed simp

section \<open>Streams\<close>

lemma width_block_fields: "0 < width (block_fields p fin b)"
  by (cases b) simp_all

text \<open>A stream that starts with the fields of the blocks, in a buffer of the caller or its own.\<close>

lemma inflt_read:
  assumes "bs \<noteq> []" and "blocks_ok [] bs" and "has_fields (stream dat) 0 (deflate_fields 0 bs)"
    and "width (deflate_fields 0 bs) \<le> 8 * length dat"
  shows "list_all block_runs bs \<Longrightarrow> inflt dat None None = Some (Inr (inflated bs))"
    and "length buf = length (inflated bs) \<Longrightarrow> inflt dat (Some buf) None = Some (Inr (inflated bs))"
proof -
  have ne: "dat \<noteq> []"
  proof -
    obtain b cs where "bs = b # cs" using assms(1) by (cases bs) simp_all
    then have "0 < width (deflate_fields 0 bs)" using width_block_fields[of 0 "cs = []" b] by simp
    then show ?thesis using assms(4) by auto
  qed
  have slc: "(if n = length b then b else slc b (Some 0) (Some (int n))) = take n b" if "n \<le> length b" for n and b :: bytes
    using that by (auto simp: slc_def slice_def)
  {
    assume "list_all block_runs bs"
    then obtain buf' where "blocks dat [] True 0 (length ([] :: bytes)) (replicate (length dat * 3) 0)
        = Some (Inr (length (inflated bs), buf'))" and h: "holds buf' (inflated bs)"
      using blocks_read[of bs "[]" dat 0 "replicate (length dat * 3) 0" True] assms
      by (auto simp: inflated_def holds_def)
    then show "inflt dat None None = Some (Inr (inflated bs))"
      using ne holds_length[OF h] h slc by (simp add: inflt_def Let_def holds_def)
  next
    assume l: "length buf = length (inflated bs)"
    then obtain buf' where "blocks dat [] False 0 (length ([] :: bytes)) buf
        = Some (Inr (length (inflated bs), buf'))" and h: "holds buf' (inflated bs)"
      using blocks_read[of bs "[]" dat 0 buf False] assms
      by (auto simp: inflated_def holds_def)
    then show "inflt dat (Some buf) None = Some (Inr (inflated bs))"
      using ne holds_length[OF h] h slc by (simp add: inflt_def Let_def holds_def)
  }
qed

lemma stream_append: "stream (a @ b) = stream a + 256 ^ length a * stream b"
  by (induction a) (simp_all add: algebra_simps)

lemma has_fields_take:
  "has_fields s p fs \<Longrightarrow> p + width fs \<le> n \<Longrightarrow> take_bit n t = take_bit n s \<Longrightarrow> has_fields t p fs"
proof (induction fs arbitrary: p)
  case (Cons f fs)
  have "take_bit (snd f) (drop_bit p x) = take_bit (snd f) (drop_bit p (take_bit n x))" for x :: nat
    using Cons.prems(2) by (intro bit_eqI) (auto simp: bit_simps)
  from this[of s] this[of t] have "take_bit (snd f) (drop_bit p t) = take_bit (snd f) (drop_bit p s)"
    using Cons.prems(3) by simp
  then show ?case using Cons by (simp add: add.assoc)
qed simp

lemma deflate_read:
  assumes "blocks_ok [] bs"
  shows "has_fields (stream (deflate bs @ rest)) 0 (deflate_fields 0 bs)"
    and "width (deflate_fields 0 bs) \<le> 8 * length (deflate bs @ rest)"
proof -
  have ok: "fields_ok (deflate_fields 0 bs)" using assms by (rule deflate_fields_ok)
  have w: "width (deflate_fields 0 bs) \<le> 8 * length (deflate bs)"
    unfolding deflate_def by (rule fields_to_bytes(2)[OF ok])
  have "take_bit (8 * length (deflate bs)) (stream (deflate bs @ rest))
      = take_bit (8 * length (deflate bs)) (stream (deflate bs))"
    by (simp add: stream_append take_bit_eq_mod power_mult)
  moreover have "has_fields (stream (deflate bs)) 0 (deflate_fields 0 bs)"
    unfolding deflate_def by (rule fields_to_bytes(1)[OF ok])
  ultimately show "has_fields (stream (deflate bs @ rest)) 0 (deflate_fields 0 bs)"
    using w has_fields_take[of "stream (deflate bs)" 0 "deflate_fields 0 bs" "8 * length (deflate bs)"] by simp
  show "width (deflate_fields 0 bs) \<le> 8 * length (deflate bs @ rest)" using w by simp
qed

end
