(* ===== verification/Inflate_Total.thy ===== *)
theory Inflate_Total
  imports Inflate_Reads
begin

text \<open>
  The inflate routine returns on every input. The loops over symbols and blocks end because each turn
  reads at least one bit, and the length of a code in a decoding table is never 0.
\<close>

section \<open>The entries of a decoding table\<close>

definition entries_ok :: "nat list \<Rightarrow> table \<Rightarrow> bool" where
  "entries_ok cd t \<longleftrightarrow> list_all (\<lambda>x. x = 0 \<or> (\<exists>i < length cd. cd ! i \<noteq> 0 \<and> x = u16 (push_bit 4 i OR cd ! i))) t"

lemma entries_ok_update:
  "entries_ok cd t \<Longrightarrow> i < length cd \<Longrightarrow> cd ! i \<noteq> 0 \<Longrightarrow> entries_ok cd (t[j := u16 (push_bit 4 i OR cd ! i)])"
  unfolding entries_ok_def list_all_iff by (auto dest!: set_update_subset_insert[THEN subsetD])

lemma entries_ok_fill:
  assumes "entries_ok cd t" and "i < length cd" and "cd ! i \<noteq> 0"
  shows "entries_ok cd (foldl (\<lambda>co v. co[f v := u16 (push_bit 4 i OR cd ! i)]) t vs)"
  using assms(1) by (induction vs arbitrary: t) (simp_all add: entries_ok_update assms(2,3))

lemma decode_step_entries:
  "j < length cd \<Longrightarrow> entries_ok cd co \<Longrightarrow> entries_ok cd (snd (decode_step cd mb (le, co) j))"
  by (simp add: decode_step_def tab_def Let_def entries_ok_fill)

lemma hMap_entries: "entries_ok cd (hMap cd mb True)"
proof -
  have "entries_ok cd (snd (foldl (decode_step cd mb) (le, replicate n 0) [0..<j]))" if "j \<le> length cd" for j n le
    using that
  proof (induction j)
    case 0
    then show ?case by (simp add: entries_ok_def list_all_iff)
  next
    case (Suc j)
    obtain le' co where s: "foldl (decode_step cd mb) (le, replicate n 0) [0..<j] = (le', co)" by (rule prod.exhaust)
    have "j < length cd" "entries_ok cd co" using Suc s by simp_all
    then have "entries_ok cd (snd (decode_step cd mb (le', co) j))" by (simp add: decode_step_entries)
    then show ?case using s by simp
  qed
  then show ?thesis by (simp add: hMap_def Let_def)
qed

text \<open>An entry that is not 0 has a length; its symbol is one of the code.\<close>

lemma entry_and_15: "u16 (push_bit 4 i OR c) AND 15 = c" if "c \<le> 15"
proof -
  have "take_bit 4 c = c" using that by (simp add: take_bit_nat_eq_self)
  then have "u16 (push_bit 4 i OR c) AND mask 4 = c"
    by (simp add: u16_def take_bit_or take_bit_push_bit flip: take_bit_eq_mask)
  then show ?thesis by (simp add: mask_eq_exp_minus_1)
qed

lemma tab_entry:
  assumes "list_all (\<lambda>c. c \<le> 15) cd" and "tab (hMap cd mb True) x \<noteq> 0"
  shows "tab (hMap cd mb True) x AND 15 \<noteq> 0" and "length cd \<le> 4096 \<Longrightarrow> drop_bit 4 (tab (hMap cd mb True) x) < length cd"
proof -
  have "tab (hMap cd mb True) x \<in> set (hMap cd mb True)"
    using assms(2) by (auto simp: tab_def split: if_splits)
  then obtain i where i: "i < length cd" "cd ! i \<noteq> 0" "tab (hMap cd mb True) x = u16 (push_bit 4 i OR cd ! i)"
    using hMap_entries[of cd mb] assms(2) by (auto simp: entries_ok_def list_all_iff)
  have c: "cd ! i \<le> 15" using assms(1) i(1) by (simp add: list_all_length)
  show "tab (hMap cd mb True) x AND 15 \<noteq> 0"
    using entry_and_15[OF c] i by simp
  assume "length cd \<le> 4096"
  then have "push_bit 4 i OR cd ! i = 16 * i + cd ! i" "16 * i + cd ! i < 2 ^ 16"
    using or_disjoint[of "cd ! i" 4 i] c i(1) by (simp_all add: or.commute add.commute)
  then have "tab (hMap cd mb True) x = 16 * i + cd ! i"
    using i(3) by (simp add: u16_def take_bit_nat_eq_self)
  then show "drop_bit 4 (tab (hMap cd mb True) x) < length cd"
    using entry_parts(1)[OF c] i(1) by simp
qed

definition table_ok :: "table \<Rightarrow> bool" where
  "table_ok t \<longleftrightarrow> (\<forall>x. tab t x \<noteq> 0 \<longrightarrow> tab t x AND 15 \<noteq> 0)"

lemma table_ok_hMap: "list_all (\<lambda>c. c \<le> 15) cd \<Longrightarrow> table_ok (hMap cd mb True)"
  by (simp add: table_ok_def tab_entry)

lemma table_ok_fixed: "table_ok flrm" "table_ok fdrm"
proof -
  have "list_all (\<lambda>c. c \<le> 15) flt" "list_all (\<lambda>c. c \<le> 15) fdt"
    by (simp_all add: flt_def fdt_def list_all_iff)
  then show "table_ok flrm" "table_ok fdrm"
    unfolding flrm_def fdrm_def by (simp_all add: table_ok_hMap)
qed

section \<open>The lengths of the codes\<close>

lemma fill_set: "set (foldl (\<lambda>l j. l[j := c]) l js) \<subseteq> insert c (set l)"
proof (induction js arbitrary: l)
  case (Cons j js)
  have "set (foldl (\<lambda>l j. l[j := c]) (l[j := c]) js) \<subseteq> insert c (set (l[j := c]))" by (rule Cons)
  also have "\<dots> \<subseteq> insert c (set l)" using set_update_subset_insert[of l j c] by auto
  finally show ?case by simp
qed auto

lemma code_lengths_total:
  assumes "list_all (\<lambda>c. c \<le> 15) cd" and "length cd = 19" and "list_all (\<lambda>c. c \<le> 15) ldt"
  shows "\<exists>ldt' pos'. code_lengths dat (hMap cd mb True) m n i ldt pos = Some (ldt', pos')
    \<and> pos \<le> pos' \<and> list_all (\<lambda>c. c \<le> 15) ldt'"
  using assms(3)
proof (induction "n - i" arbitrary: i ldt pos rule: less_induct)
  case less
  define r where "r = tab (hMap cd mb True) (bits dat pos m)"
  define p where "p = pos + (r AND 15)"
  define s where "s = drop_bit 4 r"
  have s: "s \<le> 18"
    using tab_entry(2)[OF assms(1), of mb "bits dat pos m"] assms(2) by (cases "r = 0") (auto simp: s_def r_def)
  define c where "c = (if s = 16 then if i = 0 then 0 else tab ldt (i - 1) else 0)"
  define k where "k = (if s = 16 then 3 + bits dat p 3 else if s = 17 then 3 + bits dat p 7 else 11 + bits dat p 127)"
  define q where "q = (if s = 16 then p + 2 else if s = 17 then p + 3 else p + 7)"
  have step: "code_lengths dat (hMap cd mb True) m n i ldt pos =
    (if i < n then
       if s < 16 then code_lengths dat (hMap cd mb True) m n (i + 1) (ldt[i := s]) p
       else code_lengths dat (hMap cd mb True) m n (i + k) (foldl (\<lambda>l j. l[j := c]) ldt [i..<i + k]) q
     else Some (ldt, pos))"
  proof (cases "s < 16")
    case False
    then have "s = 16 \<or> s = 17 \<or> s = 18" using s by auto
    then show ?thesis
      by (subst code_lengths.simps) (auto simp: Let_def c_def k_def q_def p_def s_def simp flip: r_def)
  qed (subst code_lengths.simps, simp add: Let_def p_def s_def flip: r_def)
  have "c \<le> 15" using less.prems by (auto simp: c_def tab_def list_all_length)
  then have f: "list_all (\<lambda>c. c \<le> 15) (foldl (\<lambda>l j. l[j := c]) ldt [i..<i + k])"
    using fill_set[of c ldt "[i..<i + k]"] less.prems by (auto simp: list_all_iff)
  have g: "list_all (\<lambda>c. c \<le> 15) (ldt[i := s])" if "s < 16"
    using that less.prems set_update_subset_insert[of ldt i s] by (auto simp: list_all_iff)
  have pq: "pos \<le> p" "pos \<le> q" "0 < k" by (simp_all add: p_def q_def k_def)
  consider "\<not> i < n" | "i < n" "s < 16" | "i < n" "\<not> s < 16" by blast
  then show ?case
  proof cases
    case 2
    then have "n - (i + 1) < n - i" by simp
    from less.hyps[OF this g[OF 2(2)], of p] obtain l q'
      where "code_lengths dat (hMap cd mb True) m n (i + 1) (ldt[i := s]) p = Some (l, q')"
        and "p \<le> q'" "list_all (\<lambda>c. c \<le> 15) l" by blast
    then show ?thesis
      using 2 pq(1) unfolding step by (intro exI[of _ l] exI[of _ q']) simp
  next
    case 3
    then have "n - (i + k) < n - i" using pq(3) by simp
    from less.hyps[OF this f, of q] obtain l q'
      where "code_lengths dat (hMap cd mb True) m n (i + k) (foldl (\<lambda>l j. l[j := c]) ldt [i..<i + k]) q = Some (l, q')"
        and "q \<le> q'" "list_all (\<lambda>c. c \<le> 15) l" by blast
    then show ?thesis
      using 3 pq(2) unfolding step by (intro exI[of _ l] exI[of _ q']) simp
  qed (use less.prems in \<open>simp add: step\<close>)
qed

lemma bits_le: "bits d p m \<le> m"
proof -
  have "x AND m \<le> m" for x
  proof -
    have "int (x AND m) \<le> int m" by (simp add: of_nat_and_eq)
    then show ?thesis by simp
  qed
  then show ?thesis by (simp add: bits_def Let_def)
qed

lemma own_tables_total:
  "\<exists>lm dm lbt dbt pos'. own_tables dat pos = Some (lm, dm, lbt, dbt, pos') \<and> pos \<le> pos' \<and> table_ok lm \<and> table_ok dm"
proof -
  define clt where "clt = foldl (\<lambda>clt i. clt[tab clim i := bits dat (pos + 14 + i * 3) 7]) (replicate 19 0)
    [0..<bits dat (pos + 10) 15 + 4]"
  have c: "length clt = 19 \<and> list_all (\<lambda>c. c \<le> 15) clt"
  proof -
    have "length (foldl (\<lambda>clt i. clt[f i := bits dat (g i) 7]) l is) = length l
        \<and> list_all (\<lambda>c. c \<le> 15) (foldl (\<lambda>clt i. clt[f i := bits dat (g i) 7]) l is)"
      if "list_all (\<lambda>c. c \<le> 15) l" for f g and l "is" :: "nat list"
      using that
    proof (induction "is" arbitrary: l)
      case (Cons i "is")
      have "bits dat (g i) 7 \<le> 15" using bits_le[of dat "g i" 7] by simp
      then have "list_all (\<lambda>c. c \<le> 15) (l[f i := bits dat (g i) 7])"
        using Cons.prems set_update_subset_insert[of l "f i" "bits dat (g i) 7"] by (auto simp: list_all_iff)
      then show ?case using Cons.IH[of "l[f i := bits dat (g i) 7]"] by simp
    qed simp
    from this[of "replicate 19 0"] show ?thesis by (simp add: clt_def list_all_iff)
  qed
  define n where "n = bits dat pos 31 + 257"
  define m where "m = n + bits dat (pos + 5) 31 + 1"
  have "list_all (\<lambda>c. c \<le> 15) (replicate m (0 :: nat))" by (simp add: list_all_iff)
  then obtain ldt q where l: "code_lengths dat (hMap clt (max_of clt) True) (2 ^ max_of clt - 1) m 0 (replicate m 0)
      (pos + 14 + (bits dat (pos + 10) 15 + 4) * 3) = Some (ldt, q)"
    and q: "pos + 14 + (bits dat (pos + 10) 15 + 4) * 3 \<le> q" and a: "list_all (\<lambda>c. c \<le> 15) ldt"
    using code_lengths_total c by metis
  have "list_all (\<lambda>c. c \<le> 15) (take n ldt)" "list_all (\<lambda>c. c \<le> 15) (drop n ldt)"
    using a by (auto simp: list_all_iff dest: in_set_takeD in_set_dropD)
  then show ?thesis
    using q unfolding own_tables_def Let_def clt_def[symmetric] n_def[symmetric] m_def[symmetric] l bind.bind_lunit
    by (simp add: table_ok_hMap)
qed

section \<open>Symbols and blocks\<close>

text \<open>What the routine throws.\<close>

definition inflate_errors :: "js_error set" where
  "inflate_errors = {Error ''unexpected EOF'', Error ''invalid block type'', Error ''invalid length/literal'',
     Error ''invalid distance'', Range_error}"

lemma err_simps:
  "err 0 [] = Inl (Error ''unexpected EOF'')" "err (Suc 0) [] = Inl (Error ''invalid block type'')"
  "err 2 [] = Inl (Error ''invalid length/literal'')" "err 3 [] = Inl (Error ''invalid distance'')"
  by (simp_all add: err_def ec_def)

text \<open>A result is an error of these, or a position behind the one before, in the buffer.\<close>

definition advances :: "bytes \<Rightarrow> nat \<Rightarrow> js_error + nat \<times> nat \<times> bytes \<Rightarrow> bool" where
  "advances dat pos r \<longleftrightarrow>
     (case r of Inl e \<Rightarrow> e \<in> inflate_errors | Inr (pos', bt, buf) \<Rightarrow> pos \<le> pos' \<and> pos' \<le> length dat * 8)"

lemma advances_mono: "advances dat q r \<Longrightarrow> p \<le> q \<Longrightarrow> advances dat p r"
  by (auto simp: advances_def split: sum.splits)

lemma copy_match_errors: "copy_match dict buf bt add dt = Inl e \<Longrightarrow> e = Error ''invalid distance''"
  by (auto simp: copy_match_def Let_def err_simps split: option.splits if_splits)

lemma read_match_advances: "advances dat pos (read_match dat dict noBuf dm dbt symb pos bt buf)"
proof -
  obtain add p where a: "(if symb > 264 then (bits dat pos (2 ^ tab fleb (symb - 257) - 1) + tab fl_base (symb - 257),
      pos + tab fleb (symb - 257)) else (symb - 254, pos)) = (add, p)" by (rule prod.exhaust)
  then have p: "pos \<le> p" by (auto split: if_splits)
  define d where "d = tab dm (bits16 dat p AND (2 ^ dbt - 1))"
  define dt where "dt = (if drop_bit 4 d < length fd_base then Some (fd_base ! drop_bit 4 d) else None)"
  obtain dt' q where q: "(if drop_bit 4 d > 3 then
      (map_option (\<lambda>t. t + (bits16 dat (p + (d AND 15)) AND (2 ^ tab fdeb (drop_bit 4 d) - 1))) dt,
        p + (d AND 15) + tab fdeb (drop_bit 4 d)) else (dt, p + (d AND 15))) = (dt', q)" by (rule prod.exhaust)
  then have pq: "pos \<le> q" using p by (auto split: if_splits)
  have "read_match dat dict noBuf dm dbt symb pos bt buf =
    (if d = 0 then err 3 [] else if q > length dat * 8 then err 0 []
     else map_sum id (\<lambda>(bt, buf). (q, bt, buf)) (copy_match dict (grown noBuf buf (bt + 131072)) bt add dt'))"
    unfolding read_match_def Let_def a prod.case using q
    by (simp only: d_def[symmetric] dt_def[symmetric] prod.case Let_def)
  then show ?thesis
    using pq copy_match_errors
    by (cases "copy_match dict (grown noBuf buf (bt + 131072)) bt add dt'")
       (auto simp: advances_def inflate_errors_def err_simps)
qed

lemma symbols_total:
  assumes "table_ok lm"
  shows "\<exists>r. symbols dat dict noBuf lm dm lbt dbt pos bt buf = Some r \<and> advances dat pos r"
proof (induction "length dat * 8 + 1 - pos" arbitrary: pos bt buf rule: less_induct)
  case less
  define c where "c = tab lm (bits16 dat pos AND (2 ^ lbt - 1))"
  define p where "p = pos + (c AND 15)"
  let ?m = "read_match dat dict noBuf dm dbt (drop_bit 4 c) p bt buf"
  have step: "symbols dat dict noBuf lm dm lbt dbt pos bt buf =
    (if p > length dat * 8 then Some (err 0 []) else if c = 0 then Some (err 2 [])
     else if drop_bit 4 c < 256 then symbols dat dict noBuf lm dm lbt dbt p (bt + 1) (buf[bt := of_nat (drop_bit 4 c)])
     else if drop_bit 4 c = 256 then Some (Inr (p, bt, buf))
     else (case ?m of
         Inl e \<Rightarrow> Some (Inl e)
       | Inr (pos, bt, buf) \<Rightarrow> symbols dat dict noBuf lm dm lbt dbt pos bt buf))"
    by (subst symbols.simps) (simp only: Let_def c_def p_def)
  show ?case
  proof (cases "p > length dat * 8 \<or> c = 0")
    case True
    then show ?thesis unfolding step by (auto simp: advances_def inflate_errors_def err_simps)
  next
    case False
    then have "c AND 15 \<noteq> 0" using assms by (simp add: table_ok_def c_def)
    then have p: "pos < p" "p \<le> length dat * 8" using False by (simp_all add: p_def)
    have IH: "\<exists>r. symbols dat dict noBuf lm dm lbt dbt q bt buf = Some r \<and> advances dat pos r"
      if "p \<le> q" "q \<le> length dat * 8" for q bt buf
      using less.hyps[of q bt buf] that p advances_mono[of dat q _ pos] by fastforce
    show ?thesis
    proof (cases ?m)
      case (Inl e)
      then show ?thesis
        using read_match_advances[of dat p dict noBuf dm dbt "drop_bit 4 c" bt buf] False IH[of p] p
        unfolding step by (auto simp: advances_def)
    next
      case (Inr x)
      then obtain q bt' buf' where x: "?m = Inr (q, bt', buf')" by (cases x) auto
      then have "p \<le> q" "q \<le> length dat * 8"
        using read_match_advances[of dat p dict noBuf dm dbt "drop_bit 4 c" bt buf] by (simp_all add: advances_def)
      then show ?thesis
        using False IH p unfolding step x by (auto simp: advances_def)
    qed
  qed
qed

lemma stored_advances: "advances dat pos (stored dat noBuf pos bt buf)"
proof -
  have "pos \<le> shft pos * 8" by (simp add: shft_def)
  then show ?thesis
    by (auto simp: stored_def Let_def advances_def inflate_errors_def err_simps)
qed

lemma coded_total: "\<exists>r. coded dat dict noBuf type pos bt buf = Some r \<and> advances dat pos r"
proof -
  consider "type = 1" | "type = 2" | "type \<noteq> 1" "type \<noteq> 2" by blast
  then obtain t where t: "tables_of dat type pos = Some t"
    and ok: "t = err 1 [] \<or> (\<exists>lm dm lbt dbt q. t = Inr (lm, dm, lbt, dbt, q) \<and> pos \<le> q \<and> table_ok lm)"
  proof cases
    case 1
    then show ?thesis using that table_ok_fixed by (auto simp: tables_of_def)
  next
    case 2
    then show ?thesis using that own_tables_total[of dat pos] by (fastforce simp: tables_of_def)
  qed (use that in \<open>simp add: tables_of_def\<close>)
  from ok show ?thesis
  proof
    assume "t = err 1 []"
    then show ?thesis using t by (simp add: coded_def err_simps advances_def inflate_errors_def)
  next
    assume "\<exists>lm dm lbt dbt q. t = Inr (lm, dm, lbt, dbt, q) \<and> pos \<le> q \<and> table_ok lm"
    then obtain lm dm lbt dbt q where i: "t = Inr (lm, dm, lbt, dbt, q)" "pos \<le> q" "table_ok lm" by blast
    obtain r where "symbols dat dict noBuf lm dm lbt dbt q bt (grown noBuf buf (bt + 131072)) = Some r" "advances dat q r"
      using symbols_total[OF i(3)] by blast
    then show ?thesis
      using t i advances_mono by (auto simp: coded_def err_simps advances_def inflate_errors_def)
  qed
qed

lemma blocks_total:
  "\<exists>r. blocks dat dict noBuf pos bt buf = Some r \<and> (\<forall>e. r = Inl e \<longrightarrow> e \<in> inflate_errors)"
proof (induction "length dat * 8 + 1 - pos" arbitrary: pos bt buf rule: less_induct)
  case less
  let ?b = "if bits dat (pos + 1) 3 = 0 then Some (stored dat noBuf (pos + 3) bt buf)
    else coded dat dict noBuf (bits dat (pos + 1) 3) (pos + 3) bt buf"
  obtain r where r: "?b = Some r" "advances dat (pos + 3) r"
    using coded_total[of dat dict noBuf "bits dat (pos + 1) 3" "pos + 3" bt buf]
      stored_advances[of dat "pos + 3" noBuf bt buf] by (cases "bits dat (pos + 1) 3 = 0") auto
  have step: "blocks dat dict noBuf pos bt buf =
    (case r of Inl e \<Rightarrow> Some (Inl e)
     | Inr (q, bt, buf) \<Rightarrow> if bits dat pos 1 = 0 then blocks dat dict noBuf q bt buf else Some (Inr (bt, buf)))"
    by (subst blocks.simps) (simp only: Let_def r(1) bind.bind_lunit)
  show ?case
  proof (cases r)
    case (Inl e)
    then show ?thesis using r(2) unfolding step by (simp add: advances_def)
  next
    case (Inr x)
    obtain q bt' buf' where x: "x = (q, bt', buf')" by (cases x)
    have "pos + 3 \<le> q" "q \<le> length dat * 8" using r(2) Inr x by (simp_all add: advances_def)
    then show ?thesis
      using less.hyps[of q bt' buf'] unfolding step Inr x by auto
  qed
qed

lemma inflt_total: "\<exists>r. inflt dat buf dict = Some r \<and> (\<forall>e. r = Inl e \<longrightarrow> e \<in> inflate_errors)"
proof (cases "dat = []")
  case False
  let ?b = "case buf of Some b \<Rightarrow> b | None \<Rightarrow> replicate (length dat * 3) 0"
  let ?d = "case dict of Some d \<Rightarrow> d | None \<Rightarrow> []"
  obtain r where "blocks dat ?d (buf = None) 0 0 ?b = Some r" "\<forall>e. r = Inl e \<longrightarrow> e \<in> inflate_errors"
    using blocks_total[of dat ?d "buf = None" 0 0 ?b] by blast
  then show ?thesis
    using False by (cases r) (simp_all add: inflt_def Let_def)
qed (simp add: inflt_def)

section \<open>Properties\<close>

definition container_errors :: "js_error set" where
  "container_errors = {Error ''invalid gzip data'', Error ''invalid zlib data'',
     Error ''invalid zlib data: need dictionary'', Error ''invalid zlib data: unexpected dictionary''}"

text \<open>
  C17: Decompression returns on every input: for every buffer, output buffer and dictionary the loops end,
  with bytes or with one of the errors of the routine or the containers. A damaged file cannot hang the
  reader.
\<close>

theorem decompress_total:
  "(\<exists>b. decompressSync data out dict = Some (Inr b))
    \<or> (\<exists>e \<in> inflate_errors \<union> container_errors. decompressSync data out dict = Some (Inl e))"
proof -
  have i: "\<exists>r. inflt dat buf dict = Some r \<and> (\<forall>e. r = Inl e \<longrightarrow> e \<in> inflate_errors \<union> container_errors)" for dat buf
    using inflt_total[of dat buf dict] by blast
  have g: "gzs d = Inl e \<Longrightarrow> e \<in> container_errors" and z: "zls d dict = Inl e \<Longrightarrow> e \<in> container_errors" for d e
    by (auto simp: gzs_def zls_def err_def container_errors_def Let_def split: if_splits)
  have gz: "\<exists>r. gunzipSync data out dict = Some r \<and> (\<forall>e. r = Inl e \<longrightarrow> e \<in> inflate_errors \<union> container_errors)"
    using g i by (cases "gzs data") (auto simp: gunzipSync_def err_def container_errors_def)
  have zl: "\<exists>r. unzlibSync data out dict = Some r \<and> (\<forall>e. r = Inl e \<longrightarrow> e \<in> inflate_errors \<union> container_errors)"
    using z i by (cases "zls data dict") (auto simp: unzlibSync_def)
  have "\<exists>r. decompressSync data out dict = Some r \<and> (\<forall>e. r = Inl e \<longrightarrow> e \<in> inflate_errors \<union> container_errors)"
    using gz zl i by (auto simp: decompressSync_def inflateSync_def)
  then obtain r where "decompressSync data out dict = Some r" "\<forall>e. r = Inl e \<longrightarrow> e \<in> inflate_errors \<union> container_errors"
    by blast
  then show ?thesis by (cases r) auto
qed

end
