(* ===== verification/Decompress.thy ===== *)
theory Decompress
  imports Inflate_Blocks
begin

text \<open>
  The containers: gzip members (RFC 1952) and zlib streams (RFC 1950) around a DEFLATE stream, and what
  \<^verbatim>\<open>decompressSync\<close> makes of them.
\<close>

section \<open>A gzip member\<close>

record gz_fields =
  gz_text :: bool
  gz_info :: bytes            \<comment> \<open>time, extra flags and system\<close>
  gz_extra :: "bytes option"
  gz_name :: "bytes option"
  gz_comment :: "bytes option"
  gz_check :: "bytes option"

definition gz_ok :: "gz_fields \<Rightarrow> bool" where
  "gz_ok h \<longleftrightarrow> length (gz_info h) = 6
     \<and> (case gz_extra h of None \<Rightarrow> True | Some e \<Rightarrow> length e < 2 ^ 16)
     \<and> (case gz_name h of None \<Rightarrow> True | Some n \<Rightarrow> list_all (\<lambda>b. b \<noteq> 0) n)
     \<and> (case gz_comment h of None \<Rightarrow> True | Some n \<Rightarrow> list_all (\<lambda>b. b \<noteq> 0) n)
     \<and> (case gz_check h of None \<Rightarrow> True | Some c \<Rightarrow> length c = 2)"

definition gz_flags :: "gz_fields \<Rightarrow> nat" where
  "gz_flags h = of_bool (gz_text h) + (if gz_check h = None then 0 else 2) + (if gz_extra h = None then 0 else 4)
     + (if gz_name h = None then 0 else 8) + (if gz_comment h = None then 0 else 16)"

definition zero_ended :: "bytes option \<Rightarrow> bytes" where
  "zero_ended n = (case n of None \<Rightarrow> [] | Some n \<Rightarrow> n @ [0])"

definition gz_extra_bytes :: "gz_fields \<Rightarrow> bytes" where
  "gz_extra_bytes h = (case gz_extra h of None \<Rightarrow> [] | Some e \<Rightarrow> le_bytes 2 (int (length e)) @ e)"

definition gz_header :: "gz_fields \<Rightarrow> bytes" where
  "gz_header h = [31, 139, 8, of_nat (gz_flags h)] @ gz_info h @ gz_extra_bytes h
     @ zero_ended (gz_name h) @ zero_ended (gz_comment h) @ (case gz_check h of None \<Rightarrow> [] | Some c \<Rightarrow> c)"

definition gzip :: "gz_fields \<Rightarrow> bytes \<Rightarrow> block list \<Rightarrow> bytes" where
  "gzip h crc bs = gz_header h @ deflate bs @ crc @ le_bytes 4 (int (length (inflated bs)))"

lemma byte_at_append [simp]: "byte_at (a @ b) (length a) = byte_at b 0"
  by (simp add: byte_at_def nth_append)

lemma byte_at_append_plus: "byte_at (a @ b) (length a + i) = byte_at b i"
  by (simp add: byte_at_def nth_append)

text \<open>A field that ends with a zero is skipped.\<close>

declare gz_skip.simps [simp del]

lemma gz_skip_0 [simp]: "gz_skip d 0 st = st"
  by (subst gz_skip.simps) simp

lemma gz_skip_zero_ended:
  assumes "list_all (\<lambda>b. b \<noteq> 0) n"
  shows "gz_skip (pre @ n @ [0] @ rest) (Suc z) (length pre)
    = gz_skip (pre @ n @ [0] @ rest) z (length pre + length n + 1)"
  using assms
proof (induction n arbitrary: pre)
  case Nil
  show ?case by (subst gz_skip.simps) (simp add: byte_at_def nth_append)
next
  case (Cons b n)
  have b: "unat b \<noteq> 0" using Cons.prems by (simp add: unat_eq_0)
  have "gz_skip (pre @ (b # n) @ [0] @ rest) (Suc z) (length pre)
      = gz_skip ((pre @ [b]) @ n @ [0] @ rest) (Suc z) (length (pre @ [b]))"
    using b by (subst gz_skip.simps) (simp add: byte_at_def nth_append)
  also have "\<dots> = gz_skip ((pre @ [b]) @ n @ [0] @ rest) z (length (pre @ [b]) + length n + 1)"
    using Cons.prems by (intro Cons.IH) simp
  finally show ?case by simp
qed

lemma gz_skip_option:
  assumes "case n of None \<Rightarrow> True | Some n \<Rightarrow> list_all (\<lambda>b. b \<noteq> 0) n"
  shows "gz_skip (pre @ zero_ended n @ rest) ((if n = None then 0 else 1) + z) (length pre)
    = gz_skip (pre @ zero_ended n @ rest) z (length pre + length (zero_ended n))"
proof (cases n)
  case (Some m)
  then show ?thesis using assms gz_skip_zero_ended[of m pre rest z] by (simp add: zero_ended_def)
qed (simp add: zero_ended_def)

lemma gz_flags_bits:
  "gz_flags h < 32" "gz_flags h AND 4 = (if gz_extra h = None then 0 else 4)"
  "drop_bit 3 (gz_flags h) AND 1 = (if gz_name h = None then 0 else 1)"
  "drop_bit 4 (gz_flags h) AND 1 = (if gz_comment h = None then 0 else 1)"
  "gz_flags h AND 2 = (if gz_check h = None then 0 else 2)"
  by (simp_all add: gz_flags_def drop_bit_eq_div and_one_eq flip: numeral_2_eq_2 numeral_3_eq_3)

lemma extra_skip:
  assumes "length e < 2 ^ 16" and "length pre = 10"
  shows "byte_at (pre @ le_bytes 2 (int (length e)) @ rest) 10
    OR push_bit 8 (byte_at (pre @ le_bytes 2 (int (length e)) @ rest) 11) = length e"
proof -
  let ?d = "le_bytes 2 (int (length e)) @ rest"
  have "byte_at (pre @ ?d) 10 OR push_bit 8 (byte_at (pre @ ?d) 11) = take_bit 16 (stream ?d)"
    using byte_at_append_plus[of pre ?d 0] byte_at_append_plus[of pre ?d 1] assms(2) stream_two[of ?d] by simp
  also have "\<dots> = length e"
    using assms(1) by (simp add: stream_append stream_le_bytes take_bit_eq_mod)
  finally show ?thesis .
qed

lemma gzs_header:
  assumes "gz_ok h"
  shows "gzs (gz_header h @ rest) = Inr (length (gz_header h))"
proof -
  let ?d = "gz_header h @ rest" and ?f = "gz_flags h"
  let ?zn = "if gz_name h = None then 0 else 1 :: nat" and ?zc = "if gz_comment h = None then 0 else 1 :: nat"
  let ?head = "[31, 139, 8, of_nat ?f] @ gz_info h"
  let ?check = "case gz_check h of None \<Rightarrow> [] | Some c \<Rightarrow> c"
  have i: "length ?head = 10" using assms by (simp add: gz_ok_def)
  have n: "case gz_name h of None \<Rightarrow> True | Some n \<Rightarrow> list_all (\<lambda>b. b \<noteq> 0) n"
    and c: "case gz_comment h of None \<Rightarrow> True | Some n \<Rightarrow> list_all (\<lambda>b. b \<noteq> 0) n"
    using assms by (simp_all add: gz_ok_def)
  have b: "byte_at ?d 0 = 31" "byte_at ?d 1 = 139" "byte_at ?d 2 = 8" "byte_at ?d 3 = ?f"
    using gz_flags_bits(1)[of h] by (simp_all add: gz_header_def byte_at_def unat_of_nat)
  have e: "(if ?f AND 4 \<noteq> 0 then 10 + ((byte_at ?d 10 OR push_bit 8 (byte_at ?d 11)) + 2) else 10)
      = length (?head @ gz_extra_bytes h)"
  proof (cases "gz_extra h")
    case None
    then show ?thesis using i by (simp add: gz_flags_bits gz_extra_bytes_def)
  next
    case (Some x)
    then have "length x < 2 ^ 16" using assms by (simp add: gz_ok_def)
    from extra_skip[OF this i] show ?thesis
      using i Some by (simp add: gz_flags_bits gz_extra_bytes_def gz_header_def)
  qed
  have d: "?d = (?head @ gz_extra_bytes h) @ zero_ended (gz_name h) @ (zero_ended (gz_comment h) @ ?check @ rest)"
    "?d = ((?head @ gz_extra_bytes h) @ zero_ended (gz_name h)) @ zero_ended (gz_comment h) @ (?check @ rest)"
    by (simp_all add: gz_header_def)
  have "gz_skip ?d (?zn + ?zc) (length (?head @ gz_extra_bytes h))
      = gz_skip ?d ?zc (length ((?head @ gz_extra_bytes h) @ zero_ended (gz_name h)))"
    using gz_skip_option[OF n, of "?head @ gz_extra_bytes h" "zero_ended (gz_comment h) @ ?check @ rest" ?zc]
    unfolding d(1)[symmetric] by (simp only: length_append)
  also have "\<dots> = gz_skip ?d (?zc + 0) (length ((?head @ gz_extra_bytes h) @ zero_ended (gz_name h)))"
    by simp
  also have "\<dots> = length (((?head @ gz_extra_bytes h) @ zero_ended (gz_name h)) @ zero_ended (gz_comment h))"
    using gz_skip_option[OF c, of "(?head @ gz_extra_bytes h) @ zero_ended (gz_name h)" "?check @ rest" 0]
    unfolding d(2)[symmetric] by (simp only: length_append gz_skip_0)
  finally have s: "gz_skip ?d (?zn + ?zc) (length (?head @ gz_extra_bytes h))
      = length (((?head @ gz_extra_bytes h) @ zero_ended (gz_name h)) @ zero_ended (gz_comment h))" .
  have "length ?check = (?f AND 2)" using assms by (auto simp: gz_ok_def gz_flags_bits split: option.splits)
  then show ?thesis
    unfolding gzs_def Let_def b e gz_flags_bits(3,4) s by (simp add: gz_header_def)
qed

lemma gzl_le_bytes: "n < 2 ^ 32 \<Longrightarrow> gzl (d @ le_bytes 4 (int n)) = n"
proof -
  assume n: "n < 2 ^ 32"
  obtain a b c e where l: "le_bytes 4 (int n) = [a, b, c, e]"
    by (simp add: numeral_eq_Suc)
  have "unat a + 2 ^ 8 * unat b < 2 ^ 16" "unat a + 2 ^ 8 * unat b + 2 ^ 16 * unat c < 2 ^ 24"
    using unat_byte[of a] unat_byte[of b] unat_byte[of c] by simp_all
  moreover have "unat a < 2 ^ 8" using unat_byte[of a] by simp
  ultimately have "unat a OR push_bit 8 (unat b) OR push_bit 16 (unat c) OR push_bit 24 (unat e)
      = unat a + 2 ^ 8 * unat b + 2 ^ 16 * unat c + 2 ^ 24 * unat e"
    by (simp only: or.assoc[symmetric] or_disjoint)
  also have "\<dots> = stream (le_bytes 4 (int n))" by (simp add: l)
  also have "\<dots> = n" using n by (simp add: stream_le_bytes)
  finally show "gzl (d @ le_bytes 4 (int n)) = n"
    by (simp add: gzl_def l byte_back_def byte_at_def nth_append)
qed

section \<open>A zlib stream\<close>

definition zlib_head_ok :: "8 word \<Rightarrow> 8 word \<Rightarrow> bool" where
  "zlib_head_ok cmf flg \<longleftrightarrow> unat cmf AND 15 = 8 \<and> unat cmf div 16 \<le> 7
     \<and> (256 * unat cmf + unat flg) mod 31 = 0 \<and> \<not> bit flg 5"

definition zlib :: "8 word \<Rightarrow> 8 word \<Rightarrow> bytes \<Rightarrow> block list \<Rightarrow> bytes" where
  "zlib cmf flg adler bs = [cmf, flg] @ deflate bs @ adler"

lemma zls_head:
  assumes "zlib_head_ok cmf flg"
  shows "\<not> not_zlib ([cmf, flg] @ rest)" and "zls ([cmf, flg] @ rest) None = Inr 2"
    and "byte_at ([cmf, flg] @ rest) 0 \<noteq> 31"
proof -
  have b: "byte_at ([cmf, flg] @ rest) 0 = unat cmf" "byte_at ([cmf, flg] @ rest) 1 = unat flg"
    by (simp_all add: byte_at_def)
  have o: "push_bit 8 (unat cmf) OR unat flg = 256 * unat cmf + unat flg"
    using or_disjoint[of "unat flg" 8 "unat cmf"] unat_byte[of flg] by (simp add: or.commute)
  show n: "\<not> not_zlib ([cmf, flg] @ rest)"
    using assms unfolding not_zlib_def b o zlib_head_ok_def by (simp add: drop_bit_eq_div)
  have f: "\<not> bit (unat flg) 5" using assms by (simp add: zlib_head_ok_def bit_unsigned_iff)
  have "drop_bit 5 (unat flg) AND 1 = 0"
    using f by (simp add: bit_iff_odd_drop_bit and_one_eq odd_iff_mod_2_eq_one)
  moreover have "drop_bit 3 (unat flg) AND 4 = 0"
  proof (rule bit_eqI)
    fix n
    have "bit (4 :: nat) n \<longleftrightarrow> n = 2" using bit_exp_iff[of 2 n, where 'a = nat] by auto
    then show "bit (drop_bit 3 (unat flg) AND 4) n \<longleftrightarrow> bit (0 :: nat) n"
      using f by (auto simp: bit_and_iff bit_drop_bit_eq)
  qed
  ultimately show "zls ([cmf, flg] @ rest) None = Inr 2"
    using n unfolding zls_def b by simp
  show "byte_at ([cmf, flg] @ rest) 0 \<noteq> 31"
    using assms unfolding b zlib_head_ok_def by auto
qed

text \<open>A gzip member is unpacked to the bytes it was made of.\<close>

lemma gunzip_member:
  assumes "bs \<noteq> []" and "blocks_ok [] bs" and "gz_ok h" and "length crc = 4"
    and "length (inflated bs) < 2 ^ 32"
  shows "decompressSync (gzip h crc bs) None None = Some (Inr (inflated bs))"
proof -
  let ?d = "gzip h crc bs" and ?n = "length (gz_header h)"
  have g: "gzs ?d = Inr ?n" unfolding gzip_def by (rule gzs_header[OF assms(3)])
  have l: "length ?d = ?n + length (deflate bs) + 8" using assms(4) by (simp add: gzip_def)
  have s: "drop ?n (take (length ?d - 8) ?d) = deflate bs" using assms(4) by (simp add: gzip_def)
  have "gzl ?d = length (inflated bs)"
    using gzl_le_bytes[OF assms(5), of "gz_header h @ deflate bs @ crc"] by (simp add: gzip_def)
  then have "inflt (deflate bs) (Some (replicate (gzl ?d) 0)) None = Some (Inr (inflated bs))"
    using inflt_read(2)[OF assms(1,2) deflate_read[OF assms(2), of "[]", simplified]] by simp
  moreover have "byte_at ?d 0 = 31" "byte_at ?d 1 = 139" "byte_at ?d 2 = 8"
    by (simp_all add: gzip_def gz_header_def byte_at_def)
  ultimately show ?thesis
    using g l s by (simp add: decompressSync_def gunzipSync_def)
qed

section \<open>Properties\<close>

text \<open>
  C18: The decoding tables decode every prefix code. For all lengths of codes that fit together, the
  table \<^verbatim>\<open>hMap\<close> builds gives, for the code of each symbol and whatever bits follow it, that symbol and
  the number of bits to go on.
\<close>

theorem hMap_decodes:
  assumes "code_ok cd" and "has_code cd i"
  shows "tab (hMap cd (max_of cd) True) (take_bit (max_of cd) (rev_bits (cd ! i) (code cd i) + 2 ^ (cd ! i) * rest))
    = 16 * i + cd ! i"
proof -
  have ne: "cd \<noteq> []" using assms(2) by (auto simp: has_code_def)
  have "take_bit (cd ! i) (drop_bit 0 (rev_bits (cd ! i) (code cd i) + 2 ^ (cd ! i) * rest)) = fst (code_field cd i)"
    using rev_bits_less[of "cd ! i" "code cd i"] by (simp add: take_bit_eq_mod code_field_def)
  from read_symbol[OF decodes_max[OF assms(1) ne] assms(2) this] show ?thesis by simp
qed

lemma hMap_decodes_witness:
  "tab (hMap [2, 1, 2] (max_of [2, 1, 2]) True) (take_bit (max_of [2, 1, 2]) (rev_bits ([2, 1, 2] ! 2) (code [2, 1, 2] 2)
      + 2 ^ ([2, 1, 2] ! 2) * 5)) = 16 * 2 + [2, 1, 2] ! 2"
  by (rule hMap_decodes) (simp_all add: code_ok_def part_def has_code_def)

text \<open>A stream with a block of each kind, for the instances.\<close>

definition demo_codes :: codes where
  "demo_codes = \<lparr>literals = 258, written = 18,
     run_code = [0, 2, 2, 0, 0, 0, 0, 0, 0, 0, 0, 0, 0, 0, 0, 0, 0, 0, 1],
     runs = [Many_zeros 97, Len 1, Many_zeros 138, Many_zeros 20, Len 2, Len 2, Len 1]\<rparr>"

definition demo_blocks :: "block list" where
  "demo_blocks = [Plain [104, 105], Fixed [Lit 98, Ref 2 0 1 0], Own demo_codes [Lit 97, Ref 0 0 0 0]]"

lemma demo_lists:
  "code_list demo_codes = replicate 97 0 @ [1] @ replicate 138 0 @ replicate 20 0 @ [2, 2, 1]"
  "lit_code demo_codes = replicate 97 0 @ [1] @ replicate 138 0 @ replicate 20 0 @ [2, 2]"
  "dist_code demo_codes = [1]"
  by (simp_all add: lit_code_def dist_code_def code_list_def demo_codes_def)

lemma demo_codes_ok: "codes_ok demo_codes"
proof -
  have "list_all (\<lambda>k. run_code demo_codes ! (code_order ! k) = 0) [18..<19]"
    by (simp add: demo_codes_def code_order_def)
  moreover have "runs_ok (run_code demo_codes) [] (runs demo_codes)"
    by (simp add: demo_codes_def has_code_def)
  moreover have "code_ok (run_code demo_codes)" by (simp add: demo_codes_def code_ok_def part_def)
  moreover have "code_ok (lit_code demo_codes)" "code_ok (dist_code demo_codes)"
    by (simp_all add: demo_lists code_ok_def part_def sum_list_replicate list_all_iff)
  ultimately show ?thesis
    by (simp add: codes_ok_def demo_lists) (simp add: demo_codes_def)
qed

lemma lz_copy_numeral: "lz_copy out d (numeral k) = lz_copy (out @ [out ! (length out - d)]) d (pred_numeral k)"
  by (simp add: numeral_eq_Suc)

lemma demo_blocks_ok: "demo_blocks \<noteq> []" "blocks_ok [] demo_blocks" "list_all block_runs demo_blocks"
  "inflated demo_blocks = [104, 105, 98, 105, 98, 105, 98, 105, 97, 97, 97, 97]"
proof -
  have f: "has_code fixed_literals 98" "has_code fixed_literals 259" "has_code fixed_distances 1"
    by (simp_all add: has_code_def fixed_literals_eq flt_def fixed_distances_def nth_append)
  have o: "has_code (lit_code demo_codes) 97" "has_code (lit_code demo_codes) 256"
    "has_code (lit_code demo_codes) 257" "has_code (dist_code demo_codes) 0"
    by (simp_all add: has_code_def demo_lists nth_append)
  show "blocks_ok [] demo_blocks" "demo_blocks \<noteq> []" "list_all block_runs demo_blocks"
    "inflated demo_blocks = [104, 105, 98, 105, 98, 105, 98, 105, 97, 97, 97, 97]"
    using f o demo_codes_ok
    by (simp_all add: demo_blocks_def inflated_def length_extra_def dist_extra_def length_base_def dist_base_def
        ref_dist_def lz_copy_numeral)
qed

text \<open>
  C8: Inflating undoes deflating. Whatever blocks a stream is made of (stored bytes, the fixed codes, or
  codes of a block's own written as runs, with literals and matches in any encoding), the raw stream and
  the one in a zlib container give back exactly the bytes the blocks stand for, as long as no block has
  more than 131072 literals in a row, for which the buffer of the routine does not grow.
\<close>

theorem inflate_roundtrip:
  assumes "bs \<noteq> []" and "blocks_ok [] bs" and "list_all block_runs bs"
    and "zlib_head_ok cmf flg" and "length adler = 4"
  shows "inflateSync (deflate bs) None None = Some (Inr (inflated bs))
    \<and> decompressSync (zlib cmf flg adler bs) None None = Some (Inr (inflated bs))"
proof
  have r: "inflt (deflate bs) None None = Some (Inr (inflated bs))"
    using inflt_read(1)[OF assms(1,2) deflate_read[OF assms(2), of "[]", simplified] assms(3)] .
  then show "inflateSync (deflate bs) None None = Some (Inr (inflated bs))" by (simp add: inflateSync_def)
  have d: "drop 2 (take (length (zlib cmf flg adler bs) - 4) (zlib cmf flg adler bs)) = deflate bs"
    using assms(5) by (simp add: zlib_def)
  show "decompressSync (zlib cmf flg adler bs) None None = Some (Inr (inflated bs))"
    using r zls_head[OF assms(4), of "deflate bs @ adler"] d
    unfolding decompressSync_def unzlibSync_def by (simp only: flip: zlib_def) simp
qed

lemma inflate_roundtrip_witness:
  "inflateSync (deflate demo_blocks) None None = Some (Inr [104, 105, 98, 105, 98, 105, 98, 105, 97, 97, 97, 97])
    \<and> decompressSync (zlib 120 156 [0, 0, 0, 0] demo_blocks) None None
      = Some (Inr [104, 105, 98, 105, 98, 105, 98, 105, 97, 97, 97, 97])"
  unfolding demo_blocks_ok(4)[symmetric]
proof (rule inflate_roundtrip)
  show "zlib_head_ok 120 156" by (simp add: zlib_head_ok_def)
qed (simp_all add: demo_blocks_ok)

text \<open>
  C19: A gzip member is unpacked to exactly the bytes it was made of: whichever of the optional fields its
  header has, and without a bound on the literals in a row, since the buffer is as large as the member
  says. The check of the data at its end is not read.
\<close>

theorem gunzip_roundtrip:
  assumes "bs \<noteq> []" and "blocks_ok [] bs" and "gz_ok h" and "length crc = 4"
    and "length (inflated bs) < 2 ^ 32"
  shows "decompressSync (gzip h crc bs) None None = Some (Inr (inflated bs))"
  using assms by (rule gunzip_member)

definition demo_fields :: gz_fields where
  "demo_fields = \<lparr>gz_text = False, gz_info = [0, 0, 0, 0, 0, 3], gz_extra = Some [7], gz_name = Some [97, 46, 98],
     gz_comment = None, gz_check = Some [1, 2]\<rparr>"

lemma gunzip_roundtrip_witness:
  "decompressSync (gzip demo_fields [0, 0, 0, 0] demo_blocks) None None
    = Some (Inr [104, 105, 98, 105, 98, 105, 98, 105, 97, 97, 97, 97])"
  unfolding demo_blocks_ok(4)[symmetric]
  by (rule gunzip_roundtrip) (simp_all add: demo_blocks_ok demo_fields_def gz_ok_def)

end
