(* ===== verification/Packed_Archive.thy ===== *)
theory Packed_Archive
  imports Transparency Decompress Inflate_Total
begin

text \<open>
  The reader over the bundled inflate routine: an archive whose directory and tiles are gzip members,
  on a platform without \<^verbatim>\<open>DecompressionStream\<close>.
\<close>

text \<open>\<^verbatim>\<open>decompressSync\<close> as \<^verbatim>\<open>defaultDecompress\<close> calls it. It always returns.\<close>

definition bundled :: "bytes \<Rightarrow> js_error + bytes" where
  "bundled b = the (decompressSync b None None)"

lemma bundled_member:
  "decompressSync b None None = Some r \<Longrightarrow> bundled b = r"
  by (simp add: bundled_def)

definition bundled_env :: "'s env \<Rightarrow> bool" where
  "bundled_env env \<longleftrightarrow> e_decompress env = defaultDecompress None bundled
     \<and> e_tile_decompress env = defaultDecompress None bundled"

text \<open>A gzip member of given contents.\<close>

definition is_member :: "bytes \<Rightarrow> bytes \<Rightarrow> bool" where
  "is_member b d \<longleftrightarrow> (\<exists>h crc bs. b = gzip h crc bs \<and> gz_ok h \<and> length crc = 4
     \<and> bs \<noteq> [] \<and> blocks_ok [] bs \<and> inflated bs = d \<and> length d < 2 ^ 32)"

lemma default_member:
  assumes "is_member b d"
  shows "defaultDecompress None bundled b 2 = Inr d"
proof -
  obtain h crc bs where b: "b = gzip h crc bs" "gz_ok h" "length crc = 4" "bs \<noteq> []" "blocks_ok [] bs"
    "inflated bs = d" "length d < 2 ^ 32"
    using assms by (auto simp: is_member_def)
  then have "decompressSync b None None = Some (Inr d)"
    using gunzip_member[of bs h crc] by simp
  then show ?thesis by (simp add: defaultDecompress_def compression_code_def bundled_member)
qed

definition packed_ok :: "header \<Rightarrow> entry list \<Rightarrow> bytes \<Rightarrow> bytes \<Rightarrow> (entry \<Rightarrow> bytes) \<Rightarrow> bool" where
  "packed_ok h es rd tiles dat \<longleftrightarrow>
     built_ok h es rd tiles \<and> internalCompression h = 2 \<and> tileCompression h = 2
     \<and> is_member rd (serializeIndex es) \<and> (\<forall>e \<in> set es. is_member (stored_tile tiles e) (dat e))"

text \<open>
  C3: A compressed archive is served as what was packed into it. When the directory and every tile are
  gzip members and the platform cannot unpack them, the reader returns, for every tile of the levels 0
  to 26, the bytes that were packed for it, and nothing for a tile the directory does not have: reading
  the header, unpacking and parsing the directory, the search, reading the range and unpacking the tile
  fit together.
\<close>

theorem packed_archive_roundtrip:
  assumes "packed_ok h es rd tiles dat" and "bundled_env env" and "e_get env = file_get" and "etag h = None"
    and "z \<le> 26" and "0 \<le> x" and "x < 2 ^ z" and "0 \<le> y" and "y < 2 ^ z"
  shows "contents (fst (getZxy promise_ops env z (of_int x) (of_int y)
      (new_SharedPromiseCache n, \<lparr>file_name = name, content = built_archive h rd tiles\<rparr>)))
    = Inr (if minZoom h \<le> int z \<and> int z \<le> maxZoom h then
        map_option dat (find_linear es (tile_base z + hil_enc z (x, y))) else None)"
proof -
  have "unpacks env h es rd tiles dat"
    using assms(1,2) by (simp add: unpacks_def packed_ok_def bundled_env_def default_member)
  moreover have "built_ok h es rd tiles" using assms(1) by (simp add: packed_ok_def)
  ultimately show ?thesis using built_getZxy assms(3-9) by blast
qed

text \<open>An instance: a directory and one tile, each a member of one stored block.\<close>

definition plain_fields :: gz_fields where
  "plain_fields = \<lparr>gz_text = False, gz_info = [0, 0, 0, 0, 0, 3], gz_extra = None, gz_name = None,
     gz_comment = None, gz_check = None\<rparr>"

definition member :: "bytes \<Rightarrow> bytes" where
  "member d = gzip plain_fields [0, 0, 0, 0] [Plain d]"

lemma member_ok: "length d < 2 ^ 16 \<Longrightarrow> is_member (member d) d"
  unfolding is_member_def member_def
  apply (rule exI[of _ plain_fields], rule exI[of _ "[0, 0, 0, 0]"], rule exI[of _ "[Plain d]"])
  apply (simp add: plain_fields_def gz_ok_def inflated_def)
  done

lemma length_member: "length (member d) = length d + 23"
  by (simp add: member_def gzip_def gz_header_def plain_fields_def gz_extra_bytes_def zero_ended_def deflate_def
      to_bytes_def width_bytes)

definition packed_header :: header where
  "packed_header = demo_header\<lparr>rootDirectoryLength := 28, internalCompression := 2, tileCompression := 2,
     tileDataOffset := 155\<rparr>"

definition packed_dir :: "entry list" where
  "packed_dir = [\<lparr>tileId = 0, offset = 0, len = 25, runLength = 1\<rparr>]"

definition packed_env :: "file_source env" where
  "packed_env = demo_env\<lparr>e_decompress := defaultDecompress None bundled,
     e_tile_decompress := defaultDecompress None bundled\<rparr>"

lemma packed_dir_length: "length (serializeIndex packed_dir) = 5"
  by code_simp

lemma packed_demo_ok:
  "packed_ok packed_header packed_dir (member (serializeIndex packed_dir)) (member [7, 9]) (\<lambda>_. [7, 9])"
proof -
  have "header_ok packed_header"
    using demo_simple_ok by (simp add: simple_ok_def header_ok_def packed_header_def u64_ok_def u8_ok_def)
  moreover have "member (serializeIndex packed_dir) \<noteq> []" using length_member by (metis add_is_0 list.size(3) zero_neq_numeral)
  moreover have "strictly_sorted packed_dir" by (simp add: packed_dir_def strictly_sorted_def ordered_by_def)
  moreover have "stored_tile (member [7, 9]) \<lparr>tileId = 0, offset = 0, len = 25, runLength = 1\<rparr> = member [7, 9]"
    by (simp add: stored_tile_def length_member)
  ultimately show ?thesis
    using demo_simple_ok
    by (simp add: packed_ok_def built_ok_def simple_ok_def length_member packed_dir_length member_ok packed_header_def
        demo_header_def sample_header_def) (simp add: packed_dir_def dir_ok_def entry_ok_def member_ok)
qed

lemma packed_archive_roundtrip_witness:
  "contents (fst (getZxy promise_ops packed_env 0 (of_int 0) (of_int 0) (new_SharedPromiseCache 100,
      \<lparr>file_name = ''demo'', content = built_archive packed_header (member (serializeIndex packed_dir)) (member [7, 9])\<rparr>)))
    = Inr (Some [7, 9])"
proof -
  have "find_linear packed_dir 0 = Some \<lparr>tileId = 0, offset = 0, len = 25, runLength = 1\<rparr>" by code_simp
  moreover have "bundled_env packed_env" by (simp add: bundled_env_def packed_env_def)
  ultimately show ?thesis
    using packed_archive_roundtrip[OF packed_demo_ok, of packed_env 0 0 0 100 "''demo''"]
    by (simp add: packed_header_def packed_env_def demo_env_def demo_header_def sample_header_def)
qed

end
