(* ===== verification/Map_Protocol.thy ===== *)
theory Map_Protocol
  imports Transparency
begin

text \<open>
  The MapLibre adapters of \<^verbatim>\<open>src/app/static/js/pmtiles.js\<close>: the class \<^verbatim>\<open>Protocol\<close>, which
  answers the requests of the map for \<^verbatim>\<open>pmtiles://\<close> URLs with one \<^verbatim>\<open>PMTiles\<close> object per
  archive, and \<^verbatim>\<open>v3compat\<close>, which wraps its handler for the callbacks of older versions. The
  objects are shared by reference, so they live in a store and the map of the protocol holds their
  addresses.
\<close>

section \<open>The URL of a tile\<close>

text \<open>
  The regular expression \<^verbatim>\<open>/pmtiles:\/\/(.+)\/(\d+)\/(\d+)\/(\d+)/\<close>. A group of digits is
  followed by a slash or by nothing of the pattern, so the greedy choice is the only one to try;
  \<^verbatim>\<open>.+\<close> takes the longest prefix without a line terminator that lets the rest match; the pattern
  is not anchored, so the first place where it matches counts.
\<close>

definition digits_group :: "string \<Rightarrow> (string \<times> string) option" where
  "digits_group s =
     (case s of
        c # t \<Rightarrow> if c = CHR ''/'' \<and> takeWhile is_digit t \<noteq> [] then Some (takeWhile is_digit t, dropWhile is_digit t)
          else None
      | [] \<Rightarrow> None)"

definition tile_groups :: "string \<Rightarrow> (string \<times> string \<times> string) option" where
  "tile_groups s =
     Option.bind (digits_group s) (\<lambda>(z, s). Option.bind (digits_group s) (\<lambda>(x, s).
     Option.bind (digits_group s) (\<lambda>(y, s). Some (z, x, y))))"

definition line_terminator :: "string \<Rightarrow> bool" where
  "line_terminator s \<longleftrightarrow> s \<noteq> [] \<and> (code (hd s) \<in> {10, 13} \<or> map code (take 3 s) \<in> {[226, 128, 168], [226, 128, 169]})"

fun line_length :: "string \<Rightarrow> nat" where
  "line_length [] = 0"
| "line_length (c # s) = (if line_terminator (c # s) then 0 else Suc (line_length s))"

text \<open>The match of \<^verbatim>\<open>(.+)\<close> and the groups, with at most \<open>n\<close> characters for the first.\<close>

fun greedy :: "nat \<Rightarrow> string \<Rightarrow> (string \<times> string \<times> string \<times> string) option" where
  "greedy 0 s = None"
| "greedy (Suc n) s =
     (case tile_groups (drop (Suc n) s) of Some (z, x, y) \<Rightarrow> Some (take (Suc n) s, z, x, y) | None \<Rightarrow> greedy n s)"

definition match_here :: "string \<Rightarrow> (string \<times> string \<times> string \<times> string) option" where
  "match_here s = (if starts_with ''pmtiles://'' s then greedy (line_length (drop 10 s)) (drop 10 s) else None)"

fun match_url :: "string \<Rightarrow> (string \<times> string \<times> string \<times> string) option" where
  "match_url [] = None"
| "match_url (c # s) = (case match_here (c # s) of Some m \<Rightarrow> Some m | None \<Rightarrow> match_url s)"

text \<open>
  \<^verbatim>\<open>+z\<close> of a group of digits is a whole number or \<^verbatim>\<open>Infinity\<close>. The reader takes zoom and
  coordinates as such numbers; an infinite one is passed as a number above every bound they are
  compared with, which throws.
\<close>

definition coordinate :: "string \<Rightarrow> rat" where
  "coordinate ds = (case to_number ds of Fin q \<Rightarrow> q | Zero_neg \<Rightarrow> 0 | Inf s \<Rightarrow> 2 ^ 1024 | NaN \<Rightarrow> 0)"

definition zoom :: "string \<Rightarrow> nat" where
  "zoom ds = nat \<lfloor>coordinate ds\<rfloor>"

section \<open>Tile types\<close>

datatype tile_type = Unknown_type | Mvt | Png | Jpeg | Webp | Avif

definition tile_type_code :: "tile_type \<Rightarrow> int" where
  "tile_type_code t = (case t of Unknown_type \<Rightarrow> 0 | Mvt \<Rightarrow> 1 | Png \<Rightarrow> 2 | Jpeg \<Rightarrow> 3 | Webp \<Rightarrow> 4 | Avif \<Rightarrow> 5)"

section \<open>The state of the protocol\<close>

text \<open>
  A \<^verbatim>\<open>PMTiles\<close> object: the operations of its cache, its source with the decompressors, and the
  state of both. The protocol holds the map from URLs to objects.
\<close>

record ('c, 's) archive_object =
  ob_ops :: "('c, 's) cache_ops"
  ob_env :: "'s env"
  ob_state :: "'c \<times> 's"

record ('c, 's) protocol =
  objects :: "('c, 's) archive_object list"
  tiles :: "string \<Rightarrow> nat option"
  metadata :: bool

definition new_Protocol :: "('c, 's) archive_object list \<Rightarrow> jsval \<Rightarrow> ('c, 's) protocol" where
  "new_Protocol store options =
     \<lparr>objects = store, tiles = Map.empty, metadata = truthy (get_prop options ''metadata'')\<rparr>"

definition add :: "nat \<Rightarrow> ('c, 's) protocol \<Rightarrow> ('c, 's) protocol" where
  "add p s = s\<lparr>tiles := (tiles s)(e_key (ob_env (objects s ! p)) \<mapsto> p)\<rparr>"

definition get :: "string \<Rightarrow> ('c, 's) protocol \<Rightarrow> nat option" where
  "get u s = tiles s u"

text \<open>The object of a URL; \<open>create\<close> is \<^verbatim>\<open>new PMTiles(url)\<close>.\<close>

definition object_for ::
  "(string \<Rightarrow> ('c, 's) archive_object) \<Rightarrow> string \<Rightarrow> ('c, 's) protocol \<Rightarrow> nat \<times> ('c, 's) protocol" where
  "object_for create u s =
     (case tiles s u of
        Some p \<Rightarrow> (p, s)
      | None \<Rightarrow> (length (objects s), s\<lparr>objects := objects s @ [create u], tiles := (tiles s)(u \<mapsto> length (objects s))\<rparr>))"

definition run_on ::
  "nat \<Rightarrow> (('c, 's) cache_ops \<Rightarrow> 's env \<Rightarrow> 'c \<times> 's \<Rightarrow> (js_error + 'a) \<times> 'c \<times> 's) \<Rightarrow> ('c, 's) protocol
    \<Rightarrow> (js_error + 'a) \<times> ('c, 's) protocol" where
  "run_on p f s =
     (let ob = objects s ! p in
      case f (ob_ops ob) (ob_env ob) (ob_state ob) of
        (r, st) \<Rightarrow> (r, s\<lparr>objects := (objects s)[p := ob\<lparr>ob_state := st\<rparr>]\<rparr>))"

section \<open>The handler\<close>

record params =
  p_type :: string
  p_url :: string

datatype reply_data = D_json jsval | D_bytes bytes | D_null

record reply =
  rp_data :: reply_data
  rp_cacheControl :: "string option"
  rp_expires :: "string option"

definition only_data :: "reply_data \<Rightarrow> reply" where
  "only_data d = \<lparr>rp_data = d, rp_cacheControl = None, rp_expires = None\<rparr>"

text \<open>The answer to a request for the TileJSON, with the metadata or from the header alone.\<close>

definition plain_json :: "string \<Rightarrow> any_header \<Rightarrow> jsval" where
  "plain_json u h = Obj [
     (''tiles'', Arr [Str (u @ ''/{z}/{x}/{y}'')]),
     (''minzoom'', Num (h_minZoom h)),
     (''maxzoom'', Num (h_maxZoom h)),
     (''bounds'', Arr (map Num (h_bounds h)))]"

definition json_request ::
  "bool \<Rightarrow> string \<Rightarrow> ('c, 's) cache_ops \<Rightarrow> 's env \<Rightarrow> 'c \<times> 's \<Rightarrow> (js_error + reply) \<times> 'c \<times> 's" where
  "json_request with_metadata u ops env st =
     (if with_metadata then bind_st (getTileJson ops env u st) (\<lambda>j st. (Inr (only_data (D_json j)), st))
      else bind_st (getHeader ops env st) (\<lambda>h st. (Inr (only_data (D_json (plain_json u h))), st)))"

definition tile_reply :: "any_header \<Rightarrow> tile option \<Rightarrow> reply" where
  "tile_reply h resp =
     (case resp of
        Some t \<Rightarrow> \<lparr>rp_data = D_bytes (tile_data t), rp_cacheControl = tile_cacheControl t, rp_expires = tile_expires t\<rparr>
      | None \<Rightarrow> only_data (if h_tileType h = tile_type_code Mvt then D_bytes [] else D_null))"

definition tile_request ::
  "nat \<Rightarrow> rat \<Rightarrow> rat \<Rightarrow> ('c, 's) cache_ops \<Rightarrow> 's env \<Rightarrow> 'c \<times> 's \<Rightarrow> (js_error + reply) \<times> 'c \<times> 's" where
  "tile_request z x y ops env st =
     bind_st (getHeader ops env st) (\<lambda>h st.
     bind_st (getZxy ops env z x y st) (\<lambda>resp st. (Inr (tile_reply h resp), st)))"

text \<open>
  \<^verbatim>\<open>tilev4\<close>. The map calls it for URLs that start with \<^verbatim>\<open>pmtiles://\<close>; dropping ten
  characters is \<^verbatim>\<open>substr(10)\<close> when these are ASCII.
\<close>

definition tilev4 ::
  "(string \<Rightarrow> ('c, 's) archive_object) \<Rightarrow> params \<Rightarrow> ('c, 's) protocol \<Rightarrow> (js_error + reply) \<times> ('c, 's) protocol" where
  "tilev4 create ps s =
     (if p_type ps = ''json'' then
        (case object_for create (drop 10 (p_url ps)) s of
           (p, s) \<Rightarrow> run_on p (json_request (metadata s) (p_url ps)) s)
      else
        (case match_url (p_url ps) of
           None \<Rightarrow> (Inl (Error ''Invalid PMTiles protocol URL''), s)
         | Some (u, z, x, y) \<Rightarrow>
             (case object_for create u s of
                (p, s) \<Rightarrow> run_on p (tile_request (zoom z) (coordinate x) (coordinate y)) s)))"

section \<open>Callbacks\<close>

text \<open>
  \<^verbatim>\<open>v3compat\<close>, given a callback: its calls, in order, when the handler has settled. The callback
  is the parameter \<open>throws\<close>, the exception of a call if there is one; what the second call
  throws is not caught.
\<close>

datatype callback_call = Done reply_data string string | Failed js_error

definition or_empty :: "string option \<Rightarrow> string" where
  "or_empty t = (case t of Some u \<Rightarrow> u | None \<Rightarrow> [])"

definition first_call :: "js_error + reply \<Rightarrow> callback_call" where
  "first_call r = (case r of
     Inr rp \<Rightarrow> Done (rp_data rp) (or_empty (rp_cacheControl rp)) (or_empty (rp_expires rp))
   | Inl e \<Rightarrow> Failed e)"

definition v3compat :: "(callback_call \<Rightarrow> js_error option) \<Rightarrow> js_error + reply \<Rightarrow> callback_call list" where
  "v3compat throws r = first_call r # (case throws (first_call r) of Some e \<Rightarrow> [Failed e] | None \<Rightarrow> [])"

end
