(* ===== verification/Map_Protocol_Props.thy ===== *)
theory Map_Protocol_Props
  imports Map_Protocol V2_Archive
begin

text \<open>
  The protocol handler over the reader: the URL of a tile is taken apart into what it was made of, one
  object serves all requests for an archive, and the answer is what the archive holds.
\<close>

section \<open>Numbers in URLs\<close>

lemma digit_code: "is_digit c \<longleftrightarrow> 48 \<le> code c \<and> code c \<le> 57"
  by (auto simp: is_digit_def digit_value_def code_def)

lemma trim_digits:
  assumes "list_all is_digit ds"
  shows "trim_js ds = ds"
proof (cases "ds = []")
  case True
  then show ?thesis by (simp add: trim_js_def trim_start.simps trim_end.simps ws_len_def ws_end_def)
next
  case False
  have w: "ws_len (drop i ds) = 0" if "i < length ds" for i
    unfolding Cons_nth_drop_Suc[OF that, symmetric] using assms that by (intro digit_start(1)) (simp add: list_all_length)
  have "trim_start ds = ds" using w[of 0] False by (subst trim_start.simps) simp
  moreover have "ws_end ds = 0" using w[of "length ds - 1"] w[of "length ds - 2"] w[of "length ds - 3"] False
    by (auto simp: ws_end_def Let_def)
  ultimately show ?thesis by (simp add: trim_js_def trim_end.simps)
qed

lemma to_number_digits:
  assumes "list_all is_digit ds" and "ds \<noteq> []"
  shows "to_number ds = num_of_literal False (of_int (digits_value ds))"
proof -
  obtain c t where c: "ds = c # t" "is_digit c" using assms by (cases ds) auto
  have "to_lower (take 2 ds) \<notin> {''0x'', ''0o'', ''0b''}"
  proof (cases t)
    case (Cons d u)
    then have "is_digit d" using assms(1) c by simp
    then show ?thesis using c Cons by (auto simp: to_lower_def digit_code code_def split: if_splits)
  qed (simp add: c to_lower_def)
  moreover have "parse_unsigned ds = Some (of_int (digits_value ds), [])"
    unfolding parse_unsigned_def takeWhile_all_digits[OF assms(1)] using assms(2) by (simp add: parse_exponent_def)
  moreover have "ds \<noteq> ''Infinity''" using digit_start(3)[OF c(2), of t] c(1) by (auto simp: starts_with_def)
  ultimately show ?thesis
    using digit_start(2)[OF c(2), of t] assms(2) by (simp add: to_number_def trim_digits[OF assms(1)] c(1)[symmetric])
qed

lemma num_text_digits:
  assumes "0 \<le> i" and "i \<le> 2 ^ 53"
  shows "list_all is_digit (num_text (of_int i)) \<and> num_text (of_int i) \<noteq> []
    \<and> fl (of_int (digits_value (num_text (of_int i)))) = of_int i"
proof (cases "i = 0")
  case True
  then show ?thesis by (simp add: num_text_def is_digit_def digit_value_def digits_value_def)
next
  case False
  have f: "fl (of_int i :: rat) = of_int i" using assms by (simp add: fl_of_int)
  have "(of_int i :: rat) \<le> 2 ^ 53" using assms(2) by (metis of_int_le_iff of_int_numeral of_int_power)
  then have "\<bar>of_int i :: rat\<bar> < 2 ^ 1024" using assms(1) by simp
  then have "double (of_int i)" using f by (simp add: double_def)
  then have "num_text (of_int i) \<noteq> []"
    using parse_positive(5)[of "of_int i"] assms(1) False by (metis list.distinct(1) of_int_0_less_iff order_le_less prod.exhaust)
  then show ?thesis using num_text_int[OF f assms(1)] assms(2) by simp
qed

lemma coordinate_text:
  assumes "0 \<le> i" and "i \<le> 2 ^ 53"
  shows "coordinate (num_text (of_int i)) = of_int i"
proof -
  note d = num_text_digits[OF assms]
  have "(of_int i :: rat) \<le> 2 ^ 53" using assms(2) by (metis of_int_le_iff of_int_numeral of_int_power)
  then have "\<not> 2 ^ 1024 \<le> \<bar>of_int i :: rat\<bar>" using assms(1) by simp
  then show ?thesis
    using d assms(1)
    by (auto simp: coordinate_def to_number_digits num_of_literal_def round_num_def signed_zero_def Let_def)
qed

section \<open>Taking the URL apart\<close>

lemma digits_groupI:
  assumes "list_all is_digit ds" and "ds \<noteq> []" and "r = [] \<or> \<not> is_digit (hd r)"
  shows "digits_group (CHR ''/'' # ds @ r) = Some (ds, r)"
proof -
  have "takeWhile is_digit r = []" "dropWhile is_digit r = r" using assms(3) by (cases r; simp)+
  then show ?thesis using assms(1,2) by (simp add: digits_group_def takeWhile_digits)
qed

lemma digits_group_count:
  assumes "digits_group s = Some (ds, r)"
  shows "count_list s (CHR ''/'') = Suc (count_list r (CHR ''/''))"
proof -
  obtain t where t: "s = CHR ''/'' # t" "r = dropWhile is_digit t"
    using assms by (auto simp: digits_group_def split: list.splits if_splits)
  have "count_list (takeWhile is_digit t) (CHR ''/'') = 0"
    using set_takeWhileD[of _ is_digit t] by (force simp: count_list_0_iff is_digit_def digit_value_def)
  then show ?thesis
    using count_list_append[of "takeWhile is_digit t" "dropWhile is_digit t"] t by simp
qed

lemma tile_groups_count:
  assumes "tile_groups s = Some g"
  shows "3 \<le> count_list s (CHR ''/'')"
  using assms by (auto simp: tile_groups_def Option.bind_eq_Some_conv dest!: digits_group_count)

definition slashed :: "string \<Rightarrow> string \<Rightarrow> string \<Rightarrow> string" where
  "slashed z x y = CHR ''/'' # z @ CHR ''/'' # x @ CHR ''/'' # y"

definition digits :: "string \<Rightarrow> bool" where
  "digits s \<longleftrightarrow> list_all is_digit s \<and> s \<noteq> []"

lemma tile_groups_slashed:
  assumes "digits z" and "digits x" and "digits y" and "ext = [] \<or> \<not> is_digit (hd ext)"
  shows "tile_groups (slashed z x y @ ext) = Some (z, x, y)"
proof -
  have s: "\<not> is_digit (CHR ''/'')" by (simp add: is_digit_def digit_value_def)
  have "digits_group (CHR ''/'' # z @ CHR ''/'' # x @ CHR ''/'' # y @ ext) = Some (z, CHR ''/'' # x @ CHR ''/'' # y @ ext)"
    "digits_group (CHR ''/'' # x @ CHR ''/'' # y @ ext) = Some (x, CHR ''/'' # y @ ext)"
    "digits_group (CHR ''/'' # y @ ext) = Some (y, ext)"
    using assms s by (simp_all add: digits_groupI digits_def)
  then show ?thesis by (simp add: tile_groups_def slashed_def)
qed

lemma digits_count: "list_all is_digit ds \<Longrightarrow> count_list ds (CHR ''/'') = 0"
  by (auto simp: count_list_0_iff list_all_iff is_digit_def digit_value_def)

lemma greedy_longer:
  assumes "n \<le> length s" and "0 < n" and "tile_groups (drop n s) = Some (z, x, y)"
    and "\<And>k. n < k \<Longrightarrow> tile_groups (drop k s) = None" and "n \<le> m"
  shows "greedy m s = Some (take n s, z, x, y)"
  using assms(5)
proof (induction m)
  case (Suc m)
  show ?case
  proof (cases "n = Suc m")
    case True
    then show ?thesis using assms(3) by simp
  next
    case False
    then show ?thesis using Suc assms(4)[of "Suc m"] by simp
  qed
qed (use assms(2) in simp)

lemma count_list_drop_le: "count_list (drop k s) a \<le> count_list s a"
proof -
  have "count_list s a = count_list (take k s) a + count_list (drop k s) a"
    by (metis append_take_drop_id count_list_append)
  then show ?thesis by simp
qed

lemma greedy_slashed:
  assumes "digits z" and "digits x" and "digits y" and "ext = [] \<or> \<not> is_digit (hd ext)" and "CHR ''/'' \<notin> set ext"
    and "u \<noteq> []" and "length u \<le> m"
  shows "greedy m (u @ slashed z x y @ ext) = Some (u, z, x, y)"
proof -
  have rest: "tile_groups (drop k (u @ slashed z x y @ ext)) = None" if "length u < k" for k
  proof (rule ccontr)
    obtain j where j: "k = length u + Suc j" using \<open>length u < k\<close> less_iff_Suc_add by auto
    assume "tile_groups (drop k (u @ slashed z x y @ ext)) \<noteq> None"
    then have "3 \<le> count_list (drop k (u @ slashed z x y @ ext)) (CHR ''/'')" using tile_groups_count by blast
    also have "drop k (u @ slashed z x y @ ext) = drop j (z @ CHR ''/'' # x @ CHR ''/'' # y @ ext)"
      by (simp add: j slashed_def)
    also have "count_list \<dots> (CHR ''/'') \<le> count_list (z @ CHR ''/'' # x @ CHR ''/'' # y @ ext) (CHR ''/'')"
      by (rule count_list_drop_le)
    also have "\<dots> = 2" using assms(1-3,5) by (simp add: digits_count digits_def count_list_0_iff)
    finally show False by simp
  qed
  have "greedy m (u @ slashed z x y @ ext) = Some (take (length u) (u @ slashed z x y @ ext), z, x, y)"
    by (rule greedy_longer) (use assms rest tile_groups_slashed[OF assms(1-4)] in simp_all)
  then show ?thesis by simp
qed

text \<open>A text on one line, and one that ends no line whatever comes before it.\<close>

definition one_line :: "string \<Rightarrow> bool" where
  "one_line s \<longleftrightarrow> line_length s = length s"

definition plain_text :: "string \<Rightarrow> bool" where
  "plain_text s \<longleftrightarrow> list_all (\<lambda>c. code c < 128 \<and> code c \<noteq> 10 \<and> code c \<noteq> 13) s"

lemma plain_one_line: "plain_text s \<Longrightarrow> line_length s = length s"
  by (induction s) (auto simp: plain_text_def line_terminator_def)

lemma line_length_le: "line_length s \<le> length s"
  by (induction s) auto

lemma line_length_append:
  assumes "line_length u = length u" and "plain_text v"
  shows "line_length (u @ v) = length u + length v"
  using assms(1)
proof (induction u)
  case (Cons c u)
  then have "\<not> line_terminator (c # u)" "line_length u = length u" by (simp_all split: if_splits)
  moreover from this(1) have "\<not> line_terminator (c # u @ v)"
    using assms(2) by (cases u rule: remdups_adj.cases; cases v rule: remdups_adj.cases)
      (auto simp: line_terminator_def plain_text_def)
  ultimately show ?case using Cons.IH by simp
qed (simp add: plain_one_line assms(2))

lemma plain_digits: "list_all is_digit ds \<Longrightarrow> plain_text ds"
  by (auto simp: plain_text_def list_all_iff digit_code)

definition tile_url :: "string \<Rightarrow> nat \<Rightarrow> int \<Rightarrow> int \<Rightarrow> string \<Rightarrow> string" where
  "tile_url u z x y ext =
     ''pmtiles://'' @ u @ slashed (num_text (of_int (int z))) (num_text (of_int x)) (num_text (of_int y)) @ ext"

definition ext_ok :: "string \<Rightarrow> bool" where
  "ext_ok ext \<longleftrightarrow> plain_text ext \<and> CHR ''/'' \<notin> set ext \<and> (ext = [] \<or> \<not> is_digit (hd ext))"

lemma match_tile_url:
  assumes "u \<noteq> []" and "one_line u" and "ext_ok ext"
    and "int z \<le> 2 ^ 53" and "0 \<le> x" and "x \<le> 2 ^ 53" and "0 \<le> y" and "y \<le> 2 ^ 53"
  shows "match_url (tile_url u z x y ext)
    = Some (u, num_text (of_int (int z)), num_text (of_int x), num_text (of_int y))"
proof -
  let ?z = "num_text (of_int (int z))" and ?x = "num_text (of_int x)" and ?y = "num_text (of_int y)"
  have d: "digits ?z" "digits ?x" "digits ?y"
    using num_text_digits[of "int z"] num_text_digits[OF assms(5,6)] num_text_digits[OF assms(7,8)] assms(4)
    by (simp_all add: digits_def)
  have "plain_text (slashed ?z ?x ?y @ ext)"
    using d plain_digits assms(3) by (simp add: slashed_def digits_def plain_text_def ext_ok_def code_def)
  then have "line_length (u @ slashed ?z ?x ?y @ ext) = length u + length (slashed ?z ?x ?y @ ext)"
    using assms(2) line_length_append[of u] by (simp add: one_line_def)
  then have "match_here (tile_url u z x y ext) = Some (u, ?z, ?x, ?y)"
    using greedy_slashed[OF d, of ext u] assms(1,3)
    by (simp add: match_here_def tile_url_def starts_with_def ext_ok_def)
  then show ?thesis by (simp add: tile_url_def)
qed

lemma zoom_text: "int z \<le> 2 ^ 53 \<Longrightarrow> zoom (num_text (of_int (int z))) = z"
  using coordinate_text[of "int z"] by (simp add: zoom_def)

lemma tileTypeExt_ok: "ext_ok (tileTypeExt t)"
  by (simp add: tileTypeExt_def ext_ok_def plain_text_def code_def is_digit_def digit_value_def)

section \<open>One object per archive\<close>

definition protocol_ok :: "('c, 's) protocol \<Rightarrow> bool" where
  "protocol_ok s \<longleftrightarrow> (\<forall>u p. tiles s u = Some p \<longrightarrow> p < length (objects s))"

text \<open>The object a URL would be served by.\<close>

definition server_of ::
  "(string \<Rightarrow> ('c, 's) archive_object) \<Rightarrow> string \<Rightarrow> ('c, 's) protocol \<Rightarrow> ('c, 's) archive_object" where
  "server_of create u s = (case tiles s u of Some p \<Rightarrow> objects s ! p | None \<Rightarrow> create u)"

lemma object_for_cases:
  assumes "protocol_ok s"
  obtains p s1 where "object_for create u s = (p, s1)" and "p < length (objects s1)"
    and "objects s1 ! p = server_of create u s" and "tiles s1 = (tiles s)(u \<mapsto> p)" and "metadata s1 = metadata s"
    and "length (objects s1) = length (objects s) + (if u \<in> dom (tiles s) then 0 else 1)" and "protocol_ok s1"
    and "tiles s \<subseteq>\<^sub>m tiles s1"
proof (cases "tiles s u")
  case None
  show ?thesis
    by (rule that[of "length (objects s)"
          "s\<lparr>objects := objects s @ [create u], tiles := (tiles s)(u \<mapsto> length (objects s))\<rparr>"]) (use assms None in \<open>auto simp: object_for_def server_of_def protocol_ok_def map_le_def dom_def less_Suc_eq\<close>)
next
  case (Some p)
  show ?thesis
    by (rule that[of p s]) (use assms Some in \<open>auto simp: object_for_def server_of_def protocol_ok_def dom_def fun_upd_idem\<close>)
qed

lemma run_on_simps [simp]:
  "tiles (snd (run_on p f s)) = tiles s" "metadata (snd (run_on p f s)) = metadata s"
  "length (objects (snd (run_on p f s))) = length (objects s)"
  by (simp_all add: run_on_def Let_def split: prod.split)

lemma run_on_eq:
  assumes "p < length (objects s)" and "f (ob_ops (objects s ! p)) (ob_env (objects s ! p)) (ob_state (objects s ! p)) = (r, st)"
  shows "fst (run_on p f s) = r" and "objects (snd (run_on p f s)) ! p = (objects s ! p)\<lparr>ob_state := st\<rparr>"
    and "q \<noteq> p \<Longrightarrow> objects (snd (run_on p f s)) ! q = objects s ! q"
  using assms by (simp_all add: run_on_def)

text \<open>The archive a request is about, if it is a valid one.\<close>

definition request_key :: "params \<Rightarrow> string option" where
  "request_key ps = (if p_type ps = ''json'' then Some (drop 10 (p_url ps)) else map_option fst (match_url (p_url ps)))"

definition serve_all ::
  "(string \<Rightarrow> ('c, 's) archive_object) \<Rightarrow> params list \<Rightarrow> ('c, 's) protocol \<Rightarrow> ('c, 's) protocol" where
  "serve_all create pss s = fold (\<lambda>ps s. snd (tilev4 create ps s)) pss s"

lemma tilev4_step:
  assumes "protocol_ok s"
  shows "protocol_ok (snd (tilev4 create ps s)) \<and> tiles s \<subseteq>\<^sub>m tiles (snd (tilev4 create ps s))
    \<and> dom (tiles (snd (tilev4 create ps s))) = dom (tiles s) \<union> set_option (request_key ps)
    \<and> length (objects (snd (tilev4 create ps s))) = length (objects s) + card (set_option (request_key ps) - dom (tiles s))"
proof -
  have step: "protocol_ok s' \<and> tiles s \<subseteq>\<^sub>m tiles s' \<and> dom (tiles s') = dom (tiles s) \<union> {u}
      \<and> length (objects s') = length (objects s) + card ({u} - dom (tiles s))"
    if "object_for create u s = (p, s1)" and "s' = snd (run_on p f s1)" for u p s1 s'
      and f :: "('a, 'b) cache_ops \<Rightarrow> 'b env \<Rightarrow> 'a \<times> 'b \<Rightarrow> (js_error + reply) \<times> 'a \<times> 'b"
  proof -
    obtain q s2 where o: "object_for create u s = (q, s2)" "tiles s2 = (tiles s)(u \<mapsto> q)" "protocol_ok s2"
      "length (objects s2) = length (objects s) + (if u \<in> dom (tiles s) then 0 else 1)" "tiles s \<subseteq>\<^sub>m tiles s2"
      by (rule object_for_cases[OF assms, of create u])
    then have "q = p" "s2 = s1" using that(1) by simp_all
    with o show ?thesis unfolding that(2) by (simp add: protocol_ok_def insert_Diff_if)
  qed
  show ?thesis
  proof (cases "request_key ps")
    case None
    then show ?thesis using assms by (auto simp: tilev4_def request_key_def split: if_splits)
  next
    case (Some u)
    obtain p s1 where o: "object_for create u s = (p, s1)" by fastforce
    have "\<exists>f :: ('a, 'b) cache_ops \<Rightarrow> 'b env \<Rightarrow> 'a \<times> 'b \<Rightarrow> (js_error + reply) \<times> 'a \<times> 'b.
        snd (tilev4 create ps s) = snd (run_on p f s1)"
      using Some o by (auto simp: tilev4_def request_key_def split: if_splits)
    then obtain f :: "('a, 'b) cache_ops \<Rightarrow> 'b env \<Rightarrow> 'a \<times> 'b \<Rightarrow> (js_error + reply) \<times> 'a \<times> 'b"
      where "snd (tilev4 create ps s) = snd (run_on p f s1)" by blast
    from step[OF o this] Some show ?thesis by (simp del: run_on_simps)
  qed
qed

text \<open>
  C29: Every archive gets one object. After any series of requests, from any state of the protocol, there
  is one new object for each archive that was asked for and had none, every archive that had an object
  still has the same one, and no URL is mapped to anything but an object; an invalid URL makes none.
\<close>

theorem one_object_per_archive:
  assumes "protocol_ok s"
  shows "protocol_ok (serve_all create pss s) \<and> tiles s \<subseteq>\<^sub>m tiles (serve_all create pss s)
    \<and> dom (tiles (serve_all create pss s)) = dom (tiles s) \<union> (\<Union>ps \<in> set pss. set_option (request_key ps))
    \<and> length (objects (serve_all create pss s))
      = length (objects s) + card ((\<Union>ps \<in> set pss. set_option (request_key ps)) - dom (tiles s))"
  using assms
proof (induction pss arbitrary: s)
  case (Cons ps pss)
  let ?s = "snd (tilev4 create ps s)" and ?K = "\<Union>ps \<in> set pss. set_option (request_key ps)"
  note t = tilev4_step[OF Cons.prems, of create ps]
  from t have "protocol_ok ?s" by blast
  note ih = Cons.IH[OF this]
  have fin: "finite ?K" by simp
  have "card (set_option (request_key ps) - dom (tiles s)) + card (?K - dom (tiles ?s))
    = card ((set_option (request_key ps) \<union> ?K) - dom (tiles s))"
  proof -
    have "(set_option (request_key ps) \<union> ?K) - dom (tiles s)
      = (set_option (request_key ps) - dom (tiles s)) \<union> (?K - dom (tiles ?s))" using t by blast
    moreover have "(set_option (request_key ps) - dom (tiles s)) \<inter> (?K - dom (tiles ?s)) = {}" using t by blast
    ultimately show ?thesis using fin by (simp add: card_Un_disjoint)
  qed
  moreover have "serve_all create (ps # pss) s = serve_all create pss ?s" by (simp add: serve_all_def)
  ultimately show ?case using t ih by (auto intro: map_le_trans)
qed (simp add: serve_all_def)

section \<open>Serving an archive\<close>

text \<open>An object over a cache that is in a good state.\<close>

definition serves ::
  "('c, 's) cache_ops \<Rightarrow> 's env \<Rightarrow> ('c \<times> 's \<Rightarrow> bool) \<Rightarrow> ('c, 's) archive_object \<Rightarrow> bool" where
  "serves ops env good ob \<longleftrightarrow> ob_ops ob = ops \<and> ob_env ob = env \<and> good (ob_state ob)"

text \<open>The data of the answer for what an archive holds.\<close>

definition reply_for :: "any_header \<Rightarrow> bytes option \<Rightarrow> reply_data" where
  "reply_for h b = (case b of Some d \<Rightarrow> D_bytes d
     | None \<Rightarrow> if h_tileType h = tile_type_code Mvt then D_bytes [] else D_null)"

lemma tile_reply_data: "rp_data (tile_reply h t) = reply_for h (map_option tile_data t)"
  by (cases t) (simp_all add: tile_reply_def reply_for_def only_data_def)

lemma tile_request_key:
  assumes "u \<noteq> []" and "one_line u" and "ext_ok ext" and "z \<le> 26" and "0 \<le> x" and "x < 2 ^ z" and "0 \<le> y" and "y < 2 ^ z"
    and "p_type ps \<noteq> ''json''" and "p_url ps = tile_url u z x y ext"
  shows "tilev4 create ps s = (case object_for create u s of
    (p, s) \<Rightarrow> run_on p (tile_request z (of_int x) (of_int y)) s)"
proof -
  have "(2::int) ^ z \<le> 2 ^ 53" using assms(4) by (intro power_increasing) simp_all
  then have b: "int z \<le> 2 ^ 53" "x \<le> 2 ^ 53" "y \<le> 2 ^ 53" using assms(4-8) by auto
  show ?thesis
    using match_tile_url[OF assms(1-3) b(1) assms(5) b(2) assms(7) b(3)] assms(9,10)
    by (simp add: tilev4_def zoom_text[OF b(1)] coordinate_text[OF assms(5) b(2)] coordinate_text[OF assms(7) b(3)]
      del: of_int_of_nat_eq)
qed

text \<open>What the adapter asks of an object is asked once; every service of tiles has the answers.\<close>

context tile_service
begin

lemma run_on_served:
  assumes "p < length (objects s)" and "serves ops env good (objects s ! p)"
    and "\<And>st. good st \<Longrightarrow> \<exists>q st'. f ops env st = (q, st') \<and> P q \<and> good st'"
  shows "P (fst (run_on p f s))" and "serves ops env good (objects (snd (run_on p f s)) ! p)"
    and "i \<noteq> p \<Longrightarrow> objects (snd (run_on p f s)) ! i = objects s ! i"
    and "tiles (snd (run_on p f s)) = tiles s"
proof -
  have ob: "ob_ops (objects s ! p) = ops" "ob_env (objects s ! p) = env" "good (ob_state (objects s ! p))"
    using assms(2) by (simp_all add: serves_def)
  obtain q st where q: "f ops env (ob_state (objects s ! p)) = (q, st)" "P q" "good st"
    using assms(3)[OF ob(3)] by blast
  note r = run_on_eq[OF assms(1), of f q st, unfolded ob, OF q(1)]
  show "P (fst (run_on p f s))" and "serves ops env good (objects (snd (run_on p f s)) ! p)"
    and "i \<noteq> p \<Longrightarrow> objects (snd (run_on p f s)) ! i = objects s ! i"
    and "tiles (snd (run_on p f s)) = tiles s"
    using r q ob by (simp_all add: serves_def)
qed

lemma tile_request_served:
  assumes "good st" and "tile_place z x y" and "held z x y = Some r"
  shows "\<exists>q st'. tile_request z (of_int x) (of_int y) ops env st = (q, st')
    \<and> map_sum id rp_data q = map_sum id (reply_for hdr) r \<and> good st'"
proof -
  obtain st1 where 1: "getHeader ops env st = (Inr hdr, st1)" "good st1"
    using serve_header[OF assms(1)] by blast
  from serve_tile[OF 1(2) assms(2,3)] obtain t st2 where 2:
    "getZxy ops env z (of_int x) (of_int y) st1 = (t, st2)" "contents t = r" "good st2"
    by blast
  from 1 2 show ?thesis by (cases t) (auto simp: tile_request_def tile_reply_data)
qed

lemma protocol_tile:
  assumes "protocol_ok s" and "serves ops env good (server_of create u s)"
    and "u \<noteq> []" and "one_line u" and "ext_ok ext" and "p_type ps \<noteq> ''json''" and "p_url ps = tile_url u z x y ext"
    and "tile_place z x y" and "held z x y = Some r"
  shows "\<exists>s'. map_sum id rp_data (fst (tilev4 create ps s)) = map_sum id (reply_for hdr) r
    \<and> snd (tilev4 create ps s) = s' \<and> serves ops env good (server_of create u s')
    \<and> get u s' \<noteq> None
    \<and> (\<forall>q < length (objects s). get u s \<noteq> Some q \<longrightarrow> objects s' ! q = objects s ! q)"
proof -
  obtain p s1 where o: "object_for create u s = (p, s1)" "p < length (objects s1)" "objects s1 ! p = server_of create u s"
    "tiles s1 = (tiles s)(u \<mapsto> p)"
    by (rule object_for_cases[OF assms(1), of create u])
  let ?f = "tile_request z (of_int x) (of_int y) :: ('a, 'b) cache_ops \<Rightarrow> _"
  have pl: "z \<le> 26" "0 \<le> x" "x < 2 ^ z" "0 \<le> y" "y < 2 ^ z" using assms(8) by (simp_all add: tile_place_def)
  have t: "tilev4 create ps s = run_on p ?f s1"
    by (simp add: tile_request_key[OF assms(3-5) pl assms(6,7)] o(1))
  note r = run_on_served[where f = ?f and P = "\<lambda>q. map_sum id rp_data q = map_sum id (reply_for hdr) r",
      OF o(2) assms(2)[folded o(3)] tile_request_served[OF _ assms(8,9)]]
  have "objects s1 ! i = objects s ! i" "i \<noteq> p" if "i < length (objects s)" "get u s \<noteq> Some i" for i
    using o(1) that by (auto simp: object_for_def get_def nth_append split: option.splits)
  then show ?thesis
    unfolding t using r o(4) by (simp add: server_of_def get_def)
qed

lemma protocol_json:
  assumes "protocol_ok s" and "serves ops env good (server_of create u s)"
    and "\<not> metadata s" and "p_type ps = ''json''" and "p_url ps = ''pmtiles://'' @ u"
  shows "fst (tilev4 create ps s) = Inr (only_data (D_json (plain_json (''pmtiles://'' @ u) hdr)))
    \<and> serves ops env good (server_of create u (snd (tilev4 create ps s)))"
proof -
  obtain p s1 where o: "object_for create u s = (p, s1)" "p < length (objects s1)" "objects s1 ! p = server_of create u s"
    "tiles s1 = (tiles s)(u \<mapsto> p)" "metadata s1 = metadata s"
    by (rule object_for_cases[OF assms(1), of create u])
  let ?f = "json_request False (''pmtiles://'' @ u) :: ('a, 'b) cache_ops \<Rightarrow> _"
  let ?q = "Inr (only_data (D_json (plain_json (''pmtiles://'' @ u) hdr)))"
  have t: "tilev4 create ps s = run_on p ?f s1"
    using assms(3-5) o(1,5) by (simp add: tilev4_def)
  have "\<exists>q st'. ?f ops env st = (q, st') \<and> q = ?q \<and> good st'" if "good st" for st
    using serve_header[OF that] by (auto simp: json_request_def)
  note r = run_on_served[where f = ?f and P = "\<lambda>q. q = ?q", OF o(2) assms(2)[folded o(3)] this]
  show ?thesis
    unfolding t using r(1,2,4) o(4) by (simp add: server_of_def get_def)
qed

end

text \<open>An object over the default cache, in a good state for an archive.\<close>

definition serves_archive ::
  "'s env \<Rightarrow> ('s \<Rightarrow> bytes) \<Rightarrow> ('s \<Rightarrow> string option) \<Rightarrow> ('s \<Rightarrow> bool) \<Rightarrow> bytes \<Rightarrow> header
    \<Rightarrow> (pcache, 's) archive_object \<Rightarrow> bool" where
  "serves_archive env archive version ok a h = serves promise_ops env (pc_good env archive version ok a h)"

text \<open>
  C13: The map is served from the archive. A request for a tile of the levels 0 to 26, by the URL that the
  tile template of the archive gives for it, is answered with the bytes the archive holds for the tile,
  found by a linear search of its directories; without a tile the answer is empty for vector tiles and
  \<^verbatim>\<open>null\<close> for images; the errors of the decompressor and of a fifth level of directories are
  passed on. The object that serves the URL is registered for it and stays good, whether it existed or
  was made for the request, and no other object is touched.
\<close>

theorem protocol_serves_archive:
  fixes s :: "(pcache, 's) protocol"
  assumes "protocol_ok s" and "serves_archive env archive version ok a h (server_of create u s)" and "specVersion h = 3"
    and "u \<noteq> []" and "one_line u" and "ext_ok ext" and "p_type ps \<noteq> ''json''" and "p_url ps = tile_url u z x y ext"
    and "z \<le> 26" and "0 \<le> x" and "x < 2 ^ z" and "0 \<le> y" and "y < 2 ^ z" and "tile_of env a h z x y = Some r"
  shows "\<exists>s'. map_sum id rp_data (fst (tilev4 create ps s)) = map_sum id (reply_for (V3 h)) r
    \<and> snd (tilev4 create ps s) = s' \<and> serves_archive env archive version ok a h (server_of create u s')
    \<and> get u s' \<noteq> None
    \<and> (\<forall>q < length (objects s). get u s \<noteq> Some q \<longrightarrow> objects s' ! q = objects s ! q)"
  using shared_cache.protocol_tile[OF assms(1) assms(2)[unfolded serves_archive_def] assms(4-8), of r] assms(3,9-14)
  by (simp add: serves_archive_def held_tile_of tile_place_def)

text \<open>The same for archives of the versions 1 and 2.\<close>

lemma protocol_serves_v2:
  fixes s :: "(pcache, 's) protocol"
  assumes "protocol_ok s"
    and "serves promise_ops env (v2_pc_good env archive version ok a h) (server_of create u s)"
    and "u \<noteq> []" and "one_line u" and "ext_ok ext" and "p_type ps \<noteq> ''json''" and "p_url ps = tile_url u z x y ext"
    and "tile_place z x y" and "v2_tile_of env a h z x y = Some r"
  shows "map_sum id rp_data (fst (tilev4 create ps s)) = map_sum id (reply_for (V2 h)) r"
  using v2_shared.protocol_tile[OF assms(1-8) assms(9)[unfolded v2_tile_of_def]] by blast

text \<open>
  A request for the TileJSON without the metadata is answered from the header: the template of the
  tiles, which gives back the same object, the zoom levels and the bounds.
\<close>

theorem protocol_tile_json:
  fixes s :: "(pcache, 's) protocol"
  assumes "protocol_ok s" and "serves_archive env archive version ok a h (server_of create u s)"
    and "\<not> metadata s" and "p_type ps = ''json''" and "p_url ps = ''pmtiles://'' @ u"
  shows "map_sum id rp_data (fst (tilev4 create ps s)) = Inr (D_json (Obj [
      (''tiles'', Arr [Str (''pmtiles://'' @ u @ ''/{z}/{x}/{y}'')]),
      (''minzoom'', Num (Fin (of_int (minZoom h)))), (''maxzoom'', Num (Fin (of_int (maxZoom h)))),
      (''bounds'', Arr [Num (Fin (minLon h)), Num (Fin (minLat h)), Num (Fin (maxLon h)), Num (Fin (maxLat h))])]))
    \<and> serves_archive env archive version ok a h (server_of create u (snd (tilev4 create ps s)))"
  using shared_cache.protocol_json[OF assms(1) assms(2)[unfolded serves_archive_def] assms(3-5)]
  by (simp add: serves_archive_def only_data_def plain_json_def h_minZoom_def h_maxZoom_def h_bounds_def)

text \<open>
  The URL of a tile is taken apart into what it was made of. For every archive URL on one line, every
  zoom level and all coordinates up to \<open>2 ^ 53\<close>, with any of the extensions a tile template has
  or none, the regular expression finds the URL of the archive, under the key the request for the
  TileJSON uses, and the zoom level and the coordinates; an archive URL that itself ends in numbers
  between slashes does not confuse it.
\<close>

theorem template_roundtrip:
  assumes "u \<noteq> []" and "one_line u" and "ext_ok ext"
    and "int z \<le> 2 ^ 53" and "0 \<le> x" and "x \<le> 2 ^ 53" and "0 \<le> y" and "y \<le> 2 ^ 53"
  shows "\<exists>zs xs ys. match_url (tile_url u z x y ext) = Some (drop 10 (''pmtiles://'' @ u), zs, xs, ys)
    \<and> zoom zs = z \<and> coordinate xs = of_int x \<and> coordinate ys = of_int y"
  using match_tile_url[OF assms] zoom_text[OF assms(4)] coordinate_text[OF assms(5,6)] coordinate_text[OF assms(7,8)]
  by simp

lemma template_roundtrip_witness:
  "\<exists>zs xs ys. match_url (tile_url ''https://a/1/2/3'' 14 8800 5373 ''.mvt'') = Some (''https://a/1/2/3'', zs, xs, ys)
    \<and> zoom zs = 14 \<and> coordinate xs = of_int 8800 \<and> coordinate ys = of_int 5373"
proof -
  have "one_line ''https://a/1/2/3''" by (simp add: one_line_def line_terminator_def code_def)
  moreover have "ext_ok ''.mvt''" using tileTypeExt_ok[of 1] by (simp add: tileTypeExt_def)
  ultimately show ?thesis
    using template_roundtrip[of "''https://a/1/2/3''" "''.mvt''" 14 8800 5373] by simp
qed

section \<open>An example\<close>

definition demo_object :: "(pcache, file_source) archive_object" where
  "demo_object = \<lparr>ob_ops = promise_ops, ob_env = demo_env, ob_state = (new_SharedPromiseCache 100, demo_archive)\<rparr>"

definition demo_protocol :: "(pcache, file_source) protocol" where
  "demo_protocol = add 0 (new_Protocol [demo_object] Undef)"

lemma demo_protocol_ok: "protocol_ok demo_protocol"
  by (simp add: demo_protocol_def protocol_ok_def add_def new_Protocol_def)

lemma demo_served:
  "serves_archive demo_env content (\<lambda>_. None) (\<lambda>_. True) (content demo_archive) demo_header
     (server_of (\<lambda>_. demo_object) ''demo'' demo_protocol)"
  using demo_good(1)
  by (simp add: serves_archive_def serves_def server_of_def demo_protocol_def add_def new_Protocol_def demo_object_def demo_env_def)

lemma one_object_per_archive_witness:
  "length (objects (serve_all (\<lambda>_. demo_object)
     [\<lparr>p_type = ''json'', p_url = ''pmtiles://a''\<rparr>, \<lparr>p_type = ''image'', p_url = ''pmtiles://a/0/0/0''\<rparr>,
      \<lparr>p_type = ''image'', p_url = ''pmtiles://''\<rparr>] demo_protocol)) = 2"
proof -
  have "request_key \<lparr>p_type = ''json'', p_url = ''pmtiles://a''\<rparr> = Some ''a''" by code_simp
  moreover have "request_key \<lparr>p_type = ''image'', p_url = ''pmtiles://a/0/0/0''\<rparr> = Some ''a''" by code_simp
  moreover have "request_key \<lparr>p_type = ''image'', p_url = ''pmtiles://''\<rparr> = None" by code_simp
  moreover have "length (objects demo_protocol) = 1" "dom (tiles demo_protocol) = {''demo''}"
    by (simp_all add: demo_protocol_def add_def new_Protocol_def demo_object_def demo_env_def)
  ultimately show ?thesis
    using one_object_per_archive[OF demo_protocol_ok, of "\<lambda>_. demo_object"
      "[\<lparr>p_type = ''json'', p_url = ''pmtiles://a''\<rparr>, \<lparr>p_type = ''image'', p_url = ''pmtiles://a/0/0/0''\<rparr>,
        \<lparr>p_type = ''image'', p_url = ''pmtiles://''\<rparr>]"]
    by simp
qed

lemma protocol_serves_archive_witness:
  "map_sum id rp_data (fst (tilev4 (\<lambda>_. demo_object) \<lparr>p_type = ''image'', p_url = tile_url ''demo'' 0 0 0 []\<rparr> demo_protocol))
    = Inr (D_bytes [7, 9])"
proof -
  have "one_line ''demo''" by (simp add: one_line_def line_terminator_def code_def)
  moreover have "ext_ok []" by (simp add: ext_ok_def plain_text_def)
  moreover have "specVersion demo_header = 3" by (simp add: demo_header_def sample_header_def)
  ultimately show ?thesis
    using protocol_serves_archive[OF demo_protocol_ok demo_served _ _ _ _ _ _ _ _ _ _ _ demo_tile, of "[]"
      "\<lparr>p_type = ''image'', p_url = tile_url ''demo'' 0 0 0 []\<rparr>"]
    by (simp add: reply_for_def)
qed

lemma protocol_tile_json_witness:
  "map_sum id rp_data (fst (tilev4 (\<lambda>_. demo_object) \<lparr>p_type = ''json'', p_url = ''pmtiles://demo''\<rparr> demo_protocol))
    = Inr (D_json (Obj [
      (''tiles'', Arr [Str ''pmtiles://demo/{z}/{x}/{y}'']), (''minzoom'', Num (Fin 0)), (''maxzoom'', Num (Fin 0)),
      (''bounds'', Arr [Num (Fin (- 180)), Num (Fin (- 85)), Num (Fin 180), Num (Fin 85)])]))"
proof -
  have "\<not> metadata demo_protocol" by (simp add: demo_protocol_def add_def new_Protocol_def get_prop_def truthy_def)
  then show ?thesis
    using protocol_tile_json[OF demo_protocol_ok demo_served, of "\<lparr>p_type = ''json'', p_url = ''pmtiles://demo''\<rparr>"]
    by (simp add: demo_header_def sample_header_def)
qed

end
