(* ===== verification/Raster_Layer.thy ===== *)
theory Raster_Layer
  imports Map_Protocol
begin

text \<open>
  \<^verbatim>\<open>leafletRasterLayer\<close> of \<^verbatim>\<open>src/app/static/js/pmtiles.js\<close>: a layer of images for Leaflet.
  The layer asks for the header once, makes an image element per tile, fills it when the tile arrives
  and cancels the request when the tile is removed before. What it calls of the page is recorded in the
  order of the calls; the promises settle in any order, so their handlers are operations of their own.
\<close>

section \<open>The layer\<close>

text \<open>
  An image element with the controller of its request. The URL of a blob stands for the data and the
  type it was made of.
\<close>

record element =
  src :: "(bytes \<times> string) option"
  has_cancel :: bool
  aborted :: bool
  el_size :: "(int \<times> int) option"
  deleted :: bool

type_synonym coords = "int \<times> int \<times> int"

datatype page_call =
    Console_error
  | Tile_done nat
  | Dom_remove nat
  | Tile_unload nat string
  | Uncaught string

record layer =
  loaded :: bool
  mimeType :: string
  header_reads :: nat
  tile_reads :: "coords list"
  elements :: "element list"
  grid :: "string \<Rightarrow> nat option"
  page :: "page_call list"

definition new_layer :: layer where
  "new_layer = \<lparr>loaded = False, mimeType = [], header_reads = 0, tile_reads = [], elements = [],
     grid = Map.empty, page = []\<rparr>"

text \<open>\<^verbatim>\<open>createTile\<close> up to its promises; an element is named by its position.\<close>

definition createTile :: "coords \<Rightarrow> layer \<Rightarrow> nat \<times> layer" where
  "createTile coord l =
     (let el = \<lparr>src = None, has_cancel = True, aborted = False, el_size = None, deleted = False\<rparr>;
          l = (if \<not> loaded l then l\<lparr>header_reads := header_reads l + 1, loaded := True\<rparr> else l)
      in (length (elements l), l\<lparr>tile_reads := tile_reads l @ [coord], elements := elements l @ [el]\<rparr>))"

text \<open>The handler of \<^verbatim>\<open>getHeader\<close>.\<close>

definition header_read :: "int \<Rightarrow> layer \<Rightarrow> layer" where
  "header_read t l =
     (if t = tile_type_code Mvt then l\<lparr>page := page l @ [Console_error]\<rparr>
      else if t = 2 then l\<lparr>mimeType := ''image/png''\<rparr>
      else if t = 3 then l\<lparr>mimeType := ''image/jpeg''\<rparr>
      else if t = 4 then l\<lparr>mimeType := ''image/webp''\<rparr>
      else if t = 5 then l\<lparr>mimeType := ''image/avif''\<rparr>
      else l)"

text \<open>
  \<^verbatim>\<open>getHeader().then\<close> has no second handler: an error of some name is an unhandled rejection, the layer
  keeps \<^verbatim>\<open>loaded\<close> and the empty type.
\<close>

definition header_rejected :: "string \<Rightarrow> layer \<Rightarrow> layer" where
  "header_rejected name l = l\<lparr>page := page l @ [Uncaught name]\<rparr>"

text \<open>The handlers of \<^verbatim>\<open>getZxy\<close>: the tile, that there is none, or an error of some name.\<close>

datatype arrival = Arrived "bytes option" | Rejected string

definition tile_settled :: "nat \<Rightarrow> arrival \<Rightarrow> layer \<Rightarrow> layer" where
  "tile_settled i r l =
     (case r of
        Arrived None \<Rightarrow> l
      | Arrived (Some d) \<Rightarrow>
          l\<lparr>elements := (elements l)[i := (elements l ! i)\<lparr>src := Some (d, mimeType l), has_cancel := False\<rparr>],
            page := page l @ [Tile_done i]\<rparr>
      | Rejected name \<Rightarrow> if name \<noteq> ''AbortError'' then l\<lparr>page := page l @ [Uncaught name]\<rparr> else l)"

text \<open>\<^verbatim>\<open>_removeTile\<close>.\<close>

definition removeTile :: "string \<Rightarrow> layer \<Rightarrow> layer" where
  "removeTile key l =
     (case grid l key of
        None \<Rightarrow> l
      | Some i \<Rightarrow>
          let el = elements l ! i;
              el = (if has_cancel el then el\<lparr>aborted := True\<rparr> else el)\<lparr>el_size := Some (0, 0), deleted := True\<rparr>
          in l\<lparr>elements := (elements l)[i := el], page := page l @ [Dom_remove i, Tile_unload i key],
               grid := (grid l)(key := None)\<rparr>)"

section \<open>The life of a layer\<close>

text \<open>
  Leaflet asks for a tile under a key that is free and puts the element into its map; the promise of the
  header settles once after the header was asked for, with the header or with an error; the promise of a
  tile settles once, before or after that of the header and whatever became of it, since \<^verbatim>\<open>getZxy\<close>
  asks for the header anew. \<open>t\<close> is the tile type of the archive. \<open>early\<close> notes the tiles that arrived when
  no header had been read.
\<close>

datatype header_promise = Header_pending | Header_read | Header_failed

record life =
  lay :: layer
  waiting :: "nat set"
  header_promise :: header_promise
  early :: "nat set"

inductive step :: "int \<Rightarrow> life \<Rightarrow> life \<Rightarrow> bool" for t :: int where
  create: "grid (lay s) key = None \<Longrightarrow> createTile coord (lay s) = (i, l)
    \<Longrightarrow> step t s (s\<lparr>lay := l\<lparr>grid := (grid l)(key \<mapsto> i)\<rparr>, waiting := insert i (waiting s)\<rparr>)"
| header: "0 < header_reads (lay s) \<Longrightarrow> header_promise s = Header_pending
    \<Longrightarrow> step t s (s\<lparr>lay := header_read t (lay s), header_promise := Header_read\<rparr>)"
| header_error: "0 < header_reads (lay s) \<Longrightarrow> header_promise s = Header_pending
    \<Longrightarrow> step t s (s\<lparr>lay := header_rejected name (lay s), header_promise := Header_failed\<rparr>)"
| settle: "i \<in> waiting s
    \<Longrightarrow> step t s (s\<lparr>lay := tile_settled i (Arrived r) (lay s), waiting := waiting s - {i},
          early := (if header_promise s = Header_read then early s else insert i (early s))\<rparr>)"
| reject: "i \<in> waiting s
    \<Longrightarrow> step t s (s\<lparr>lay := tile_settled i (Rejected name) (lay s), waiting := waiting s - {i}\<rparr>)"
| remove: "step t s (s\<lparr>lay := removeTile key (lay s)\<rparr>)"

definition new_life :: life where
  "new_life = \<lparr>lay = new_layer, waiting = {}, header_promise = Header_pending, early = {}\<rparr>"

inductive reachable :: "int \<Rightarrow> life \<Rightarrow> bool" for t :: int where
  start: "reachable t new_life"
| step: "reachable t s \<Longrightarrow> step t s s' \<Longrightarrow> reachable t s'"









section \<open>The invariant\<close>
















text \<open>
  The header is not asked for again when its read failed: the pictures of such a layer have no type.
\<close>

lemma picture_without_type:
  "\<exists>s. reachable 2 s \<and> header_promise s = Header_failed \<and> src (elements (lay s) ! 0) = Some (d, [])"
proof -
  let ?l1 = "snd (createTile (0, 0, 0) new_layer)\<lparr>grid := [''0'' \<mapsto> 0]\<rparr>"
  let ?s1 = "new_life\<lparr>lay := ?l1, waiting := {0}\<rparr>"
  let ?s2 = "?s1\<lparr>lay := header_rejected ''TypeError'' ?l1, header_promise := Header_failed\<rparr>"
  have 1: "reachable 2 ?s1"
    using reachable.step[OF reachable.start create[of new_life "''0''" "(0, 0, 0)" 0 "snd (createTile (0, 0, 0) new_layer)" 2]]
    by (simp add: new_life_def new_layer_def createTile_def Let_def)
  have 2: "reachable 2 ?s2"
    using reachable.step[OF 1 header_error[of ?s1]]
    by (simp add: new_life_def new_layer_def createTile_def Let_def)
  note 3 = reachable.step[OF 2 settle[of 0 ?s2 2 "Some d"]]
  show ?thesis
    by (intro exI conjI, rule 3)
      (simp_all add: new_life_def new_layer_def createTile_def Let_def header_rejected_def tile_settled_def)
qed

end
