(* ===== verification/Live_View.thy ===== *)
theory Live_View
  imports Js_Value
begin

text \<open>
  The view of a vehicle, \<^verbatim>\<open>src/app/static/js/vehicle_live_view.js\<close>: from the payload of the
  server, the labels of the page and the units of the profile to the fields the templates bind. A
  number that may be missing is a \<open>jsnum option\<close> (\<open>None\<close> for \<^verbatim>\<open>null\<close>); the view is the list of
  the properties of \<^verbatim>\<open>out\<close>, in the order they are assigned. What the browser formats (numbers in a
  language, dates, relative times) and the clock are parameters.
\<close>

section \<open>Constants and conversions\<close>

definition MI_TO_KM :: jsnum where
  "MI_TO_KM = round_num (1609344 / 1000000)"

definition KM_TO_MI :: jsnum where
  "KM_TO_MI = jdiv (Fin 1) MI_TO_KM"

definition BAR_TO_PSI :: jsnum where
  "BAR_TO_PSI = round_num (14503774 / 1000000)"

text \<open>
  \<^verbatim>\<open>STATE_ALIASES[s]\<close> of a word in lower case. An object literal inherits \<^verbatim>\<open>constructor\<close> and
  \<^verbatim>\<open>__proto__\<close>, which are no strings: \<open>None\<close> stands for a state that is none.
\<close>

definition STATE_ALIASES :: "string \<Rightarrow> string option" where
  "STATE_ALIASES s =
     (if s = ''toppingoff'' then Some ''topoff''
      else if s = ''preparing'' then Some ''prepare''
      else if s = ''constructor'' \<or> s = ''__proto__'' then None
      else Some s)"

definition absent :: "jsval \<Rightarrow> bool" where
  "absent v \<longleftrightarrow> v = Null \<or> v = Undef"

definition num :: "jsval \<Rightarrow> jsnum option" where
  "num v =
     (if absent v \<or> v = Str [] then None
      else let n = parseFloat (to_string v) in if isFinite n then Some n else None)"

definition yes :: "jsval \<Rightarrow> bool" where
  "yes v \<longleftrightarrow> v = Bool True \<or> v = Num (Fin 1)
     \<or> to_lower (if absent v then [] else to_string v) \<in> {''yes'', ''true'', ''1'', ''on''}"

definition text_of :: "jsval \<Rightarrow> string" where
  "text_of v =
     (if absent v then []
      else let s = trim_js (to_string v) in
           if to_lower s \<in> {''n/a'', ''none'', ''null''} then [] else s)"

fun first :: "jsval list \<Rightarrow> jsnum option" where
  "first [] = None"
| "first (v # vs) = (case num v of Some n \<Rightarrow> Some n | None \<Rightarrow> first vs)"

fun flag :: "jsval list \<Rightarrow> bool option" where
  "flag [] = None"
| "flag (v # vs) = (if \<not> absent v \<and> v \<noteq> Str [] then Some (yes v) else flag vs)"

fun firstText :: "jsval list \<Rightarrow> string" where
  "firstText [] = []"
| "firstText (v # vs) = (let s = text_of v in if s \<noteq> [] then s else firstText vs)"

text \<open>\<^verbatim>\<open>a || b\<close>.\<close>

definition or_js :: "jsval \<Rightarrow> jsval \<Rightarrow> jsval" where
  "or_js a b = (if truthy a then a else b)"

section \<open>create\<close>

text \<open>
  What the browser provides: \<^verbatim>\<open>toLocaleString\<close> of a number with a count of decimals,
  \<^verbatim>\<open>new Date(v).getTime()\<close> and its text, the clock, and \<^verbatim>\<open>Intl.RelativeTimeFormat\<close> where there
  is one.
\<close>

record host =
  locale_number :: "string \<Rightarrow> jsnum \<Rightarrow> nat \<Rightarrow> string"
  date_time :: "jsval \<Rightarrow> jsnum"
  locale_date :: "string \<Rightarrow> jsval \<Rightarrow> string"
  now :: jsnum
  relative_format :: "(string \<Rightarrow> jsnum \<Rightarrow> string \<Rightarrow> string) option"

record view_config =
  labels :: jsval
  lang :: string
  imperial :: bool

definition make_config :: "jsval \<Rightarrow> view_config" where
  "make_config config =
     \<lparr>labels = or_js (get_prop config ''labels'') (Obj []),
      lang = (if truthy (get_prop config ''lang'') then to_string (get_prop config ''lang'') else ''en''),
      imperial = truthy (get_prop config ''imperial'')\<rparr>"

definition label :: "view_config \<Rightarrow> string \<Rightarrow> jsval" where
  "label cfg k = get_prop (labels cfg) k"

definition fmt :: "host \<Rightarrow> view_config \<Rightarrow> jsnum \<Rightarrow> nat \<Rightarrow> string" where
  "fmt h cfg n digits = locale_number h (lang cfg) n digits"

definition toKm :: "jsval \<Rightarrow> jsval \<Rightarrow> jsnum option" where
  "toKm value units =
     (case num value of
        None \<Rightarrow> None
      | Some n \<Rightarrow>
          let u = to_upper (if truthy units then to_string units else []) in
          Some (if u \<noteq> [] \<and> u \<noteq> ''N/A'' \<and> u \<noteq> ''K'' then jmul n MI_TO_KM else n))"

definition distance :: "host \<Rightarrow> view_config \<Rightarrow> jsnum option \<Rightarrow> nat \<Rightarrow> jsval" where
  "distance h cfg km digits =
     (case km of
        None \<Rightarrow> or_js (label cfg ''na'') (Str [])
      | Some k \<Rightarrow> Str (if imperial cfg then fmt h cfg (jmul k KM_TO_MI) digits @ '' mi''
                     else fmt h cfg k digits @ '' km''))"

definition pad2 :: "string \<Rightarrow> string" where
  "pad2 s = replicate (2 - length s) (CHR ''0'') @ s"

definition minutes :: "jsnum option \<Rightarrow> string option" where
  "minutes duration =
     (case duration of
        None \<Rightarrow> None
      | Some t \<Rightarrow>
          if jless t (Fin 0) then None
          else
            let h = jfloor (jdiv t (Fin 60)); m = jround (jmod t (Fin 60)) in
            Some (if jless (Fin 0) h then num_string h @ ''h '' @ pad2 (num_string m) @ ''m''
                  else num_string m @ ''m''))"

text \<open>The text and the title of a time.\<close>

definition relative :: "host \<Rightarrow> view_config \<Rightarrow> jsval \<Rightarrow> jsval \<times> jsval" where
  "relative h cfg time =
     (let never = (or_js (label cfg ''never'') (Str []), Str []) in
      if \<not> truthy time then never
      else
        let t = date_time h time in
        if t = NaN then never
        else
          let title = Str (locale_date h (lang cfg) time);
              seconds = jround (jdiv (jsub t (now h)) (Fin 1000)) in
          case relative_format h of
            None \<Rightarrow> (title, title)
          | Some rtf \<Rightarrow>
              let abs = jabs seconds in
              if jless abs (Fin 45) then (or_js (label cfg ''justNow'') title, title)
              else if jless abs (Fin 3600) then
                (Str (rtf (lang cfg) (jround (jdiv seconds (Fin 60))) ''minute''), title)
              else if jless abs (Fin 86400) then
                (Str (rtf (lang cfg) (jround (jdiv seconds (Fin 3600))) ''hour''), title)
              else (Str (rtf (lang cfg) (jround (jdiv seconds (Fin 86400))) ''day''), title))"

text \<open>The degree sign, in UTF-8.\<close>

definition degree :: string where
  "degree = map char_of [32 :: nat, 194, 176]"

definition temperature :: "host \<Rightarrow> view_config \<Rightarrow> jsval \<Rightarrow> string option" where
  "temperature h cfg value =
     (case num value of
        None \<Rightarrow> None
      | Some n \<Rightarrow>
          Some (if imperial cfg then fmt h cfg (jadd (jdiv (jmul n (Fin 9)) (Fin 5)) (Fin 32)) 1 @ degree @ ''F''
                else fmt h cfg n 1 @ degree @ ''C''))"

definition pressure :: "host \<Rightarrow> view_config \<Rightarrow> jsval \<Rightarrow> string option" where
  "pressure h cfg value =
     (case num value of
        None \<Rightarrow> None
      | Some n \<Rightarrow>
          Some (if imperial cfg then fmt h cfg (jmul n BAR_TO_PSI) 1 @ '' psi'' else fmt h cfg n 2 @ '' bar''))"

section \<open>derive\<close>

type_synonym view = "(string \<times> jsval) list"

text \<open>The metrics of the two protocols; a missing group is empty.\<close>

definition v3_metrics :: "jsval \<Rightarrow> jsval" where
  "v3_metrics p = or_js (get_prop p ''v3_metrics'') (Obj [])"

definition v2_metrics :: "jsval \<Rightarrow> jsval" where
  "v2_metrics p = or_js (get_prop p ''v2_metrics'') (Obj [])"

abbreviation v3 :: "jsval \<Rightarrow> string \<Rightarrow> jsval" where
  "v3 p k \<equiv> get_prop (v3_metrics p) k"

abbreviation v2 :: "jsval \<Rightarrow> string \<Rightarrow> jsval" where
  "v2 p k \<equiv> get_prop (v2_metrics p) k"

text \<open>The online state.\<close>

definition is_online :: "jsval \<Rightarrow> bool" where
  "is_online p \<longleftrightarrow> truthy (get_prop p ''isV2Online'') \<or> truthy (get_prop p ''isV3Online'')"

definition status_fields :: "view_config \<Rightarrow> jsval \<Rightarrow> view" where
  "status_fields cfg p =
     (let online = is_online p;
          on2 = truthy (get_prop p ''isV2Online''); on3 = truthy (get_prop p ''isV3Online'');
          via = (if on2 \<and> on3 then ''V2+V3'' else if on2 then ''V2'' else if on3 then ''V3'' else [])
      in [(''online'', Bool online),
          (''statusText'', if online then Str (to_string (label cfg ''online'') @ '' ('' @ via @ '')'')
                           else label cfg ''offline''),
          (''statusPillClass'', Str (if online then ''text-green-300 bg-green-700/60 border-green-500/50''
                                     else ''text-red-300 bg-red-700/60 border-red-500/50'')),
          (''statusDotClass'', Str (if online then ''bg-green-400 animate-pulse'' else ''bg-red-400''))])"

text \<open>The state of charge.\<close>

definition dash :: string where
  "dash = map char_of [226 :: nat, 128, 147]"

definition bar_percent :: "jsnum option \<Rightarrow> jsnum" where
  "bar_percent soc = (case soc of None \<Rightarrow> Fin 0 | Some n \<Rightarrow> jmax (Fin 0) (jmin (Fin 100) n))"

definition soc_fields :: "host \<Rightarrow> view_config \<Rightarrow> jsval \<Rightarrow> view" where
  "soc_fields h cfg p =
     (let soc = num (get_prop p ''soc'') in
      [(''socText'', Str (case soc of None \<Rightarrow> dash | Some n \<Rightarrow> fmt h cfg n 0 @ ''%'')),
       (''socClass'', Str (case soc of
            None \<Rightarrow> ''text-text-secondary''
          | Some n \<Rightarrow> if \<not> is_online p then ''text-text-secondary''
                      else if jle (Fin 70) n then ''text-green-400''
                      else if jle (Fin 30) n then ''text-yellow-400'' else ''text-red-400'')),
       (''barStyle'', Obj [(''width'', Str (num_string (bar_percent soc) @ ''%''))])])"

text \<open>Charging.\<close>

definition charge_state :: "jsval \<Rightarrow> string option" where
  "charge_state p =
     (let v = get_prop p ''charge_state_text'' in
      STATE_ALIASES (strip_ws (to_lower (trim_js (if truthy v then to_string v else [])))))"

definition is_charging :: "jsval \<Rightarrow> bool" where
  "is_charging p =
     (case flag [v3 p ''v.c.charging'', v2 p ''environment.charging''] of
        Some b \<Rightarrow> b
      | None \<Rightarrow> charge_state p = Some ''charging'' \<or> charge_state p = Some ''topoff'')"

definition gradient :: "jsval \<Rightarrow> string" where
  "gradient p =
     (case num (get_prop p ''soc'') of
        None \<Rightarrow> ''bg-gray-600''
      | Some n \<Rightarrow> if \<not> is_online p then ''bg-gray-600''
                  else if jle (Fin 70) n then ''bg-gradient-to-r from-green-600 to-green-400''
                  else if jle (Fin 30) n then ''bg-gradient-to-r from-yellow-600 to-yellow-400''
                  else ''bg-gradient-to-r from-red-600 to-orange-400'')"

definition line_power :: "jsval \<Rightarrow> jsval" where
  "line_power p =
     (case (num (get_prop p ''line_voltage''), num (get_prop p ''charge_current'')) of
        (Some v, Some a) \<Rightarrow> Num (jdiv (jmul v a) (Fin 1000))
      | _ \<Rightarrow> Null)"

definition charge_eta :: "host \<Rightarrow> view_config \<Rightarrow> jsval \<Rightarrow> string" where
  "charge_eta h cfg p =
     (let limit = first [v3 p ''v.c.limit.soc'', v2 p ''status.acc_soc_limit''];
          toLimit = first [v3 p ''v.c.duration.soc'', v2 p ''status.acc_mins_to_limit''];
          toFull = first [v3 p ''v.c.duration.full'', v2 p ''status.acc_mins_to_full'',
                          v2 p ''status.charge_duration_minutes'']
      in case (limit, minutes toLimit) of
           (Some n, Some t) \<Rightarrow>
             if jless (Fin 0) n \<and> jless n (Fin 100) then fmt h cfg n 0 @ ''%: '' @ t
             else (case minutes toFull of
                     Some t \<Rightarrow> to_string (or_js (label cfg ''toFull'') (Str ''100%'')) @ '': '' @ t
                   | None \<Rightarrow> [])
         | _ \<Rightarrow> (case minutes toFull of
                    Some t \<Rightarrow> to_string (or_js (label cfg ''toFull'') (Str ''100%'')) @ '': '' @ t
                  | None \<Rightarrow> []))"

definition state_known :: "jsval \<Rightarrow> bool" where
  "state_known p \<longleftrightarrow> charge_state p \<noteq> Some [] \<and> charge_state p \<noteq> Some ''n/a''"

text \<open>\<^verbatim>\<open>Object.hasOwn\<close>; a state that is no string names no label.\<close>

definition state_label :: "view_config \<Rightarrow> jsval \<Rightarrow> jsval" where
  "state_label cfg p =
     (case (or_js (label cfg ''chargeStates'') (Obj []), charge_state p) of
        (Obj ps, Some s) \<Rightarrow> if state_known p \<and> s \<in> fst ` set ps then get_prop (Obj ps) s else Str []
      | _ \<Rightarrow> Str [])"

definition charging_fields :: "host \<Rightarrow> view_config \<Rightarrow> jsval \<Rightarrow> view" where
  "charging_fields h cfg p =
     (let charging = is_charging p;
          kw = first [v3 p ''v.c.power'', v2 p ''status.charge_power_input_kw'', line_power p];
          kwh = first [v3 p ''v.c.kwh'', v2 p ''status.energy_sum_running_charge_kwh''];
          mode = firstText [v3 p ''v.c.mode'', get_prop p ''charge_mode_text'']
      in [(''isCharging'', Bool charging),
          (''barClass'', Str (if charging \<and> is_online p then gradient p @ '' ovms-charging'' else gradient p)),
          (''chargePowerText'', Str (case kw of None \<Rightarrow> [] | Some n \<Rightarrow> fmt h cfg n 1 @ '' kW'')),
          (''showChargeEnergy'', Bool (case kwh of None \<Rightarrow> False | Some n \<Rightarrow> jless (Fin 0) n)),
          (''chargeEnergyText'', Str (case kwh of None \<Rightarrow> [] | Some n \<Rightarrow> fmt h cfg n 1 @ '' kWh'')),
          (''chargeEtaText'', Str (charge_eta h cfg p)),
          (''chargeStateText'', or_js (state_label cfg p) (Str (text_of (get_prop p ''charge_state_text'')))),
          (''chargeStateClass'', Str (if charge_state p = Some ''done'' then ''text-green-400''
                                      else if charge_state p = Some ''stopped'' then ''text-amber-300''
                                      else if charging then ''text-green-400'' else ''text-text-secondary'')),
          (''showChargeStateTile'', Bool (state_known p)),
          (''showChargeState'', Bool (\<not> charging \<and> state_known p \<and> charge_state p \<noteq> Some ''done'')),
          (''chargeModeText'', Str mode),
          (''showChargeMode'', Bool (mode \<noteq> []))])"

text \<open>The range and the temperatures; a temperature of 0 is unknown for the motor and the cabin.\<close>

definition nonzero :: "jsnum option \<Rightarrow> bool" where
  "nonzero n = (case n of None \<Rightarrow> False | Some a \<Rightarrow> \<not> jeq a (Fin 0))"

definition temp_text :: "host \<Rightarrow> view_config \<Rightarrow> jsnum option \<Rightarrow> jsval" where
  "temp_text h cfg n =
     (case n of
        None \<Rightarrow> Str []
      | Some a \<Rightarrow> (case temperature h cfg (Num a) of None \<Rightarrow> Null | Some t \<Rightarrow> Str t))"

definition range_fields :: "host \<Rightarrow> view_config \<Rightarrow> jsval \<Rightarrow> view" where
  "range_fields h cfg p =
     (let rangeKm = toKm (get_prop p ''estimated_range'') (get_prop p ''units'');
          bTemp = first [v3 p ''v.b.temp'', v2 p ''environment.temp_battery_c''];
          aTemp = first [v3 p ''v.e.temp'', v2 p ''environment.temp_ambient_c''];
          mTemp = first [v3 p ''v.m.temp'', v2 p ''environment.temp_motor_c''];
          cTemp = first [v3 p ''v.e.cabintemp'', v2 p ''environment.temp_cabin_c'']
      in [(''showRange'', Bool (rangeKm \<noteq> None)),
          (''rangeText'', distance h cfg rangeKm 0),
          (''showBatteryTemp'', Bool (bTemp \<noteq> None)),
          (''batteryTempText'', temp_text h cfg bTemp),
          (''showAmbientTemp'', Bool (aTemp \<noteq> None)),
          (''ambientTempText'', temp_text h cfg aTemp),
          (''showMotorTemp'', Bool (nonzero mTemp)),
          (''motorTempText'', temp_text h cfg mTemp),
          (''showCabinTemp'', Bool (nonzero cTemp)),
          (''cabinTempText'', temp_text h cfg cTemp)])"

text \<open>The tiles. An odometer of V2 counts tenths of the vehicle's unit.\<close>

definition positive :: "jsnum option \<Rightarrow> bool" where
  "positive n = (case n of None \<Rightarrow> False | Some a \<Rightarrow> jless (Fin 0) a)"

definition shown :: "jsnum option \<Rightarrow> bool \<Rightarrow> (jsnum \<Rightarrow> string) \<Rightarrow> jsval" where
  "shown n b f = Str (case n of None \<Rightarrow> [] | Some a \<Rightarrow> if b then f a else [])"

definition meter_km :: "jsval \<Rightarrow> string \<Rightarrow> string \<Rightarrow> jsnum option" where
  "meter_km p k3 k2 =
     (case num (v3 p k3) of
        Some n \<Rightarrow> Some n
      | None \<Rightarrow> (case num (v2 p k2) of
          Some n \<Rightarrow> toKm (Num (jdiv n (Fin 10))) (get_prop p ''units'')
        | None \<Rightarrow> None))"

definition tile_fields :: "host \<Rightarrow> view_config \<Rightarrow> jsval \<Rightarrow> view" where
  "tile_fields h cfg p =
     (let v12 = num (get_prop p ''vehicle_12v'');
          soh = first [get_prop p ''battery_soh'', v3 p ''v.b.soh'', v2 p ''status.battery_soh_percent''];
          odoKm = meter_km p ''v.p.odometer'' ''environment.odometer_10th_unit'';
          tripKm = meter_km p ''v.p.trip'' ''environment.trip_meter_10th_unit''
      in [(''showV12'', Bool (positive v12)),
          (''v12Text'', shown v12 (positive v12) (\<lambda>a. fmt h cfg a 1 @ '' V'')),
          (''v12Class'', Str (case v12 of
               None \<Rightarrow> ''text-text-primary''
             | Some a \<Rightarrow> if \<not> positive v12 then ''text-text-primary''
                         else if jless a (round_num (118 / 10)) then ''text-red-400''
                         else if jless a (round_num (123 / 10)) then ''text-yellow-400''
                         else ''text-text-primary'')),
          (''showSoh'', Bool (positive soh)),
          (''sohText'', shown soh (positive soh) (\<lambda>a. fmt h cfg a 0 @ ''%'')),
          (''showOdometer'', Bool (positive odoKm)),
          (''odometerText'', if positive odoKm then distance h cfg odoKm 0 else Str []),
          (''showTrip'', Bool (positive tripKm)),
          (''tripText'', if positive tripKm then distance h cfg tripKm 1 else Str [])])"

definition power_fields :: "host \<Rightarrow> view_config \<Rightarrow> jsval \<Rightarrow> view" where
  "power_fields h cfg p =
     (let packV = first [v3 p ''v.b.voltage'', get_prop p ''battery_voltage''];
          packA = first [v3 p ''v.b.current'', get_prop p ''battery_current''];
          chargerV = first [v3 p ''v.c.voltage'', get_prop p ''line_voltage''];
          chargerA = first [v3 p ''v.c.current'', get_prop p ''charge_current''];
          showV = positive packV;
          showA = (showV \<and> packA \<noteq> None);
          showLine = (is_charging p \<and> positive chargerV);
          showCurrent = (is_charging p \<and> chargerA \<noteq> None)
      in [(''showBatteryVoltage'', Bool showV),
          (''batteryVoltageText'', shown packV showV (\<lambda>a. fmt h cfg a 1 @ '' V'')),
          (''showBatteryCurrent'', Bool showA),
          (''batteryCurrentText'', shown packA showA (\<lambda>a. fmt h cfg a 1 @ '' A'')),
          (''showLineVoltage'', Bool showLine),
          (''lineVoltageText'', shown chargerV showLine (\<lambda>a. fmt h cfg a 0 @ '' V'')),
          (''showChargeCurrent'', Bool showCurrent),
          (''chargeCurrentText'', shown chargerA showCurrent (\<lambda>a. fmt h cfg a 1 @ '' A''))])"

text \<open>\<^verbatim>\<open>toFixed(4)\<close> of a finite number: the nearest multiple of a ten-thousandth, ties upwards.\<close>

definition toFixed4 :: "jsnum \<Rightarrow> string" where
  "toFixed4 a =
     (case finite_value a of
        None \<Rightarrow> num_string a
      | Some q \<Rightarrow>
          if 10 ^ 21 \<le> \<bar>q\<bar> then num_string a
          else
            let n = \<lfloor>\<bar>q\<bar> * 10000 + 1 / 2\<rfloor>;
                ds = dec_digits n;
                ds = replicate (5 - length ds) (CHR ''0'') @ ds;
                k = length ds - 4
            in (if q < 0 then ''-'' else []) @ take k ds @ ''.'' @ drop k ds)"

definition position_fields :: "jsval \<Rightarrow> view" where
  "position_fields p =
     (let lat = first [get_prop p ''lat'', v3 p ''v.p.latitude''];
          lon = first [get_prop p ''lon'', v3 p ''v.p.longitude''] in
      case (lat, lon) of
        (Some a, Some b) \<Rightarrow>
          let showPosition = (\<not> (jeq a (Fin 0) \<and> jeq b (Fin 0))) in
          [(''showPosition'', Bool showPosition),
           (''positionText'', Str (if showPosition then toFixed4 a @ '', '' @ toFixed4 b else []))]
      | _ \<Rightarrow> [(''showPosition'', Bool False), (''positionText'', Str [])])"

definition seen_fields :: "host \<Rightarrow> view_config \<Rightarrow> jsval \<Rightarrow> view" where
  "seen_fields h cfg p =
     (case relative h cfg (get_prop p ''lastMessageAt'') of (t, title) \<Rightarrow>
        [(''lastSeenText'', t), (''lastSeenTitle'', title)])"

definition lock_fields :: "view_config \<Rightarrow> jsval \<Rightarrow> view" where
  "lock_fields cfg p =
     (let locked = flag [v3 p ''v.e.locked'', v2 p ''environment.car_locked''] in
      [(''showLocked'', Bool (locked \<noteq> None)),
       (''isLocked'', Bool (locked = Some True)),
       (''isUnlocked'', Bool (locked = Some False)),
       (''lockTitle'', if locked = Some True then label cfg ''locked'' else label cfg ''unlocked''),
       (''lockClass'', Str (if locked = Some True then ''text-green-400'' else ''text-amber-300'')),
       (''isOn'', Bool (flag [v3 p ''v.e.on'', v2 p ''environment.car_on''] = Some True))])"

text \<open>The whole view; a payload that is no object gives an empty one.\<close>

definition derive :: "host \<Rightarrow> view_config \<Rightarrow> jsval \<Rightarrow> view" where
  "derive h cfg p =
     (case p of
        Obj ps \<Rightarrow> status_fields cfg p @ soc_fields h cfg p @ charging_fields h cfg p @ range_fields h cfg p
          @ tile_fields h cfg p @ power_fields h cfg p @ position_fields p @ seen_fields h cfg p
          @ lock_fields cfg p
      | Arr vs \<Rightarrow> status_fields cfg p @ soc_fields h cfg p @ charging_fields h cfg p @ range_fields h cfg p
          @ tile_fields h cfg p @ power_fields h cfg p @ position_fields p @ seen_fields h cfg p
          @ lock_fields cfg p
      | _ \<Rightarrow> [])"

end
