(* ===== verification/Live_View_Props.thy ===== *)
theory Live_View_Props
  imports Live_View
begin

text \<open>
  What holds of the view of a vehicle: the type of every field the templates bind, what an offline
  vehicle looks like, which fields are shown, and the texts of durations.
\<close>

section \<open>Numbers of the payload\<close>

lemma parseFloat_double: "parseFloat s = Fin q \<Longrightarrow> double q"
  by (auto simp: parseFloat_def num_of_literal_def signed_zero_def round_num_def double_def Let_def
      split: prod.splits option.splits if_splits)

text \<open>A number read from a payload is finite, and reading it again gives it back (a zero without sign).\<close>

lemma num_finite: "num v = Some n \<Longrightarrow> isFinite n"
  by (auto simp: num_def Let_def split: if_splits)

lemma num_again:
  assumes "num v = Some n"
  shows "num (Num n) = Some (if n = Zero_neg then Fin 0 else n)"
proof -
  have n: "n = parseFloat (to_string v)" "isFinite n"
    using assms by (auto simp: num_def Let_def split: if_splits)
  show ?thesis
  proof (cases n)
    case (Fin q)
    then have "double q" using n(1) parseFloat_double by metis
    then show ?thesis
      by (simp add: num_def absent_def Fin num_string_def parseFloat_num_text isFinite_def finite_value_def)
  next
    case Zero_neg
    have "parseFloat ''0'' = Fin 0" by code_simp
    then show ?thesis by (simp add: num_def absent_def Zero_neg num_string_def isFinite_def finite_value_def)
  qed (use n(2) in \<open>simp_all add: isFinite_def finite_value_def\<close>)
qed

lemma first_again: "first vs = Some n \<Longrightarrow> \<exists>m. num (Num n) = Some m"
  by (induction vs) (auto dest: num_again split: option.splits)

lemma temp_text_string: "\<exists>s. temp_text h cfg (first vs) = Str s"
  using first_again[of vs] by (cases "first vs") (auto simp: temp_text_def temperature_def)

section \<open>Lookups in a view\<close>

definition field :: "view \<Rightarrow> string \<Rightarrow> jsval option" where
  "field v k = map_of v k"

definition is_object :: "jsval \<Rightarrow> bool" where
  "is_object p \<longleftrightarrow> (case p of Obj ps \<Rightarrow> True | Arr vs \<Rightarrow> True | _ \<Rightarrow> False)"

lemma derive_object:
  "is_object p \<Longrightarrow> derive h cfg p = status_fields cfg p @ soc_fields h cfg p @ charging_fields h cfg p
    @ range_fields h cfg p @ tile_fields h cfg p @ power_fields h cfg p @ position_fields p
    @ seen_fields h cfg p @ lock_fields cfg p"
  by (cases p) (simp_all add: is_object_def derive_def)

section \<open>The types of the fields\<close>

datatype field_kind = Flag | Text | Style

definition has_kind :: "jsval \<Rightarrow> field_kind \<Rightarrow> bool" where
  "has_kind v k = (case k of
     Flag \<Rightarrow> (case v of Bool b \<Rightarrow> True | _ \<Rightarrow> False)
   | Text \<Rightarrow> (case v of Str s \<Rightarrow> True | _ \<Rightarrow> False)
   | Style \<Rightarrow> (case v of Obj [(k, Str s)] \<Rightarrow> k = ''width'' | _ \<Rightarrow> False))"

definition typed :: "view \<Rightarrow> (string \<times> field_kind) list \<Rightarrow> bool" where
  "typed v ks \<longleftrightarrow> list_all2 (\<lambda>(k, x) (k', t). k = k' \<and> has_kind x t) v ks"

definition status_kinds :: "(string \<times> field_kind) list" where
  "status_kinds =
     [(''online'', Flag), (''statusText'', Text), (''statusPillClass'', Text), (''statusDotClass'', Text)]"

definition soc_kinds :: "(string \<times> field_kind) list" where
  "soc_kinds =
     [(''socText'', Text), (''socClass'', Text), (''barStyle'', Style)]"

definition charging_kinds :: "(string \<times> field_kind) list" where
  "charging_kinds =
     [(''isCharging'', Flag), (''barClass'', Text), (''chargePowerText'', Text), (''showChargeEnergy'', Flag),
      (''chargeEnergyText'', Text), (''chargeEtaText'', Text), (''chargeStateText'', Text),
      (''chargeStateClass'', Text), (''showChargeStateTile'', Flag), (''showChargeState'', Flag),
      (''chargeModeText'', Text), (''showChargeMode'', Flag)]"

definition range_kinds :: "(string \<times> field_kind) list" where
  "range_kinds =
     [(''showRange'', Flag), (''rangeText'', Text), (''showBatteryTemp'', Flag), (''batteryTempText'', Text),
      (''showAmbientTemp'', Flag), (''ambientTempText'', Text), (''showMotorTemp'', Flag),
      (''motorTempText'', Text), (''showCabinTemp'', Flag), (''cabinTempText'', Text)]"

definition tile_kinds :: "(string \<times> field_kind) list" where
  "tile_kinds =
     [(''showV12'', Flag), (''v12Text'', Text), (''v12Class'', Text), (''showSoh'', Flag), (''sohText'', Text),
      (''showOdometer'', Flag), (''odometerText'', Text), (''showTrip'', Flag), (''tripText'', Text)]"

definition power_kinds :: "(string \<times> field_kind) list" where
  "power_kinds =
     [(''showBatteryVoltage'', Flag), (''batteryVoltageText'', Text), (''showBatteryCurrent'', Flag),
      (''batteryCurrentText'', Text), (''showLineVoltage'', Flag), (''lineVoltageText'', Text),
      (''showChargeCurrent'', Flag), (''chargeCurrentText'', Text)]"

definition position_kinds :: "(string \<times> field_kind) list" where
  "position_kinds =
     [(''showPosition'', Flag), (''positionText'', Text)]"

definition seen_kinds :: "(string \<times> field_kind) list" where
  "seen_kinds =
     [(''lastSeenText'', Text), (''lastSeenTitle'', Text)]"

definition lock_kinds :: "(string \<times> field_kind) list" where
  "lock_kinds =
     [(''showLocked'', Flag), (''isLocked'', Flag), (''isUnlocked'', Flag), (''lockTitle'', Text),
      (''lockClass'', Text), (''isOn'', Flag)]"

definition view_kinds :: "(string \<times> field_kind) list" where
  "view_kinds = status_kinds @ soc_kinds @ charging_kinds @ range_kinds @ tile_kinds
     @ power_kinds @ position_kinds @ seen_kinds @ lock_kinds"

text \<open>Labels that are strings, where they have to be there; the others may be missing.\<close>

definition is_string :: "jsval \<Rightarrow> bool" where
  "is_string v \<longleftrightarrow> (case v of Str s \<Rightarrow> True | _ \<Rightarrow> False)"

definition labels_ok :: "view_config \<Rightarrow> bool" where
  "labels_ok cfg \<longleftrightarrow>
     list_all (\<lambda>k. is_string (label cfg k)) [''offline'', ''locked'', ''unlocked'']
     \<and> list_all (\<lambda>k. truthy (label cfg k) \<longrightarrow> is_string (label cfg k)) [''na'', ''never'', ''justNow'']
     \<and> (\<forall>ps. label cfg ''chargeStates'' = Obj ps \<longrightarrow> list_all (\<lambda>(k, v). is_string v) ps)"

lemma has_kind_simps [simp]:
  "has_kind (Bool b) Flag" "has_kind (Str s) Text" "has_kind (Obj [(''width'', Str s)]) Style"
  by (simp_all add: has_kind_def)

lemma has_kind_text: "is_string v \<Longrightarrow> has_kind v Text"
  by (cases v) (simp_all add: is_string_def)

lemma or_js_text: "(truthy v \<longrightarrow> is_string v) \<Longrightarrow> is_string w \<Longrightarrow> has_kind (or_js v w) Text"
  by (auto simp: or_js_def intro: has_kind_text)

lemma is_string_Str [simp]: "is_string (Str s)"
  by (simp add: is_string_def)

lemma typed_append: "typed v ks \<Longrightarrow> typed w ls \<Longrightarrow> typed (v @ w) (ks @ ls)"
  unfolding typed_def by (rule list_all2_appendI)

lemma typed_Cons [simp]: "typed ((k, x) # v) ((k', t) # ks) \<longleftrightarrow> k = k' \<and> has_kind x t \<and> typed v ks"
  by (simp add: typed_def)

lemma typed_Nil [simp]: "typed [] []"
  by (simp add: typed_def)

lemma state_label_string:
  assumes "labels_ok cfg"
  shows "is_string (state_label cfg p)"
proof -
  have "is_string (get_prop (Obj ps) s)"
    if o: "or_js (label cfg ''chargeStates'') (Obj []) = Obj ps" and s: "s \<in> fst ` set ps" for ps s
  proof -
    have "label cfg ''chargeStates'' = Obj ps" using o s by (auto simp: or_js_def split: if_splits)
    then have all: "list_all (\<lambda>(k, v). is_string v) ps" using assms by (simp add: labels_ok_def)
    obtain w where w: "map_of (rev ps) s = Some w"
      using s by (metis image_set map_of_eq_None_iff not_None_eq rev_map set_rev)
    then have "(s, w) \<in> set ps" by (metis map_of_SomeD set_rev)
    with all w show ?thesis by (auto simp: get_prop_def list_all_iff)
  qed
  then show ?thesis
    by (auto simp: state_label_def split: jsval.split option.split)
qed

lemma distance_text: "labels_ok cfg \<Longrightarrow> has_kind (distance h cfg km d) Text"
  by (cases km) (auto simp: distance_def labels_ok_def intro: or_js_text)

lemma relative_text:
  assumes "labels_ok cfg"
  shows "has_kind (fst (relative h cfg t)) Text" and "has_kind (snd (relative h cfg t)) Text"
  using assms by (auto simp: relative_def labels_ok_def Let_def intro: or_js_text split: option.split)

lemma temp_text_kind [simp]: "has_kind (temp_text h cfg (first vs)) Text"
  using temp_text_string[of h cfg vs] by auto

lemma status_typed: "labels_ok cfg \<Longrightarrow> typed (status_fields cfg p) status_kinds"
  by (simp add: status_fields_def status_kinds_def Let_def has_kind_text labels_ok_def)

lemma soc_typed: "typed (soc_fields h cfg p) soc_kinds"
  by (simp add: soc_fields_def soc_kinds_def Let_def)

lemma charging_typed:
  assumes "labels_ok cfg"
  shows "typed (charging_fields h cfg p) charging_kinds"
  using state_label_string[OF assms, of p]
  by (simp add: charging_fields_def charging_kinds_def Let_def or_js_text)

lemma range_typed: "labels_ok cfg \<Longrightarrow> typed (range_fields h cfg p) range_kinds"
  by (simp add: range_fields_def range_kinds_def Let_def distance_text del: first.simps)

lemma tile_typed: "labels_ok cfg \<Longrightarrow> typed (tile_fields h cfg p) tile_kinds"
  by (simp add: tile_fields_def tile_kinds_def Let_def shown_def distance_text)

lemma power_typed: "typed (power_fields h cfg p) power_kinds"
  by (simp add: power_fields_def power_kinds_def Let_def shown_def)

lemma position_typed: "typed (position_fields p) position_kinds"
  by (simp add: position_fields_def position_kinds_def Let_def split: option.split)

lemma seen_typed:
  assumes "labels_ok cfg"
  shows "typed (seen_fields h cfg p) seen_kinds"
  using relative_text[OF assms, of h "get_prop p ''lastMessageAt''"]
  by (cases "relative h cfg (get_prop p ''lastMessageAt'')") (simp add: seen_fields_def seen_kinds_def)

lemma lock_typed: "labels_ok cfg \<Longrightarrow> typed (lock_fields cfg p) lock_kinds"
  by (simp add: lock_fields_def lock_kinds_def Let_def has_kind_text labels_ok_def)

lemmas section_typed = status_typed soc_typed charging_typed range_typed tile_typed power_typed
  position_typed seen_typed lock_typed

section \<open>Properties\<close>

text \<open>
  C30: Every field a template binds is there with the type the template expects. For a payload that is
  an object, whatever it holds, the view has exactly the 56 fields of the pages, in their order: each
  flag is a boolean, each text a string, and the bar style an object with the width, provided that
  the labels of the page are strings.
\<close>

theorem derive_typed:
  assumes "is_object p" and "labels_ok cfg"
  shows "typed (derive h cfg p) view_kinds"
  unfolding derive_object[OF assms(1)] view_kinds_def
  by (intro typed_append section_typed assms(2))

text \<open>A host and labels for the instances.\<close>

definition demo_host :: host where
  "demo_host = \<lparr>locale_number = (\<lambda>lg n d. num_string n), date_time = (\<lambda>v. NaN), locale_date = (\<lambda>lg v. []),
     now = Fin 0, relative_format = None\<rparr>"

definition demo_config :: view_config where
  "demo_config = \<lparr>labels = Obj [(''online'', Str ''Online''), (''offline'', Str ''Offline''),
     (''locked'', Str ''Locked''), (''unlocked'', Str ''Unlocked'')], lang = ''en'', imperial = False\<rparr>"

lemma derive_typed_witness: "typed (derive demo_host demo_config (Obj [(''soc'', Str ''81'')])) view_kinds"
  by (rule derive_typed)
     (simp_all add: is_object_def labels_ok_def demo_config_def label_def get_prop_def truthy_def is_string_def)

lemma field_append: "field (v @ w) k = (case field v k of Some x \<Rightarrow> Some x | None \<Rightarrow> field w k)"
  by (simp add: field_def map_add_def split: option.split)

lemma field_Cons [simp]: "field ((k', x) # v) k = (if k' = k then Some x else field v k)"
  by (simp add: field_def)

lemma field_Nil [simp]: "field [] k = None"
  by (simp add: field_def)

text \<open>
  C31: The state of charge of an offline vehicle does not claim to be current. When neither protocol is connected, the
  number and the bar are grey whatever the state of charge, the bar is not animated, even if the
  vehicle was last heard charging, and the status says offline.
\<close>

theorem offline_is_grey:
  assumes "is_object p" and "\<not> is_online p"
  shows "field (derive h cfg p) ''online'' = Some (Bool False)
    \<and> field (derive h cfg p) ''statusText'' = Some (label cfg ''offline'')
    \<and> field (derive h cfg p) ''socClass'' = Some (Str ''text-text-secondary'')
    \<and> field (derive h cfg p) ''barClass'' = Some (Str ''bg-gray-600'')"
proof -
  have g: "gradient p = ''bg-gray-600''" using assms(2) by (simp add: gradient_def split: option.split)
  show ?thesis
    using assms
    by (simp add: derive_object field_append status_fields_def soc_fields_def charging_fields_def Let_def g
        split: option.split)
qed

lemma offline_is_grey_witness:
  "field (derive demo_host demo_config (Obj [(''soc'', Str ''81''), (''v3_metrics'', Obj [(''v.c.charging'', Bool True)])]))
     ''barClass'' = Some (Str ''bg-gray-600'')"
  using offline_is_grey[of "Obj [(''soc'', Str ''81''), (''v3_metrics'', Obj [(''v.c.charging'', Bool True)])]"
      demo_host demo_config]
  by (simp add: is_object_def is_online_def get_prop_def truthy_def)

lemma bar_percent_range:
  assumes "num v = Some n"
  shows "\<exists>q. bar_percent (num v) = Fin q \<and> 0 \<le> q \<and> q \<le> 100
    \<and> (\<forall>x. n = Fin x \<and> 0 \<le> x \<and> x \<le> 100 \<longrightarrow> q = x)"
  using num_finite[OF assms] assms
  by (cases n) (auto simp: bar_percent_def jmax_def jmin_def jless_def finite_value_def isFinite_def)

text \<open>
  The bar stays inside its frame: for every payload the width is a percentage from 0 to 100, and
  it is the state of charge itself when that is in the range.
\<close>

theorem bar_width:
  assumes "is_object p"
  shows "\<exists>q. field (derive h cfg p) ''barStyle'' = Some (Obj [(''width'', Str (num_text q @ ''%''))])
    \<and> 0 \<le> q \<and> q \<le> 100
    \<and> (\<forall>x. num (get_prop p ''soc'') = Some (Fin x) \<and> 0 \<le> x \<and> x \<le> 100 \<longrightarrow> q = x)"
proof -
  have f: "field (derive h cfg p) ''barStyle''
      = Some (Obj [(''width'', Str (num_string (bar_percent (num (get_prop p ''soc''))) @ ''%''))])"
    using assms by (simp add: derive_object field_append status_fields_def soc_fields_def Let_def)
  show ?thesis
  proof (cases "num (get_prop p ''soc'')")
    case None
    then show ?thesis using f by (intro exI[of _ 0]) (simp add: bar_percent_def num_string_def)
  next
    case (Some n)
    from bar_percent_range[OF Some] Some f show ?thesis by (auto simp: num_string_def)
  qed
qed

lemma bar_width_witness:
  "\<exists>q. field (derive demo_host demo_config (Obj [(''soc'', Str ''812'')])) ''barStyle''
     = Some (Obj [(''width'', Str (num_text q @ ''%''))]) \<and> 0 \<le> q \<and> q \<le> 100"
  using bar_width[of "Obj [(''soc'', Str ''812'')]" demo_host demo_config] by (auto simp: is_object_def)

definition flag_texts :: "(string \<times> string) list" where
  "flag_texts =
     [(''showChargeMode'', ''chargeModeText''), (''showBatteryTemp'', ''batteryTempText''),
      (''showAmbientTemp'', ''ambientTempText''), (''showV12'', ''v12Text''), (''showSoh'', ''sohText''),
      (''showOdometer'', ''odometerText''), (''showTrip'', ''tripText''),
      (''showBatteryVoltage'', ''batteryVoltageText''), (''showBatteryCurrent'', ''batteryCurrentText''),
      (''showLineVoltage'', ''lineVoltageText''), (''showChargeCurrent'', ''chargeCurrentText''),
      (''showPosition'', ''positionText'')]"

text \<open>
  Readings that may keep a text while they are hidden: of a charge that has no energy yet and of a
  temperature of 0 (which is unknown for the motor and the cabin); a missing range reads as the label
  for that.
\<close>

definition reading_texts :: "(string \<times> string) list" where
  "reading_texts =
     [(''showChargeEnergy'', ''chargeEnergyText''), (''showRange'', ''rangeText''),
      (''showMotorTemp'', ''motorTempText''), (''showCabinTemp'', ''cabinTempText'')]"

definition shows_text :: "view \<Rightarrow> string \<times> string \<Rightarrow> bool" where
  "shows_text v ft \<longleftrightarrow> (\<exists>b x. field v (fst ft) = Some (Bool b) \<and> field v (snd ft) = Some x \<and> (b \<longrightarrow> x \<noteq> Str []))"

definition agree :: "view \<Rightarrow> string \<times> string \<Rightarrow> bool" where
  "agree v ft \<longleftrightarrow> (\<exists>b. field v (fst ft) = Some (Bool b) \<and> (b \<longleftrightarrow> field v (snd ft) \<noteq> Some (Str [])))"

lemma shown_iff: "(b \<Longrightarrow> n \<noteq> None) \<Longrightarrow> (\<And>a. f a \<noteq> []) \<Longrightarrow> shown n b f = Str [] \<longleftrightarrow> \<not> b"
  by (cases n) (auto simp: shown_def)

lemma positive_Some: "positive n \<Longrightarrow> n \<noteq> None"
  by (cases n) (auto simp: positive_def)

lemma distance_nonempty: "n \<noteq> None \<Longrightarrow> distance h cfg n d \<noteq> Str []"
  by (cases n) (auto simp: distance_def)

lemma field_None: "k \<notin> set (map fst v) \<Longrightarrow> field v k = None"
  by (auto simp: field_def map_of_eq_None_iff)

lemma section_keys:
  "map fst (status_fields cfg p) = [''online'', ''statusText'', ''statusPillClass'', ''statusDotClass'']"
  "map fst (soc_fields h cfg p) = [''socText'', ''socClass'', ''barStyle'']"
  "map fst (charging_fields h cfg p) = [''isCharging'', ''barClass'', ''chargePowerText'', ''showChargeEnergy'',
     ''chargeEnergyText'', ''chargeEtaText'', ''chargeStateText'', ''chargeStateClass'', ''showChargeStateTile'',
     ''showChargeState'', ''chargeModeText'', ''showChargeMode'']"
  "map fst (range_fields h cfg p) = [''showRange'', ''rangeText'', ''showBatteryTemp'', ''batteryTempText'',
     ''showAmbientTemp'', ''ambientTempText'', ''showMotorTemp'', ''motorTempText'', ''showCabinTemp'',
     ''cabinTempText'']"
  "map fst (tile_fields h cfg p) = [''showV12'', ''v12Text'', ''v12Class'', ''showSoh'', ''sohText'',
     ''showOdometer'', ''odometerText'', ''showTrip'', ''tripText'']"
  "map fst (power_fields h cfg p) = [''showBatteryVoltage'', ''batteryVoltageText'', ''showBatteryCurrent'',
     ''batteryCurrentText'', ''showLineVoltage'', ''lineVoltageText'', ''showChargeCurrent'', ''chargeCurrentText'']"
  by (simp_all add: status_fields_def soc_fields_def charging_fields_def range_fields_def tile_fields_def
      power_fields_def Let_def)

lemma agreeI: "field v f = Some (Bool b) \<Longrightarrow> field v t = Some x \<Longrightarrow> (x = Str [] \<longleftrightarrow> \<not> b) \<Longrightarrow> agree v (f, t)"
  by (auto simp: agree_def)

lemma agree_after:
  assumes "f \<notin> set (map fst u)" and "t \<notin> set (map fst u)" and "agree v (f, t)" and "t \<in> set (map fst v)"
  shows "agree (u @ v @ w) (f, t)"
proof -
  have "field v t \<noteq> None" using assms(4) by (auto simp: field_def map_of_eq_None_iff)
  then show ?thesis
    using assms(1-3) by (auto simp: agree_def field_append field_None split: option.splits)
qed

lemma tile_agree:
  "agree (tile_fields h cfg p) (''showV12'', ''v12Text'')" "agree (tile_fields h cfg p) (''showSoh'', ''sohText'')"
  "agree (tile_fields h cfg p) (''showOdometer'', ''odometerText'')"
  "agree (tile_fields h cfg p) (''showTrip'', ''tripText'')"
  by (simp_all add: agree_def tile_fields_def Let_def shown_iff positive_Some distance_nonempty del: first.simps)

lemma power_agree:
  "agree (power_fields h cfg p) (''showBatteryVoltage'', ''batteryVoltageText'')"
  "agree (power_fields h cfg p) (''showBatteryCurrent'', ''batteryCurrentText'')"
  "agree (power_fields h cfg p) (''showLineVoltage'', ''lineVoltageText'')"
  "agree (power_fields h cfg p) (''showChargeCurrent'', ''chargeCurrentText'')"
  by (simp_all add: agree_def power_fields_def Let_def shown_iff positive_Some del: first.simps not_None_eq)

lemma position_agree: "agree (position_fields p) (''showPosition'', ''positionText'')"
  by (simp add: agree_def position_fields_def Let_def del: first.simps split: option.split)

lemma mode_agree: "agree (charging_fields h cfg p) (''showChargeMode'', ''chargeModeText'')"
  by (simp add: agree_def charging_fields_def Let_def del: firstText.simps first.simps)

lemma shows_after:
  assumes "f \<notin> set (map fst u)" and "t \<notin> set (map fst u)" and "shows_text v (f, t)"
  shows "shows_text (u @ v @ w) (f, t)"
  using assms by (auto simp: shows_text_def field_append field_None)

lemma field_middle: "k \<notin> set (map fst u) \<Longrightarrow> k \<in> set (map fst v) \<Longrightarrow> field (u @ v @ w) k = field v k"
proof -
  assume "k \<notin> set (map fst u)" and "k \<in> set (map fst v)"
  then have "field u k = None" and "field v k \<noteq> None"
    by (simp_all add: field_def map_of_eq_None_iff del: not_None_eq)
  then show ?thesis by (auto simp: field_append split: option.split)
qed

lemma temp_text_nonempty: "temp_text h cfg (first vs) = Str [] \<longleftrightarrow> first vs = None"
  using first_again[of vs] by (cases "first vs") (auto simp: temp_text_def temperature_def split: if_splits)

lemma nonzero_Some: "nonzero n \<Longrightarrow> n \<noteq> None"
  by (cases n) (auto simp: nonzero_def)

lemma range_agree:
  "agree (range_fields h cfg p) (''showBatteryTemp'', ''batteryTempText'')"
  "agree (range_fields h cfg p) (''showAmbientTemp'', ''ambientTempText'')"
  by (simp_all add: agree_def range_fields_def Let_def temp_text_nonempty del: first.simps not_None_eq)

lemma range_shows:
  "shows_text (range_fields h cfg p) (''showRange'', ''rangeText'')"
  "shows_text (range_fields h cfg p) (''showMotorTemp'', ''motorTempText'')"
  "shows_text (range_fields h cfg p) (''showCabinTemp'', ''cabinTempText'')"
  by (simp_all add: shows_text_def range_fields_def Let_def temp_text_nonempty distance_nonempty nonzero_Some
      del: first.simps not_None_eq)

lemma energy_shows: "shows_text (charging_fields h cfg p) (''showChargeEnergy'', ''chargeEnergyText'')"
  by (simp add: shows_text_def charging_fields_def Let_def del: first.simps split: option.split)

lemma energy_hidden:
  "field (charging_fields h cfg p) ''showChargeEnergy'' = Some (Bool False)
    \<Longrightarrow> field (charging_fields h cfg p) ''chargeEnergyText'' = Some (Str [])
      \<or> (\<exists>n. first [v3 p ''v.c.kwh'', v2 p ''status.energy_sum_running_charge_kwh''] = Some n \<and> \<not> jless (Fin 0) n)"
  by (cases "first [v3 p ''v.c.kwh'', v2 p ''status.energy_sum_running_charge_kwh'']")
    (simp_all add: charging_fields_def Let_def del: first.simps)

lemma zero_hidden:
  "\<not> nonzero n \<Longrightarrow> temp_text h cfg n = Str [] \<or> (\<exists>a. n = Some a \<and> jeq a (Fin 0))"
  by (cases n) (simp_all add: nonzero_def temp_text_def)

lemma range_hidden:
  "field (range_fields h cfg p) ''showMotorTemp'' = Some (Bool False)
    \<Longrightarrow> field (range_fields h cfg p) ''motorTempText'' = Some (Str [])
      \<or> (\<exists>n. first [v3 p ''v.m.temp'', v2 p ''environment.temp_motor_c''] = Some n \<and> jeq n (Fin 0))"
  "field (range_fields h cfg p) ''showCabinTemp'' = Some (Bool False)
    \<Longrightarrow> field (range_fields h cfg p) ''cabinTempText'' = Some (Str [])
      \<or> (\<exists>n. first [v3 p ''v.e.cabintemp'', v2 p ''environment.temp_cabin_c''] = Some n \<and> jeq n (Fin 0))"
  "field (range_fields h cfg p) ''showRange'' = Some (Bool False)
    \<Longrightarrow> field (range_fields h cfg p) ''rangeText'' = Some (or_js (label cfg ''na'') (Str []))"
  by (simp_all add: range_fields_def Let_def zero_hidden distance_def del: first.simps)

lemma derive_charging:
  "is_object p \<Longrightarrow> derive h cfg p = (status_fields cfg p @ soc_fields h cfg p) @ charging_fields h cfg p
    @ (range_fields h cfg p @ tile_fields h cfg p @ power_fields h cfg p @ position_fields p
       @ seen_fields h cfg p @ lock_fields cfg p)"
  by (simp add: derive_object)

lemma derive_range:
  "is_object p \<Longrightarrow> derive h cfg p = (status_fields cfg p @ soc_fields h cfg p @ charging_fields h cfg p)
    @ range_fields h cfg p @ (tile_fields h cfg p @ power_fields h cfg p @ position_fields p
       @ seen_fields h cfg p @ lock_fields cfg p)"
  by (simp add: derive_object)

lemma shown_agree:
  assumes "is_object p"
  shows "list_all (agree (derive h cfg p)) flag_texts"
proof -
  let ?s = "status_fields cfg p" and ?o = "soc_fields h cfg p" and ?c = "charging_fields h cfg p"
    and ?r = "range_fields h cfg p" and ?t = "tile_fields h cfg p" and ?w = "power_fields h cfg p"
    and ?e = "seen_fields h cfg p @ lock_fields cfg p"
  have t: "derive h cfg p = (?s @ ?o @ ?c @ ?r) @ ?t @ (?w @ position_fields p @ ?e)"
    and w: "derive h cfg p = (?s @ ?o @ ?c @ ?r @ ?t) @ ?w @ (position_fields p @ ?e)"
    and p: "derive h cfg p = (?s @ ?o @ ?c @ ?r @ ?t @ ?w) @ position_fields p @ ?e"
    by (simp_all add: derive_object[OF assms])
  have "agree (derive h cfg p) (''showChargeMode'', ''chargeModeText'')"
    unfolding derive_charging[OF assms]
    by (rule agree_after[OF _ _ mode_agree]) (simp_all only: map_append section_keys set_append, simp_all)
  moreover have "agree (derive h cfg p) (''showBatteryTemp'', ''batteryTempText'')"
    "agree (derive h cfg p) (''showAmbientTemp'', ''ambientTempText'')"
    unfolding derive_range[OF assms]
    by (rule agree_after; (rule range_agree)?; simp only: map_append section_keys set_append; simp)+
  moreover have "agree (derive h cfg p) (''showV12'', ''v12Text'')" "agree (derive h cfg p) (''showSoh'', ''sohText'')"
    "agree (derive h cfg p) (''showOdometer'', ''odometerText'')" "agree (derive h cfg p) (''showTrip'', ''tripText'')"
    unfolding t
    by (rule agree_after; (rule tile_agree)?; simp only: map_append section_keys set_append; simp)+
  moreover have "agree (derive h cfg p) (''showBatteryVoltage'', ''batteryVoltageText'')"
    "agree (derive h cfg p) (''showBatteryCurrent'', ''batteryCurrentText'')"
    "agree (derive h cfg p) (''showLineVoltage'', ''lineVoltageText'')"
    "agree (derive h cfg p) (''showChargeCurrent'', ''chargeCurrentText'')"
    unfolding w
    by (rule agree_after; (rule power_agree)?; simp only: map_append section_keys set_append; simp)+
  moreover have "''positionText'' \<in> set (map fst (position_fields p))"
    by (simp add: position_fields_def Let_def split: option.split)
  then have "agree (derive h cfg p) (''showPosition'', ''positionText'')"
    unfolding p by (intro agree_after position_agree) (simp_all only: map_append section_keys set_append, simp_all)
  ultimately show ?thesis
    unfolding flag_texts_def by (simp only: list.pred_inject simp_thms)
qed

lemma shown_readings:
  assumes "is_object p"
  shows "list_all (shows_text (derive h cfg p)) reading_texts"
proof -
  have "shows_text (derive h cfg p) (''showChargeEnergy'', ''chargeEnergyText'')"
    unfolding derive_charging[OF assms]
    by (rule shows_after; (rule energy_shows)?; simp only: map_append section_keys set_append; simp)
  moreover have "shows_text (derive h cfg p) (''showRange'', ''rangeText'')"
    "shows_text (derive h cfg p) (''showMotorTemp'', ''motorTempText'')"
    "shows_text (derive h cfg p) (''showCabinTemp'', ''cabinTempText'')"
    unfolding derive_range[OF assms]
    by (rule shows_after; (rule range_shows)?; simp only: map_append section_keys set_append; simp)+
  ultimately show ?thesis
    unfolding reading_texts_def by (simp only: list.pred_inject simp_thms)
qed

text \<open>
  C32: Whatever the payload and the browser's formats, a reading that is shown has a text, and for twelve
  readings one that is not shown has none: the charge mode, the temperatures of the battery and outside,
  the 12 V battery, the state of health, the odometer, the trip, voltage and current of the pack and of the
  charger, and the position. The four others are the energy of the charge, the range and the temperatures
  of the motor and the cabin: hidden, they keep a text only for an energy that is not positive and a
  temperature of 0, and the range has the label \<^verbatim>\<open>na\<close>, if there is one.
\<close>

theorem shown_iff_text:
  assumes "is_object p" and "V = derive h cfg p"
  shows "list_all (agree V) flag_texts \<and> list_all (shows_text V) reading_texts
    \<and> (field V ''showChargeEnergy'' = Some (Bool False) \<longrightarrow> field V ''chargeEnergyText'' = Some (Str [])
        \<or> (\<exists>n. first [v3 p ''v.c.kwh'', v2 p ''status.energy_sum_running_charge_kwh''] = Some n \<and> \<not> jless (Fin 0) n))
    \<and> (field V ''showMotorTemp'' = Some (Bool False) \<longrightarrow> field V ''motorTempText'' = Some (Str [])
        \<or> (\<exists>n. first [v3 p ''v.m.temp'', v2 p ''environment.temp_motor_c''] = Some n \<and> jeq n (Fin 0)))
    \<and> (field V ''showCabinTemp'' = Some (Bool False) \<longrightarrow> field V ''cabinTempText'' = Some (Str [])
        \<or> (\<exists>n. first [v3 p ''v.e.cabintemp'', v2 p ''environment.temp_cabin_c''] = Some n \<and> jeq n (Fin 0)))
    \<and> (field V ''showRange'' = Some (Bool False) \<longrightarrow> field V ''rangeText'' = Some (or_js (label cfg ''na'') (Str [])))"
proof -
  have c: "k \<in> {''showChargeEnergy'', ''chargeEnergyText''} \<Longrightarrow> field V k = field (charging_fields h cfg p) k" for k
    unfolding assms(2) derive_charging[OF assms(1)]
    by (rule field_middle; simp only: map_append section_keys set_append; auto)
  have r: "k \<in> set (map fst (range_fields h cfg p)) \<Longrightarrow> field V k = field (range_fields h cfg p) k" for k
    unfolding assms(2) derive_range[OF assms(1)]
    by (rule field_middle; simp only: map_append section_keys set_append; auto)
  have r: "field V k = field (range_fields h cfg p) k"
    if "k \<in> {''showRange'', ''rangeText'', ''showMotorTemp'', ''motorTempText'', ''showCabinTemp'', ''cabinTempText''}" for k
    using that by (intro r) (simp only: section_keys, auto)
  have V: "list_all (agree V) flag_texts" "list_all (shows_text V) reading_texts"
    using shown_agree[OF assms(1)] shown_readings[OF assms(1)] by (simp_all only: assms(2))
  show ?thesis
    by (simp only: c r insert_iff simp_thms)
      (intro conjI impI V; rule energy_hidden range_hidden; assumption)
qed

lemma shown_iff_text_witness:
  "list_all (agree (derive demo_host demo_config (Obj [(''battery_soh'', Str ''0''), (''vehicle_12v'', Str ''12.6'')])))
     flag_texts"
  using shown_iff_text[OF _ refl, of "Obj [(''battery_soh'', Str ''0''), (''vehicle_12v'', Str ''12.6'')]"
      demo_host demo_config]
  by (simp add: is_object_def)

text \<open>
  A state word of \<^verbatim>\<open>None\<close> or \<^verbatim>\<open>null\<close> counts as a state for the tile, and as absent for its text: the tile is
  shown and empty.
\<close>

lemma charge_state_tile_empty:
  assumes "p = Obj [(''charge_state_text'', Str ''None'')]"
  shows "field (charging_fields h demo_config p) ''showChargeStateTile'' = Some (Bool True)"
    and "field (charging_fields h demo_config p) ''chargeStateText'' = Some (Str [])"
proof -
  have "state_known p" and "state_label demo_config p = Str []" and "text_of (get_prop p ''charge_state_text'') = []"
    unfolding assms by code_simp+
  then show "field (charging_fields h demo_config p) ''showChargeStateTile'' = Some (Bool True)"
    and "field (charging_fields h demo_config p) ''chargeStateText'' = Some (Str [])"
    by (simp_all add: charging_fields_def Let_def or_js_def truthy_def del: first.simps)
qed

section \<open>Durations\<close>

text \<open>A count of minutes, not too large, divided by 60 rounds to a number of the same hour.\<close>

lemma hours_floor:
  assumes "0 \<le> q" and "q \<le> 10 ^ 9" and "q < of_int (\<lfloor>q / 60\<rfloor>) * 60 + 59 + 63 / 64"
  shows "\<lfloor>fl (q / 60)\<rfloor> = \<lfloor>q / 60\<rfloor>" and "fl (q / 60) \<le> 10 ^ 9"
proof -
  define k where "k = \<lfloor>q / 60\<rfloor>"
  have k: "of_int k \<le> q / 60" "q / 60 < of_int k + 1" unfolding k_def using floor_correct[of "q / 60"] by simp_all
  have kb: "0 \<le> k" "k \<le> 10 ^ 9" using assms(1,2) by (auto simp: k_def floor_le_iff)
  have "of_int k \<le> fl (q / 60)" using k(1) kb by (intro fl_ge_int) simp_all
  moreover have "fl (q / 60) < of_int k + 1"
  proof -
    let ?m = "of_int (4096 * k + 4095) * 2 powi (- 12) :: rat"
    have m: "?m = of_int k + 4095 / 4096" by (simp add: power_int_def field_simps)
    have "q / 60 \<le> ?m" using assms(3) unfolding m k_def by simp
    then have "fl (q / 60) \<le> fl ?m" by (rule fl_mono)
    also have "fl ?m = ?m" using kb by (intro fl_representable[OF refl]) simp_all
    finally show ?thesis unfolding m by simp
  qed
  ultimately show "\<lfloor>fl (q / 60)\<rfloor> = \<lfloor>q / 60\<rfloor>"
    unfolding k_def[symmetric] by (intro floor_unique) simp_all
  have "fl (q / 60) \<le> of_int (10 ^ 9)" using assms(1,2) by (intro fl_le_int) simp_all
  then show "fl (q / 60) \<le> 10 ^ 9" by simp
qed

lemma minutes_value:
  assumes "0 \<le> q" and "q \<le> 10 ^ 9" and "q < of_int \<lfloor>q / 60\<rfloor> * 60 + 59 + 63 / 64"
  shows "minutes (Some (Fin q)) =
    (let k = \<lfloor>q / 60\<rfloor>; m = num_text (of_int \<lfloor>q - 60 * of_int k + 1 / 2\<rfloor>) in
     Some (if 0 < k then num_text (of_int k) @ ''h '' @ pad2 m @ ''m'' else m @ ''m''))"
proof -
  define k where "k = \<lfloor>q / 60\<rfloor>"
  have kb: "0 \<le> k" using assms(1) by (simp add: k_def)
  have f: "\<lfloor>fl (q / 60)\<rfloor> = k" "fl (q / 60) \<le> 10 ^ 9"
    using hours_floor[OF assms] by (simp_all add: k_def)
  have b: "(10 :: rat) ^ 9 < 2 ^ 1024"
    by simp
  have d: "jfloor (jdiv (Fin q) (Fin 60)) = Fin (of_int k)"
  proof (cases "q = 0")
    case True
    then show ?thesis by (simp add: jdiv_def finite_value_def signed_zero_def is_neg_def jfloor_def k_def)
  next
    case False
    have pos: "0 \<le> fl (q / 60)" using assms(1) fl_mono[of 0 "q / 60"] by simp
    then have "round_num (q / 60) = Fin (fl (q / 60))"
      using assms(1) f(2) b by (auto simp: round_num_def Let_def)
    then show ?thesis using False assms(1) by (simp add: jdiv_def finite_value_def is_neg_def jfloor_def f)
  qed
  have r: "0 \<le> q - 60 * of_int k" by (simp add: k_def) linarith
  have m: "jround (jmod (Fin q) (Fin 60)) = Fin (of_int \<lfloor>q - 60 * of_int k + 1 / 2\<rfloor>)"
    using r assms(1) by (auto simp: jmod_def finite_value_def signed_zero_def is_neg_def jround_def trunc_rat_def k_def)
  show ?thesis
    using assms(1) kb by (simp add: minutes_def jless_def finite_value_def d m num_string_def Let_def flip: k_def)
qed

text \<open>
  Whole minutes are written as hours and minutes that add up to them: below an hour the minutes
  alone, from an hour on the hours and two digits of minutes, below 60, for every count up to a
  thousand million.
\<close>

theorem minutes_text:
  assumes "0 \<le> n" and "n \<le> 10 ^ 9"
  shows "minutes (Some (Fin (of_int n))) =
    Some (if n < 60 then num_text (of_int n) @ ''m''
          else num_text (of_int (n div 60)) @ ''h '' @ pad2 (num_text (of_int (n mod 60))) @ ''m'')"
proof -
  have k: "\<lfloor>of_int n / (60 :: rat)\<rfloor> = n div 60"
    using floor_divide_of_int_eq[of n 60, where 'a = rat] by simp
  have "n = n div 60 * 60 + n mod 60" by simp
  then have r: "(of_int n :: rat) - 60 * of_int (n div 60) = of_int (n mod 60)"
    by (metis add_diff_cancel_left' minus_mod_eq_mult_div of_int_diff of_int_mult of_int_numeral mult.commute)
  have "(of_int n :: rat) < of_int (n div 60) * 60 + 59 + 63 / 64"
  proof -
    have "n mod 60 \<le> 59" by simp
    then have "(of_int (n mod 60) :: rat) \<le> of_int 59" unfolding of_int_le_iff .
    with r show ?thesis by simp
  qed
  moreover have "\<lfloor>1 / 2 :: rat\<rfloor> = 0" by (rule floor_unique) simp_all
  ultimately show ?thesis
    using assms minutes_value[of "of_int n"] by (auto simp: k r Let_def)
qed

lemma minutes_text_witness: "minutes (Some (Fin (of_int 125))) = Some ''2h 05m''"
proof -
  have "num_text (of_int 2) = ''2''" "pad2 (num_text (of_int 5)) = ''05''" by code_simp+
  with minutes_text[of 125] show ?thesis by simp
qed

lemma num_sixty: "num_text (of_int 60) = ''60''"
  by code_simp

text \<open>
  Fractions of the last half minute of an hour are written as 60 minutes: the hours are cut off
  before the minutes are rounded, so 59.5 minutes are \<^verbatim>\<open>60m\<close> and 119.5 are \<^verbatim>\<open>1h 60m\<close>.
\<close>

theorem minutes_sixty:
  assumes "0 \<le> k" and "k \<le> 1000000" and "119 / 2 \<le> f" and "f \<le> 599 / 10"
  shows "minutes (Some (Fin (of_int (60 * k) + f))) =
    Some (if k = 0 then ''60m'' else num_text (of_int k) @ ''h 60m'')"
proof -
  have k: "\<lfloor>(of_int (60 * k) + f) / 60\<rfloor> = k"
    using assms(3,4) by (intro floor_unique) (simp_all add: field_simps)
  have "\<lfloor>f + 1 / 2\<rfloor> = 60" using assms(3,4) by (intro floor_unique) simp_all
  then have m: "num_text (of_int \<lfloor>of_int (60 * k) + f - 60 * of_int k + 1 / 2\<rfloor>) = ''60''"
    using num_sixty by simp
  have "(of_int k :: rat) \<le> of_int 1000000" using assms(2) by (simp only: of_int_le_iff)
  then have "(of_int (60 * k) :: rat) + f \<le> 10 ^ 9" using assms(4) by simp
  moreover have "0 \<le> (of_int (60 * k) :: rat) + f" using assms(1,3) by simp
  ultimately show ?thesis
    using minutes_value[of "of_int (60 * k) + f"] assms unfolding k Let_def m by (auto simp: pad2_def)
qed

lemma minutes_sixty_witness: "minutes (Some (Fin (of_int (60 * 1) + 119 / 2))) = Some ''1h 60m''"
proof -
  have "num_text (of_int 1) = ''1''" by code_simp
  with minutes_sixty[of 1 "119 / 2"] show ?thesis by simp
qed

end
