(* ===== verification/Spec2Isabelle.thy ===== *)
theory Spec2Isabelle
  imports Js_Prelude Js_Number Js_Text Js_Value Hilbert Tile_Id Bytes Varint Binary_Search Directory Header
    V2_Directory Fetch_Source Lru_Map Archive_Env Resolved_Cache Promise_Cache Archive_Slots Reader
    Transparency Refresh V2_Archive Concurrent_Readers Concurrent_Archive Concurrent_Refresh
    Inflate Bit_Stream Prefix_Code Deflate_Format Inflate_Reads Inflate_Correct Inflate_Blocks Inflate_Total
    Decompress Packed_Archive Map_Protocol Map_Protocol_Props Raster_Layer Live_View Live_View_Props
begin

text \<open>
  PyOVMS is a server for Open Vehicle Monitoring modules with web pages that show the vehicles. This
  development verifies the code of its pages that runs in the browser and carries logic of its own:
  the reader of PMTiles archives behind the maps, \<^verbatim>\<open>src/app/static/js/pmtiles.js\<close>, from the bytes of an
  archive to the answers the map libraries get, with the inflate routine it bundles; and the derivation
  of the live view of a vehicle, \<^verbatim>\<open>src/app/static/js/vehicle_live_view.js\<close>.

  \<^bold>\<open>The program and how its parts interact.\<close> A map asks an adapter (\<^verbatim>\<open>Protocol\<close> for MapLibre,
  \<^verbatim>\<open>leafletRasterLayer\<close> for Leaflet) for a tile. The adapter calls \<^verbatim>\<open>getZxy\<close> of a \<^verbatim>\<open>PMTiles\<close>
  object, which computes the identifier of the tile, gets the header and the directories of the archive
  from its cache (\<^verbatim>\<open>SharedPromiseCache\<close> or \<^verbatim>\<open>ResolvedValueCache\<close>), searches them, and reads and
  unpacks the bytes of the tile. On a miss the cache reads ranges from a source (\<^verbatim>\<open>FileSource\<close>,
  \<^verbatim>\<open>FetchSource\<close>), unpacks them and parses them. When the source finds that the archive was replaced,
  it throws \<^verbatim>\<open>EtagMismatch\<close>; the object then drops the header from the cache and tries once more. The
  live view is separate: a pure function from a payload to the fields the templates bind.

  \<^bold>\<open>The language\<close> (theories \<open>Js_Prelude\<close>, \<open>Js_Number\<close>, \<open>Js_Text\<close>, \<open>Js_Value\<close>, \<open>Bytes\<close>). A number is
  the rational it stands for, and every operation rounds by \<open>fl\<close> to 53 bits, as the code does; where the
  code can meet NaN, infinities or \<^verbatim>\<open>-0\<close> the type is \<open>jsnum\<close>. Bit operators go through \<^verbatim>\<open>ToInt32\<close> or
  words of 32 bits. Strings are lists of UTF-8 bytes. Exceptions are the left side of a sum,
  \<open>js_error + 'a\<close>. A buffer is a list of bytes; what an access outside of it does (\<^verbatim>\<open>undefined\<close>, or a
  \<^verbatim>\<open>RangeError\<close>) is written out. Asynchronous code is modelled from one suspension to the next; state is
  passed explicitly, as the pair of the cache and the source. A function of a method runs it without other
  calls in between; \<open>Concurrent_Readers\<close> has the interleavings, and that every run of a call alone gives what the function does.

  \<^bold>\<open>Reading an archive.\<close>
  \<^item> \<open>Hilbert\<close>, \<open>Tile_Id\<close>: \<^verbatim>\<open>rotate\<close>, \<^verbatim>\<open>idOnLevel\<close>, \<^verbatim>\<open>zxyToTileId\<close>, \<^verbatim>\<open>tileIdToZxy\<close>, refined to the
    curve on integers; the two conversions are inverse to each other on all levels, onto, and continuous.
  \<^item> \<open>Varint\<close>, \<open>Directory\<close>, \<open>Header\<close>: \<^verbatim>\<open>readVarint\<close>, \<^verbatim>\<open>deserializeIndex\<close>, \<^verbatim>\<open>findTile\<close>,
    \<^verbatim>\<open>bytesToHeader\<close>, \<^verbatim>\<open>detectVersion\<close>. Round trips against serializers of the format, results and
    errors on arbitrary bytes, and the search against a linear one.
  \<^item> \<open>Binary_Search\<close>: the interface \<open>ordered_search\<close>, what a comparator has to promise, with the steps of
    the loop invariant; interpreted for \<^verbatim>\<open>findTile\<close> in \<open>Directory\<close> and for \<^verbatim>\<open>queryView\<close> in
    \<open>V2_Directory\<close>.
  \<^item> \<open>V2_Directory\<close>: the \<^verbatim>\<open>v2.ts\<close> part, 17-byte entries: search, sorting, rewriting, \<^verbatim>\<open>deriveLeaf\<close>.
  \<^item> \<open>Fetch_Source\<close>: the sources. The interface \<open>byte_source\<close> (ranges of one version of an archive) is
    interpreted for a local file and for a server that answers range requests.
  \<^item> \<open>Archive_Env\<close>, \<open>Lru_Map\<close>, \<open>Resolved_Cache\<close>, \<open>Promise_Cache\<close>: what a cache fetches on a miss, and the two
    caches. \<open>pc_step\<close> is the event loop's view of the cache of promises: requests, invalidations and
    settling fetches in any order; its invariant, the sharing of fetches and the settling of all promises
    are proved over it.
  \<^item> \<open>Archive_Slots\<close>: what a cache may hold of an archive, for every version of the format. The interface
    \<open>served_archive\<close> is what fetching has to give; inside it both caches answer with the header and the
    parts of the archive and stay right.
  \<^item> \<open>Reader\<close>: the class \<^verbatim>\<open>PMTiles\<close>. Its interfaces: \<open>archive_reader\<close>, a cache that gives the header and
    a source that gives ranges (metadata and TileJSON are proved inside it, for all versions);
    \<open>tile_cache\<close>, which also gives the directories of version 3; and \<open>tile_service\<close>, that every tile is
    answered with what the archive holds, which follows from \<open>tile_cache\<close>.
  \<^item> \<open>Transparency\<close>, \<open>Refresh\<close>: both caches are interpretations of \<open>tile_cache\<close>, over every
    \<open>byte_source\<close>; hence the refinement \<open>getZxy_refines_archive\<close>, the round trip through a whole archive,
    and that a replaced archive is read anew.
  \<^item> \<open>V2_Archive\<close>: the same for archives of the versions 1 and 2, with the interface \<open>v2_cache\<close>:
    \<open>v2_getZxy_refines_archive\<close>, against a search of the root directory and of one leaf.
  \<^item> \<open>Concurrent_Readers\<close>, \<open>Concurrent_Archive\<close>, \<open>Concurrent_Refresh\<close>: many calls of \<^verbatim>\<open>getZxy\<close> at once. A call is its place between
    two suspensions; \<open>run_step\<close> lets any call go on, or any fetch end. A call alone does what \<open>getZxy\<close> does,
    in every run (\<open>call_alone\<close>), all calls finish whatever the source answers (\<open>calls_finish\<close>), and over one archive every
    call gets what it holds, in every order (\<open>concurrent_calls_correct\<close>): the interface \<open>concurrent_archive\<close>
    is what a call keeps between two suspensions, interpreted for version 3 and for the versions before.
    Over an archive that was replaced, every call gets what the new version holds, though the calls share
    a cache with the old header and one invalidation (\<open>replaced_archive_concurrently\<close>).

  \<^bold>\<open>Unpacking.\<close>
  \<^item> \<open>Inflate\<close>: the bundled routine, \<^verbatim>\<open>hMap\<close>, \<^verbatim>\<open>inflt\<close> and the containers up to \<^verbatim>\<open>decompressSync\<close>.
  \<^item> \<open>Bit_Stream\<close>, \<open>Deflate_Format\<close>, \<open>Prefix_Code\<close>: the reference: bit fields, DEFLATE as a writer of
    blocks, canonical codes; \<open>hMap_decodes\<close> states that the table decodes any prefix code.
  \<^item> \<open>Inflate_Reads\<close>, \<open>Inflate_Correct\<close>, \<open>Inflate_Blocks\<close>, \<open>Decompress\<close>: what the writer puts out is read
    back, block by block, as streams, and in the zlib and gzip containers.
  \<^item> \<open>Inflate_Total\<close>: the routine returns on every input, with bytes or one of nine errors.
  \<^item> \<open>Packed_Archive\<close>: the reader over the routine: an archive of gzip members is served as what was
    packed into it.

  \<^bold>\<open>Map adapters.\<close> \<open>Map_Protocol\<close> models \<^verbatim>\<open>Protocol\<close> with the regular expression of its URLs and
  \<^verbatim>\<open>v3compat\<close>; objects are shared by reference and live in a store. \<open>Map_Protocol_Props\<close>: the tile
  template is taken apart into what it was made of, one object serves an archive, and the answers are what
  the archive holds, proved inside \<open>tile_service\<close> for every version and cache. \<open>Raster_Layer\<close> models
  \<^verbatim>\<open>leafletRasterLayer\<close> as a step relation of its handlers, which settle in any order, a failed read of the
  header included.

  \<^bold>\<open>The live view.\<close> \<open>Live_View\<close> follows \<^verbatim>\<open>create\<close> and \<^verbatim>\<open>derive\<close> assignment by assignment;
  \<open>Live_View_Props\<close>: every payload gives all 56 fields with the types the templates expect, an offline
  vehicle is grey, what is shown has a text (for twelve readings nothing else has), widths are percentages, durations add up.

  \<^bold>\<open>Bounds and termination.\<close> \<open>read_tile\<close> counts the four levels of directories of the code's own loop. The
  loops of the inflate routine and \<^verbatim>\<open>idOnLevel\<close> are partial functions, \<open>None\<close> for a run that does not
  return; that they return is proved (\<open>decompress_total\<close>; \<open>tile_id_roundtrip\<close> for levels up to 26, the
  bound the code checks). A run of concurrent calls has at most 28 steps for each. All other loops are total functions. Tile identifiers are below \<open>2 ^ 53\<close> up to
  level 26, which the properties on tiles assume. The round trips of the inflate routine without an
  output buffer ask for at most 131072 literals in a row, the room the code makes at a time; bit positions
  are exact for buffers below 2 GiB.

  \<^bold>\<open>Parameters.\<close> The network (a function of the requests made so far), \<^verbatim>\<open>DecompressionStream\<close>, the JSON
  parser and UTF-8 decoder, the formats of numbers, dates and relative times in a language, the clock, and
  what a callback of a map library throws are arguments of the definitions. The properties assume of them
  only what is in \<open>byte_source\<close> or in their own hypotheses.

  \<^bold>\<open>Not modelled.\<close> The third-party libraries under \<^verbatim>\<open>src/app/static/js\<close> (Leaflet, Chart, Luxon, Alpine,
  msgpack, protomaps-leaflet, redoc, swagger-ui) are vendored, mostly minified code; \<^verbatim>\<open>tailwind.config.js\<close>
  is build configuration; the templates are markup. The Python server is another program, in another
  language. Of \<^verbatim>\<open>pmtiles.js\<close>, the module wrapper and the generated helper \<^verbatim>\<open>__async\<close> (the scheduler
  behind the suspensions, whose effect is \<open>run_step\<close>), warnings on the console and the unused \<^verbatim>\<open>prefetch\<close> option are left out.
\<close>

end
